(* ===== verification/Prelude.thy ===== *)
theory Prelude
  imports Main "HOL-Library.Word" "HOL-Library.Sublist"
begin

text \<open>
  Shared vocabulary of the development: the machine integer types of the C++ sources, the
  character classes and string primitives of the C++ standard library that the sources call
  (\<^verbatim>\<open>std::toupper\<close>, \<^verbatim>\<open>std::string::find\<close>, \<^verbatim>\<open>std::to_string\<close>, decimal digits), and generic
  lemmas on words, lists and strings that the component theories share.
\<close>

unbundle bit_operations_syntax

section \<open>Machine integers\<close>

type_synonym u8 = "8 word"
type_synonym u16 = "16 word"
type_synonym u32 = "32 word"
type_synonym u64 = "64 word"

named_theorems policy_simps \<open>evaluation rules for the components' small operations\<close>
named_theorems mask_simps \<open>bitwise characterisation of masks and feature words\<close>
named_theorems layout_simps \<open>field layout of the wire messages\<close>

text \<open>A single bit of a 64-bit word: \<^verbatim>\<open>std::uint64_t{1} << b\<close>.\<close>

lemma bit_push_bit_one_iff [mask_simps]:
  "bit (push_bit n (1 :: 'a :: len word)) m \<longleftrightarrow> m = n \<and> n < LENGTH('a)"
  by (auto simp: bit_simps)

lemma and_eq_iff_bits:
  "(f AND m = v) \<longleftrightarrow> (\<forall>b < LENGTH('a). (bit f b \<and> bit m b) = bit v b)"
  for f m v :: "'a :: len word"
  by (auto simp: bit_eq_iff bit_simps dest: bit_imp_le_length)

lemma and_zero_iff_bits:
  "(f AND m = 0) \<longleftrightarrow> (\<forall>b < LENGTH('a). \<not> (bit f b \<and> bit m b))"
  for f m :: "'a :: len word"
  by (auto simp: bit_eq_iff bit_simps dest: bit_imp_le_length)

lemma and_push_bit_one_nonzero [mask_simps]:
  "(f AND push_bit n 1 \<noteq> 0) \<longleftrightarrow> bit f n"
  for f :: "'a :: len word"
  unfolding and_zero_iff_bits bit_push_bit_one_iff by (auto dest: bit_imp_le_length)

lemma unat_less_power: "unat (x :: 'a :: len word) < 2 ^ LENGTH('a)"
  by (rule unsigned_less)

lemma unat_ucast_up:
  assumes "LENGTH('a) \<le> LENGTH('b)"
  shows "unat (ucast (x :: 'a :: len word) :: 'b :: len word) = unat x"
proof -
  have "unat x < 2 ^ LENGTH('b)"
    using unat_less_power [of x] power_increasing [OF assms, of "2 :: nat"] by (simp only: order.strict_trans2 one_le_numeral)
  then show ?thesis by (simp add: unsigned_ucast_eq take_bit_nat_eq_self)
qed

lemma unat_and_mask:
  fixes x :: "'a :: len word"
  shows "unat (x AND mask n) = unat x mod 2 ^ n"
proof -
  have "unat (x AND mask n) = take_bit n (unat x)"
    by (simp only: take_bit_eq_mask [symmetric] unsigned_take_bit_eq)
  then show ?thesis by (simp only: take_bit_eq_mod)
qed

section \<open>Characters\<close>

definition is_digit :: "char \<Rightarrow> bool" where
  "is_digit c \<longleftrightarrow> 48 \<le> (of_char c :: nat) \<and> (of_char c :: nat) \<le> 57"

definition digit_val :: "char \<Rightarrow> nat" where
  "digit_val c = of_char c - 48"

definition digit_char :: "nat \<Rightarrow> char" where
  "digit_char d = char_of (48 + d)"

definition to_lower_char :: "char \<Rightarrow> char" where
  "to_lower_char c = (if 65 \<le> (of_char c :: nat) \<and> (of_char c :: nat) \<le> 90
                      then char_of ((of_char c :: nat) + 32) else c)"

definition to_upper_char :: "char \<Rightarrow> char" where
  "to_upper_char c = (if 97 \<le> (of_char c :: nat) \<and> (of_char c :: nat) \<le> 122
                      then char_of ((of_char c :: nat) - 32) else c)"

lemma of_char_less_256: "(of_char c :: nat) < 256"
proof -
  have "of_char c = (of_char c mod 256 :: nat)"
    by (metis of_char_mod_256)
  then show ?thesis by (metis mod_less_divisor zero_less_numeral)
qed

lemma of_digit_char [simp]: "d < 10 \<Longrightarrow> (of_char (digit_char d) :: nat) = 48 + d"
  by (simp add: digit_char_def)

lemma digit_val_digit_char [simp]: "d < 10 \<Longrightarrow> digit_val (digit_char d) = d"
  by (simp add: digit_val_def)

lemma is_digit_digit_char [simp]: "d < 10 \<Longrightarrow> is_digit (digit_char d)"
  by (simp add: is_digit_def)

lemma digit_val_less: "is_digit c \<Longrightarrow> digit_val c < 10"
  by (auto simp: is_digit_def digit_val_def)

lemma digit_char_digit_val [simp]: "is_digit c \<Longrightarrow> digit_char (digit_val c) = c"
  by (auto simp: is_digit_def digit_val_def digit_char_def)

section \<open>Strings\<close>

text \<open>
  \<^verbatim>\<open>s.find(c)\<close> with \<^verbatim>\<open>npos\<close> as \<^const>\<open>None\<close>, and the split of a string at the first occurrence of a
  separator: the text before it and, when there is one, the text after it.
\<close>

fun find_char :: "char \<Rightarrow> string \<Rightarrow> nat option" where
  "find_char c [] = None"
| "find_char c (x # xs) = (if x = c then Some 0 else map_option Suc (find_char c xs))"

fun split_at_char :: "char \<Rightarrow> string \<Rightarrow> string \<times> string option" where
  "split_at_char c [] = ([], None)"
| "split_at_char c (x # xs) =
     (if x = c then ([], Some xs)
      else (case split_at_char c xs of (a, b) \<Rightarrow> (x # a, b)))"

lemma split_at_char_None_iff: "snd (split_at_char c s) = None \<longleftrightarrow> c \<notin> set s"
  by (induction s) (auto split: prod.splits)

lemma split_at_char_absent: "c \<notin> set s \<Longrightarrow> split_at_char c s = (s, None)"
  by (induction s) auto

lemma split_at_char_append: "c \<notin> set a \<Longrightarrow> split_at_char c (a @ c # b) = (a, Some b)"
  by (induction a) auto

lemma split_at_char_Some_length:
  "split_at_char c s = (a, Some b) \<Longrightarrow> length a + length b + 1 = length s"
  by (induction s arbitrary: a) (auto split: if_splits prod.splits)

lemma find_char_split:
  "find_char c s = (case split_at_char c s of (a, None) \<Rightarrow> None | (a, Some b) \<Rightarrow> Some (length a))"
  by (induction s) (auto split: prod.splits option.splits)

text \<open>Splitting at every occurrence of a separator, always at least one piece.\<close>

fun split_all :: "char \<Rightarrow> string \<Rightarrow> string list" where
  "split_all c [] = [[]]"
| "split_all c (x # xs) =
     (if x = c then [] # split_all c xs
      else (case split_all c xs of [] \<Rightarrow> [[x]] | p # ps \<Rightarrow> (x # p) # ps))"

lemma split_all_nonempty [simp]: "split_all c s \<noteq> []"
  by (cases s) (auto split: list.splits)

lemma split_all_absent: "c \<notin> set s \<Longrightarrow> split_all c s = [s]"
  by (induction s) auto

lemma split_all_append: "c \<notin> set a \<Longrightarrow> split_all c (a @ c # b) = a # split_all c b"
  by (induction a) auto

text \<open>Trimming characters of a class at both ends.\<close>

definition trim_by :: "(char \<Rightarrow> bool) \<Rightarrow> string \<Rightarrow> string" where
  "trim_by P s = rev (dropWhile P (rev (dropWhile P s)))"

text \<open>
  The lines \<^verbatim>\<open>std::getline\<close> delivers: the text between newlines, without an empty last line when the
  input ends in a newline.
\<close>

definition getlines :: "string \<Rightarrow> string list" where
  "getlines s = (let ls = split_all (CHR 0x0A) s in if last ls = [] then butlast ls else ls)"

text \<open>The position of the first element equal to \<^term>\<open>x\<close> (\<^verbatim>\<open>std::find\<close> and \<^verbatim>\<open>std::distance\<close>).\<close>

fun index_of :: "'a \<Rightarrow> 'a list \<Rightarrow> nat option" where
  "index_of x [] = None"
| "index_of x (y # ys) = (if x = y then Some 0 else map_option Suc (index_of x ys))"

lemma index_of_Some:
  "index_of x xs = Some i \<Longrightarrow> i < length xs \<and> xs ! i = x \<and> (\<forall>j < i. xs ! j \<noteq> x)"
proof (induction xs arbitrary: i)
  case (Cons y ys)
  then show ?case by (cases i) (auto split: if_splits simp: less_Suc_eq_0_disj)
qed simp

lemma index_of_None: "index_of x xs = None \<longleftrightarrow> x \<notin> set xs"
  by (induction xs) auto

lemma index_of_nth: "distinct xs \<Longrightarrow> i < length xs \<Longrightarrow> index_of (xs ! i) xs = Some i"
proof (induction xs arbitrary: i)
  case (Cons y ys)
  then show ?case by (cases i) (auto simp: nth_mem)
qed simp

text \<open>\<^verbatim>\<open>std::to_string\<close> and \<^verbatim>\<open>%u\<close> / \<^verbatim>\<open>%llu\<close>: decimal rendering without leading zeros.\<close>

fun dec_of_nat :: "nat \<Rightarrow> string" where
  "dec_of_nat n = (if n < 10 then [digit_char n]
                   else dec_of_nat (n div 10) @ [digit_char (n mod 10)])"

declare dec_of_nat.simps [simp del]

definition dec_of_int :: "int \<Rightarrow> string" where
  "dec_of_int i = (if i < 0 then CHR ''-'' # dec_of_nat (nat (- i)) else dec_of_nat (nat i))"

text \<open>The value of a digit string read left to right, over the naturals.\<close>

definition digits_val :: "string \<Rightarrow> nat" where
  "digits_val s = foldl (\<lambda>v c. v * 10 + digit_val c) 0 s"

lemma digits_val_Nil [simp]: "digits_val [] = 0"
  by (simp add: digits_val_def)

lemma digits_val_snoc [simp]: "digits_val (s @ [c]) = digits_val s * 10 + digit_val c"
  by (simp add: digits_val_def)

lemma dec_of_nat_nonempty [simp]: "dec_of_nat n \<noteq> []"
  by (subst dec_of_nat.simps) simp

lemma dec_of_nat_digits: "c \<in> set (dec_of_nat n) \<Longrightarrow> is_digit c"
proof (induction n rule: dec_of_nat.induct)
  case (1 n)
  then show ?case
    by (cases "n < 10") (auto simp: dec_of_nat.simps [of n])
qed

lemma digits_val_dec_of_nat [simp]: "digits_val (dec_of_nat n) = n"
proof (induction n rule: dec_of_nat.induct)
  case (1 n)
  then show ?case
    by (cases "n < 10") (simp_all add: dec_of_nat.simps [of n] digits_val_def)
qed

lemma digits_val_bound: "(\<And>c. c \<in> set s \<Longrightarrow> is_digit c) \<Longrightarrow> digits_val s < 10 ^ length s"
proof (induction s rule: rev_induct)
  case Nil
  then show ?case by simp
next
  case (snoc c s)
  then have "digits_val s < 10 ^ length s" "digit_val c < 10"
    by (auto intro: digit_val_less)
  then show ?case by simp
qed

text \<open>Quoting for diagnostic messages: the sources write \<^verbatim>\<open>'name'\<close>.\<close>

definition quoted :: "string \<Rightarrow> string" where
  "quoted s = [CHR 0x27] @ s @ [CHR 0x27]"

end
