(* ===== verification/Wire.thy ===== *)
theory Wire
  imports Prelude
begin

text \<open>
  The 64-byte wire format of \<^verbatim>\<open>include/policy/wire.hpp\<close>: the enumerations carried on the wire,
  the request and decision messages, the byte-order helpers and \<^verbatim>\<open>encode\<close> / \<^verbatim>\<open>decode\<close>.
  A message in memory is the concatenation of the object representations of its fields in
  declaration order (the sources assert that there is no padding); the byte order of the host
  is the parameter \<open>le\<close> (\<^verbatim>\<open>kHostIsLittleEndian\<close>), so both the little-endian and the
  big-endian branch of the sources are modelled.
\<close>

section \<open>Constants and enumerations\<close>

definition kMagicBase :: u32 where "kMagicBase = 0x504C4300"
definition kWireVersion :: u8 where "kWireVersion = 1"
definition kMagicVersion :: u32 where "kMagicVersion = kMagicBase OR ucast kWireVersion"
definition kWireMsgSize :: nat where "kWireMsgSize = 64"

datatype RatType = kLte | kNr | kWlan

fun rat_u8 :: "RatType \<Rightarrow> u8" where
  "rat_u8 kLte = 0"
| "rat_u8 kNr = 1"
| "rat_u8 kWlan = 2"

datatype Verdict = kAllow | kDeny | kRedirect

fun verdict_u8 :: "Verdict \<Rightarrow> u8" where
  "verdict_u8 kAllow = 0"
| "verdict_u8 kDeny = 1"
| "verdict_u8 kRedirect = 2"

datatype Reason =
    kOk | kUnknownSubscriber | kSubscriberSuspended | kSubscriberBarred | kImeiBlockedReason
  | kRoamingNotAllowed | kPlmnNotPartner | kDnnNotAllowed | kRatNotAllowed | kQuotaExhaustedReason
  | kQuotaExhaustedThrottled | kTetheringBlocked | kNoMatchingRule | kPolicyDefaultDeny
  | kOffPeakBonus | kPlanDefault | kMalformedRequest

fun reason_u8 :: "Reason \<Rightarrow> u8" where
  "reason_u8 kOk = 0"
| "reason_u8 kUnknownSubscriber = 1"
| "reason_u8 kSubscriberSuspended = 2"
| "reason_u8 kSubscriberBarred = 3"
| "reason_u8 kImeiBlockedReason = 4"
| "reason_u8 kRoamingNotAllowed = 5"
| "reason_u8 kPlmnNotPartner = 6"
| "reason_u8 kDnnNotAllowed = 7"
| "reason_u8 kRatNotAllowed = 8"
| "reason_u8 kQuotaExhaustedReason = 9"
| "reason_u8 kQuotaExhaustedThrottled = 10"
| "reason_u8 kTetheringBlocked = 11"
| "reason_u8 kNoMatchingRule = 12"
| "reason_u8 kPolicyDefaultDeny = 13"
| "reason_u8 kOffPeakBonus = 14"
| "reason_u8 kPlanDefault = 15"
| "reason_u8 kMalformedRequest = 16"

definition kReasonCount :: nat where "kReasonCount = 17"

definition kFlagThrottled :: u8 where "kFlagThrottled = 1"
definition kFlagRoamingRestricted :: u8 where "kFlagRoamingRestricted = 2"
definition kFlagTetheringBlocked :: u8 where "kFlagTetheringBlocked = 4"
definition kFlagQuotaWarning :: u8 where "kFlagQuotaWarning = 8"
definition kFlagOffPeakBonus :: u8 where "kFlagOffPeakBonus = 16"
definition kFlagUsageFromRequest :: u8 where "kFlagUsageFromRequest = 32"

definition kReqFlagTetheringDetected :: u8 where "kReqFlagTetheringDetected = 1"
definition kReqFlagEmergency :: u8 where "kReqFlagEmergency = 2"
definition kReqFlagUsageValid :: u8 where "kReqFlagUsageValid = 4"

section \<open>Messages\<close>

record PolicyRequest =
  rq_magic_version :: u32
  rq_seq :: u32
  rq_imsi :: u64
  rq_imei :: u64
  rq_client_ts_ns :: u64
  rq_bytes_used_period :: u64
  rq_plmn :: u32
  rq_tac :: u16
  rq_rat_type :: u8
  rq_dnn_id :: u8
  rq_requested_5qi :: u8
  rq_flags :: u8
  rq_local_minute :: u16
  rq_req_ambr_ul_kbps :: u32
  rq_req_ambr_dl_kbps :: u32
  rq_reserved :: u32

record PolicyDecision =
  d_magic_version :: u32
  d_seq :: u32
  d_client_ts_ns :: u64
  d_quota_bytes :: u64
  d_ambr_ul_kbps :: u32
  d_ambr_dl_kbps :: u32
  d_rating_group :: u32
  d_quota_validity_s :: u32
  d_rule_id :: u32
  d_policy_version :: u32
  d_verdict :: u8
  d_reason :: u8
  d_qos_5qi :: u8
  d_arp :: u8
  d_flags :: u8
  d_redirect_id :: u8
  d_reserved :: u16
  d_server_ts_ns :: u64

text \<open>The value-initialised objects \<^verbatim>\<open>PolicyRequest{}\<close> and \<^verbatim>\<open>PolicyDecision{}\<close>.\<close>

definition zero_request :: PolicyRequest where
  "zero_request = \<lparr> rq_magic_version = 0, rq_seq = 0, rq_imsi = 0, rq_imei = 0, rq_client_ts_ns = 0,
     rq_bytes_used_period = 0, rq_plmn = 0, rq_tac = 0, rq_rat_type = 0, rq_dnn_id = 0,
     rq_requested_5qi = 0, rq_flags = 0, rq_local_minute = 0, rq_req_ambr_ul_kbps = 0,
     rq_req_ambr_dl_kbps = 0, rq_reserved = 0 \<rparr>"

definition zero_decision :: PolicyDecision where
  "zero_decision = \<lparr> d_magic_version = 0, d_seq = 0, d_client_ts_ns = 0, d_quota_bytes = 0,
     d_ambr_ul_kbps = 0, d_ambr_dl_kbps = 0, d_rating_group = 0, d_quota_validity_s = 0,
     d_rule_id = 0, d_policy_version = 0, d_verdict = 0, d_reason = 0, d_qos_5qi = 0, d_arp = 0,
     d_flags = 0, d_redirect_id = 0, d_reserved = 0, d_server_ts_ns = 0 \<rparr>"

section \<open>Object representation and byte order\<close>

definition le_bytes :: "nat \<Rightarrow> 'a :: len word \<Rightarrow> u8 list" where
  "le_bytes n w = map (\<lambda>i. ucast (drop_bit (8 * i) w)) [0..<n]"

fun le_word :: "u8 list \<Rightarrow> 'a :: len word" where
  "le_word [] = 0"
| "le_word (b # bs) = ucast b OR push_bit 8 (le_word bs)"

text \<open>Storing a scalar to memory and loading it back, on a host of either byte order.\<close>

definition store_word :: "bool \<Rightarrow> nat \<Rightarrow> 'a :: len word \<Rightarrow> u8 list" where
  "store_word le n w = (if le then le_bytes n w else rev (le_bytes n w))"

definition load_word :: "bool \<Rightarrow> nat \<Rightarrow> nat \<Rightarrow> u8 list \<Rightarrow> 'a :: len word" where
  "load_word le off n bs =
     (let raw = take n (drop off bs) in le_word (if le then raw else rev raw))"

definition bswap16 :: "u16 \<Rightarrow> u16" where
  "bswap16 v = push_bit 8 v OR drop_bit 8 v"

definition bswap32 :: "u32 \<Rightarrow> u32" where
  "bswap32 v = le_word (rev (le_bytes 4 v))"

definition bswap64 :: "u64 \<Rightarrow> u64" where
  "bswap64 v = le_word (rev (le_bytes 8 v))"

definition to_le16 :: "bool \<Rightarrow> u16 \<Rightarrow> u16" where
  "to_le16 le v = (if le then v else bswap16 v)"

definition to_le32 :: "bool \<Rightarrow> u32 \<Rightarrow> u32" where
  "to_le32 le v = (if le then v else bswap32 v)"

definition to_le64 :: "bool \<Rightarrow> u64 \<Rightarrow> u64" where
  "to_le64 le v = (if le then v else bswap64 v)"

definition swap_endianness_request :: "bool \<Rightarrow> PolicyRequest \<Rightarrow> PolicyRequest" where
  "swap_endianness_request le r = r\<lparr>
     rq_magic_version := to_le32 le (rq_magic_version r),
     rq_seq := to_le32 le (rq_seq r),
     rq_imsi := to_le64 le (rq_imsi r),
     rq_imei := to_le64 le (rq_imei r),
     rq_client_ts_ns := to_le64 le (rq_client_ts_ns r),
     rq_bytes_used_period := to_le64 le (rq_bytes_used_period r),
     rq_plmn := to_le32 le (rq_plmn r),
     rq_tac := to_le16 le (rq_tac r),
     rq_local_minute := to_le16 le (rq_local_minute r),
     rq_req_ambr_ul_kbps := to_le32 le (rq_req_ambr_ul_kbps r),
     rq_req_ambr_dl_kbps := to_le32 le (rq_req_ambr_dl_kbps r),
     rq_reserved := to_le32 le (rq_reserved r) \<rparr>"

definition swap_endianness_decision :: "bool \<Rightarrow> PolicyDecision \<Rightarrow> PolicyDecision" where
  "swap_endianness_decision le d = d\<lparr>
     d_magic_version := to_le32 le (d_magic_version d),
     d_seq := to_le32 le (d_seq d),
     d_client_ts_ns := to_le64 le (d_client_ts_ns d),
     d_quota_bytes := to_le64 le (d_quota_bytes d),
     d_ambr_ul_kbps := to_le32 le (d_ambr_ul_kbps d),
     d_ambr_dl_kbps := to_le32 le (d_ambr_dl_kbps d),
     d_rating_group := to_le32 le (d_rating_group d),
     d_quota_validity_s := to_le32 le (d_quota_validity_s d),
     d_rule_id := to_le32 le (d_rule_id d),
     d_policy_version := to_le32 le (d_policy_version d),
     d_reserved := to_le16 le (d_reserved d),
     d_server_ts_ns := to_le64 le (d_server_ts_ns d) \<rparr>"

text \<open>The bytes \<^verbatim>\<open>std::memcpy(out, &msg, 64)\<close> copies, and the object they make when copied back.\<close>

definition request_object :: "bool \<Rightarrow> PolicyRequest \<Rightarrow> u8 list" where
  "request_object le r =
     store_word le 4 (rq_magic_version r) @ store_word le 4 (rq_seq r) @
     store_word le 8 (rq_imsi r) @ store_word le 8 (rq_imei r) @
     store_word le 8 (rq_client_ts_ns r) @ store_word le 8 (rq_bytes_used_period r) @
     store_word le 4 (rq_plmn r) @ store_word le 2 (rq_tac r) @
     store_word le 1 (rq_rat_type r) @ store_word le 1 (rq_dnn_id r) @
     store_word le 1 (rq_requested_5qi r) @ store_word le 1 (rq_flags r) @
     store_word le 2 (rq_local_minute r) @ store_word le 4 (rq_req_ambr_ul_kbps r) @
     store_word le 4 (rq_req_ambr_dl_kbps r) @ store_word le 4 (rq_reserved r)"

definition object_request :: "bool \<Rightarrow> u8 list \<Rightarrow> PolicyRequest" where
  "object_request le bs = \<lparr>
     rq_magic_version = load_word le 0 4 bs, rq_seq = load_word le 4 4 bs,
     rq_imsi = load_word le 8 8 bs, rq_imei = load_word le 16 8 bs,
     rq_client_ts_ns = load_word le 24 8 bs, rq_bytes_used_period = load_word le 32 8 bs,
     rq_plmn = load_word le 40 4 bs, rq_tac = load_word le 44 2 bs,
     rq_rat_type = load_word le 46 1 bs, rq_dnn_id = load_word le 47 1 bs,
     rq_requested_5qi = load_word le 48 1 bs, rq_flags = load_word le 49 1 bs,
     rq_local_minute = load_word le 50 2 bs, rq_req_ambr_ul_kbps = load_word le 52 4 bs,
     rq_req_ambr_dl_kbps = load_word le 56 4 bs, rq_reserved = load_word le 60 4 bs \<rparr>"

definition decision_object :: "bool \<Rightarrow> PolicyDecision \<Rightarrow> u8 list" where
  "decision_object le d =
     store_word le 4 (d_magic_version d) @ store_word le 4 (d_seq d) @
     store_word le 8 (d_client_ts_ns d) @ store_word le 8 (d_quota_bytes d) @
     store_word le 4 (d_ambr_ul_kbps d) @ store_word le 4 (d_ambr_dl_kbps d) @
     store_word le 4 (d_rating_group d) @ store_word le 4 (d_quota_validity_s d) @
     store_word le 4 (d_rule_id d) @ store_word le 4 (d_policy_version d) @
     store_word le 1 (d_verdict d) @ store_word le 1 (d_reason d) @
     store_word le 1 (d_qos_5qi d) @ store_word le 1 (d_arp d) @
     store_word le 1 (d_flags d) @ store_word le 1 (d_redirect_id d) @
     store_word le 2 (d_reserved d) @ store_word le 8 (d_server_ts_ns d)"

definition object_decision :: "bool \<Rightarrow> u8 list \<Rightarrow> PolicyDecision" where
  "object_decision le bs = \<lparr>
     d_magic_version = load_word le 0 4 bs, d_seq = load_word le 4 4 bs,
     d_client_ts_ns = load_word le 8 8 bs, d_quota_bytes = load_word le 16 8 bs,
     d_ambr_ul_kbps = load_word le 24 4 bs, d_ambr_dl_kbps = load_word le 28 4 bs,
     d_rating_group = load_word le 32 4 bs, d_quota_validity_s = load_word le 36 4 bs,
     d_rule_id = load_word le 40 4 bs, d_policy_version = load_word le 44 4 bs,
     d_verdict = load_word le 48 1 bs, d_reason = load_word le 49 1 bs,
     d_qos_5qi = load_word le 50 1 bs, d_arp = load_word le 51 1 bs,
     d_flags = load_word le 52 1 bs, d_redirect_id = load_word le 53 1 bs,
     d_reserved = load_word le 54 2 bs, d_server_ts_ns = load_word le 56 8 bs \<rparr>"

section \<open>Encode and decode\<close>

definition encode_request :: "bool \<Rightarrow> PolicyRequest \<Rightarrow> u8 list" where
  "encode_request le m =
     (if le then request_object le m else request_object le (swap_endianness_request le m))"

definition encode_decision :: "bool \<Rightarrow> PolicyDecision \<Rightarrow> u8 list" where
  "encode_decision le m =
     (if le then decision_object le m else decision_object le (swap_endianness_decision le m))"

text \<open>
  \<^verbatim>\<open>decode\<close> returns its flag together with the out-parameter: unchanged when the length is
  wrong, overwritten (even on a bad magic) otherwise.
\<close>

definition decode_request :: "bool \<Rightarrow> u8 list \<Rightarrow> PolicyRequest \<Rightarrow> bool \<times> PolicyRequest" where
  "decode_request le bs out =
     (if length bs \<noteq> kWireMsgSize then (False, out)
      else let m = object_request le bs;
               m = (if le then m else swap_endianness_request le m)
           in (rq_magic_version m = kMagicVersion, m))"

definition decode_decision :: "bool \<Rightarrow> u8 list \<Rightarrow> PolicyDecision \<Rightarrow> bool \<times> PolicyDecision" where
  "decode_decision le bs out =
     (if length bs \<noteq> kWireMsgSize then (False, out)
      else let m = object_decision le bs;
               m = (if le then m else swap_endianness_decision le m)
           in (d_magic_version m = kMagicVersion, m))"

section \<open>Names\<close>

definition verdict_name :: "u8 \<Rightarrow> string" where
  "verdict_name v =
     (if v = verdict_u8 kAllow then ''ALLOW''
      else if v = verdict_u8 kDeny then ''DENY''
      else if v = verdict_u8 kRedirect then ''REDIRECT''
      else ''INVALID'')"

definition reason_name :: "u8 \<Rightarrow> string" where
  "reason_name r =
     (if r = reason_u8 kOk then ''OK''
      else if r = reason_u8 kUnknownSubscriber then ''UNKNOWN_SUBSCRIBER''
      else if r = reason_u8 kSubscriberSuspended then ''SUBSCRIBER_SUSPENDED''
      else if r = reason_u8 kSubscriberBarred then ''SUBSCRIBER_BARRED''
      else if r = reason_u8 kImeiBlockedReason then ''IMEI_BLOCKED''
      else if r = reason_u8 kRoamingNotAllowed then ''ROAMING_NOT_ALLOWED''
      else if r = reason_u8 kPlmnNotPartner then ''PLMN_NOT_PARTNER''
      else if r = reason_u8 kDnnNotAllowed then ''DNN_NOT_ALLOWED''
      else if r = reason_u8 kRatNotAllowed then ''RAT_NOT_ALLOWED''
      else if r = reason_u8 kQuotaExhaustedReason then ''QUOTA_EXHAUSTED''
      else if r = reason_u8 kQuotaExhaustedThrottled then ''QUOTA_EXHAUSTED_THROTTLED''
      else if r = reason_u8 kTetheringBlocked then ''TETHERING_BLOCKED''
      else if r = reason_u8 kNoMatchingRule then ''NO_MATCHING_RULE''
      else if r = reason_u8 kPolicyDefaultDeny then ''POLICY_DEFAULT_DENY''
      else if r = reason_u8 kOffPeakBonus then ''OFF_PEAK_BONUS''
      else if r = reason_u8 kPlanDefault then ''PLAN_DEFAULT''
      else if r = reason_u8 kMalformedRequest then ''MALFORMED_REQUEST''
      else ''INVALID'')"

definition rat_name :: "u8 \<Rightarrow> string" where
  "rat_name r =
     (if r = rat_u8 kLte then ''LTE''
      else if r = rat_u8 kNr then ''NR''
      else if r = rat_u8 kWlan then ''WLAN''
      else ''INVALID'')"

section \<open>The layout on the wire\<close>

text \<open>The layout in byte order of the wire: each scalar little-endian, at the offset of its field.\<close>

definition wire_request :: "PolicyRequest \<Rightarrow> u8 list" where
  "wire_request r =
     le_bytes 4 (rq_magic_version r) @ le_bytes 4 (rq_seq r) @ le_bytes 8 (rq_imsi r) @
     le_bytes 8 (rq_imei r) @ le_bytes 8 (rq_client_ts_ns r) @ le_bytes 8 (rq_bytes_used_period r) @
     le_bytes 4 (rq_plmn r) @ le_bytes 2 (rq_tac r) @ le_bytes 1 (rq_rat_type r) @
     le_bytes 1 (rq_dnn_id r) @ le_bytes 1 (rq_requested_5qi r) @ le_bytes 1 (rq_flags r) @
     le_bytes 2 (rq_local_minute r) @ le_bytes 4 (rq_req_ambr_ul_kbps r) @
     le_bytes 4 (rq_req_ambr_dl_kbps r) @ le_bytes 4 (rq_reserved r)"

definition wire_decision :: "PolicyDecision \<Rightarrow> u8 list" where
  "wire_decision d =
     le_bytes 4 (d_magic_version d) @ le_bytes 4 (d_seq d) @ le_bytes 8 (d_client_ts_ns d) @
     le_bytes 8 (d_quota_bytes d) @ le_bytes 4 (d_ambr_ul_kbps d) @ le_bytes 4 (d_ambr_dl_kbps d) @
     le_bytes 4 (d_rating_group d) @ le_bytes 4 (d_quota_validity_s d) @ le_bytes 4 (d_rule_id d) @
     le_bytes 4 (d_policy_version d) @ le_bytes 1 (d_verdict d) @ le_bytes 1 (d_reason d) @
     le_bytes 1 (d_qos_5qi d) @ le_bytes 1 (d_arp d) @ le_bytes 1 (d_flags d) @
     le_bytes 1 (d_redirect_id d) @ le_bytes 2 (d_reserved d) @ le_bytes 8 (d_server_ts_ns d)"

section \<open>Bytes of words\<close>

lemma length_le_bytes [simp]: "length (le_bytes n w) = n"
  by (simp add: le_bytes_def)

lemma length_store_word [simp]: "length (store_word le n w) = n"
  by (simp add: store_word_def)

lemma bit_le_word:
  "bit (le_word bs :: 'a :: len word) k \<longleftrightarrow>
     k < LENGTH('a) \<and> k div 8 < length bs \<and> bit (bs ! (k div 8)) (k mod 8)"
proof (induction bs arbitrary: k)
  case Nil
  then show ?case by simp
next
  case (Cons b bs)
  show ?case
  proof (cases "k < 8")
    case True
    then show ?thesis
      by (simp add: bit_or_iff bit_push_bit_iff bit_unsigned_iff)
  next
    case False
    then have k: "k div 8 = Suc ((k - 8) div 8)" "k mod 8 = (k - 8) mod 8"
      by (simp_all add: le_div_geq le_mod_geq)
    moreover have "\<not> bit b k"
      using False bit_imp_le_length by fastforce
    ultimately show ?thesis
      using False by (simp only: le_word.simps bit_or_iff bit_push_bit_iff bit_unsigned_iff Cons.IH k)
        (auto dest: bit_imp_le_length)
  qed
qed

lemma nth_le_bytes: "i < n \<Longrightarrow> le_bytes n w ! i = ucast (drop_bit (8 * i) w)"
  by (simp add: le_bytes_def)

lemma bit_nth_le_bytes:
  "i < n \<Longrightarrow> bit (le_bytes n (w :: 'a :: len word) ! i) j \<longleftrightarrow> j < 8 \<and> bit w (8 * i + j)"
  by (simp add: nth_le_bytes bit_unsigned_iff bit_drop_bit_eq)

lemma le_word_le_bytes [simp]:
  assumes "LENGTH('a) = 8 * n"
  shows "le_word (le_bytes n w) = (w :: 'a :: len word)"
proof (rule bit_eqI)
  fix k
  assume "possible_bit TYPE('a word) k"
  then have k: "k < 8 * n" using assms by simp
  then have "k div 8 < n" by (simp add: less_mult_imp_div_less mult.commute)
  then show "bit (le_word (le_bytes n w) :: 'a word) k = bit w k"
    using k assms by (simp add: bit_le_word bit_nth_le_bytes)
qed

lemma le_bytes_le_word:
  assumes "LENGTH('a) = 8 * length bs"
  shows "le_bytes (length bs) (le_word bs :: 'a :: len word) = bs"
proof (rule nth_equalityI)
  fix i
  assume "i < length (le_bytes (length bs) (le_word bs :: 'a word))"
  then have i: "i < length bs" by simp
  show "le_bytes (length bs) (le_word bs :: 'a word) ! i = bs ! i"
  proof (rule bit_eqI)
    fix j
    assume "possible_bit TYPE(u8) j"
    then have j: "j < 8" by simp
    then have "8 * i + j < 8 * length bs" "(8 * i + j) div 8 = i" "(8 * i + j) mod 8 = j"
      using i by simp_all
    then show "bit (le_bytes (length bs) (le_word bs :: 'a word) ! i) j = bit (bs ! i) j"
      using i j assms by (simp add: bit_nth_le_bytes bit_le_word)
  qed
qed simp

lemma le_bytes_inject:
  assumes "LENGTH('a) = 8 * n"
  shows "le_bytes n v = le_bytes n w \<longleftrightarrow> v = (w :: 'a :: len word)"
  by (metis le_word_le_bytes [OF assms])

lemma bswap16_alt: "bswap16 v = le_word (rev (le_bytes 2 v))"
proof (rule bit_eqI)
  fix k
  assume "possible_bit TYPE(16 word) k"
  then have k: "k < 16" by simp
  show "bit (bswap16 v) k = bit (le_word (rev (le_bytes 2 v)) :: 16 word) k"
  proof (cases "k < 8")
    case True
    then show ?thesis
      by (auto simp: bswap16_def bit_le_word rev_nth bit_nth_le_bytes bit_simps)
  next
    case False
    with k have "k div 8 = 1" "k mod 8 = k - 8" by presburger+
    with False k show ?thesis
      by (auto simp: bswap16_def bit_le_word rev_nth bit_nth_le_bytes bit_simps
          dest: bit_imp_le_length)
  qed
qed

lemma le_bytes_bswap:
  "le_bytes 2 (bswap16 a) = rev (le_bytes 2 a)"
  "le_bytes 4 (bswap32 b) = rev (le_bytes 4 b)"
  "le_bytes 8 (bswap64 c) = rev (le_bytes 8 c)"
  using le_bytes_le_word [where 'a = 16, of "rev (le_bytes 2 a)"]
    le_bytes_le_word [where 'a = 32, of "rev (le_bytes 4 b)"]
    le_bytes_le_word [where 'a = 64, of "rev (le_bytes 8 c)"]
  by (simp_all add: bswap16_alt bswap32_def bswap64_def)

lemma bswap_involution [simp]:
  "bswap16 (bswap16 a) = a" "bswap32 (bswap32 b) = b" "bswap64 (bswap64 c) = c"
  by (simp_all add: bswap16_alt [of "bswap16 a"] bswap32_def [of "bswap32 b"]
      bswap64_def [of "bswap64 c"] le_bytes_bswap)

lemma store_word_to_le [layout_simps]:
  "store_word le 2 (to_le16 le a) = le_bytes 2 a"
  "store_word le 4 (to_le32 le b) = le_bytes 4 b"
  "store_word le 8 (to_le64 le c) = le_bytes 8 c"
  "store_word le (Suc 0) d = le_bytes (Suc 0) d"
proof -
  show "store_word le (Suc 0) d = le_bytes (Suc 0) d"
    by (simp add: store_word_def le_bytes_def)
qed (simp_all add: store_word_def to_le16_def to_le32_def to_le64_def le_bytes_bswap)

lemma bswap_le_word:
  "length bs = 2 \<Longrightarrow> bswap16 (le_word (rev bs)) = le_word bs"
  "length bs = 4 \<Longrightarrow> bswap32 (le_word (rev bs)) = le_word bs"
  "length bs = 8 \<Longrightarrow> bswap64 (le_word (rev bs)) = le_word bs"
  using le_bytes_le_word [where 'a = 16, of "rev bs"] le_bytes_le_word [where 'a = 32, of "rev bs"]
    le_bytes_le_word [where 'a = 64, of "rev bs"]
  by (simp_all add: bswap16_alt bswap32_def bswap64_def)

lemma to_le_load_word [layout_simps]:
  "off + 2 \<le> length bs \<Longrightarrow> to_le16 le (load_word le off 2 bs) = load_word True off 2 bs"
  "off + 4 \<le> length bs \<Longrightarrow> to_le32 le (load_word le off 4 bs) = load_word True off 4 bs"
  "off + 8 \<le> length bs \<Longrightarrow> to_le64 le (load_word le off 8 bs) = load_word True off 8 bs"
  by (simp_all add: load_word_def to_le16_def to_le32_def to_le64_def bswap_le_word Let_def)

lemma load_word_byte:
  "off + 1 \<le> length bs \<Longrightarrow> load_word le off (Suc 0) bs = (load_word True off (Suc 0) bs :: u8)"
  by (cases "drop off bs") (simp_all add: load_word_def Let_def)

lemma load_word_skip [layout_simps]:
  "k \<le> off \<Longrightarrow> load_word True off n (le_bytes k w @ bs) = load_word True (off - k) n bs"
  by (simp add: load_word_def)

lemma load_word_hit [layout_simps]:
  "LENGTH('a) = 8 * n \<Longrightarrow> load_word True 0 n (le_bytes n (w :: 'a :: len word) @ bs) = w"
  "LENGTH('a) = 8 * n \<Longrightarrow> load_word True 0 n (le_bytes n (w :: 'a :: len word)) = w"
  by (simp_all add: load_word_def)

section \<open>Encoding and decoding\<close>

lemma encode_request_wire: "encode_request le r = wire_request r"
proof (cases le)
  case True
  then show ?thesis
    by (simp add: encode_request_def request_object_def wire_request_def store_word_def)
next
  case False
  then show ?thesis
    by (simp add: encode_request_def request_object_def wire_request_def
        swap_endianness_request_def layout_simps)
qed

lemma object_request_wire: "object_request True (wire_request r) = r"
  by (simp add: object_request_def wire_request_def layout_simps)

lemma decode_request_alt:
  "length bs = 64 \<Longrightarrow> decode_request le bs out =
     (rq_magic_version (object_request True bs) = kMagicVersion, object_request True bs)"
  by (cases le) (simp_all add: decode_request_def kWireMsgSize_def swap_endianness_request_def
      object_request_def layout_simps load_word_byte [where le = False])

lemma encode_decision_wire: "encode_decision le r = wire_decision r"
proof (cases le)
  case True
  then show ?thesis
    by (simp add: encode_decision_def decision_object_def wire_decision_def store_word_def)
next
  case False
  then show ?thesis
    by (simp add: encode_decision_def decision_object_def wire_decision_def
        swap_endianness_decision_def layout_simps)
qed

lemma object_decision_wire: "object_decision True (wire_decision r) = r"
  by (simp add: object_decision_def wire_decision_def layout_simps)

lemma decode_decision_alt:
  "length bs = 64 \<Longrightarrow> decode_decision le bs out =
     (d_magic_version (object_decision True bs) = kMagicVersion, object_decision True bs)"
  by (cases le) (simp_all add: decode_decision_def kWireMsgSize_def swap_endianness_decision_def
      object_decision_def layout_simps load_word_byte [where le = False])


lemma le_bytes_load_word:
  "LENGTH('a) = 8 * n \<Longrightarrow> off + n \<le> length bs \<Longrightarrow>
     le_bytes n (load_word True off n bs :: 'a :: len word) = take n (drop off bs)"
  using le_bytes_le_word [where 'a = 'a, of "take n (drop off bs)"]
  by (simp add: load_word_def)

lemma take_drop_join: "m = off + n \<Longrightarrow> take n (drop off bs) @ drop m bs = drop off bs"
  by (metis add.commute append_take_drop_id drop_drop)

lemma wire_object_request:
  assumes "length bs = 64"
  shows "wire_request (object_request True bs) = bs"
proof -
  have "take 4 (drop 60 bs) = drop 60 bs" using assms by simp
  then show ?thesis
    using take_drop_join [of 4 0 4 bs] assms
    by (simp add: wire_request_def object_request_def le_bytes_load_word take_drop_join)
qed

lemma wire_object_decision:
  assumes "length bs = 64"
  shows "wire_decision (object_decision True bs) = bs"
proof -
  have "take 8 (drop 56 bs) = drop 56 bs" using assms by simp
  then show ?thesis
    using take_drop_join [of 4 0 4 bs] assms
    by (simp add: wire_decision_def object_decision_def le_bytes_load_word take_drop_join)
qed

lemma length_wire [simp]: "length (wire_request r) = 64" "length (wire_decision d) = 64"
  by (simp_all add: wire_request_def wire_decision_def)

text \<open>
  C6: a request encoded by a host of either byte order and decoded by a host of either byte order
  comes back field for field, and is accepted exactly when its magic and version are this build's.
\<close>

theorem request_round_trip:
  "decode_request h2 (encode_request h1 m) out = (rq_magic_version m = kMagicVersion, m)"
  by (simp add: encode_request_wire decode_request_alt object_request_wire)

text \<open>
  C24: the same for decisions: no field of a decision depends on the byte order of either end.
\<close>

theorem decision_round_trip:
  "decode_decision h2 (encode_decision h1 m) out = (d_magic_version m = kMagicVersion, m)"
  by (simp add: encode_decision_wire decode_decision_alt object_decision_wire)

text \<open>
  a 64-byte datagram is never reinterpreted: decoding it (whatever its magic) and encoding the
  message again gives the same bytes, so no byte of a datagram is outside every field.
\<close>

theorem datagram_round_trip:
  assumes "length bs = kWireMsgSize"
  shows "encode_request h1 (snd (decode_request h2 bs out)) = bs \<and>
         encode_decision h1 (snd (decode_decision h2 bs out')) = bs"
  using assms by (simp add: kWireMsgSize_def encode_request_wire decode_request_alt wire_object_request
      encode_decision_wire decode_decision_alt wire_object_decision)

theorem datagram_round_trip_witness:
  "encode_request True (snd (decode_request False (replicate 64 7) zero_request)) = replicate 64 7 \<and>
   encode_decision True (snd (decode_decision False (replicate 64 7) zero_decision)) = replicate 64 7"
  by (rule datagram_round_trip) (simp add: kWireMsgSize_def)

text \<open>
  C25: the receive path accepts a datagram exactly when it has 64 bytes and starts with the magic
  and version bytes in little-endian order, on every host.
\<close>

theorem decode_accepts_iff:
  "fst (decode_request h bs out) \<longleftrightarrow>
     length bs = kWireMsgSize \<and> take 4 bs = le_bytes 4 kMagicVersion"
proof (cases "length bs = 64")
  case True
  have "take 4 bs = le_bytes 4 (load_word True 0 4 bs :: u32)"
    using True le_bytes_load_word [where 'a = 32, of 4 0 bs] by simp
  moreover have "rq_magic_version (object_request True bs) = load_word True 0 4 bs"
    by (simp add: object_request_def)
  ultimately show ?thesis
    using True by (simp only: kWireMsgSize_def decode_request_alt fst_conv)
      (simp add: le_bytes_inject [where 'a = 32 and n = 4])
qed (simp add: decode_request_def kWireMsgSize_def)

end
