(* ===== verification/Probing.thy ===== *)
theory Probing
  imports Prelude
begin

text \<open>
  Linear probing over a power-of-two table of 64-bit keys with 0 as the empty sentinel: what the
  subscriber table and the flat sets share. A table is seen as the list of its keys; the home slot
  of a key is its hash under the mask, and a probe visits the slots from there on, round the table.
\<close>

unbundle bit_operations_syntax

section \<open>The probe sequence\<close>

definition next_slot :: "u64 \<Rightarrow> u64 \<Rightarrow> u64" where
  "next_slot m i = (i + 1) AND m"

definition slot_at :: "nat \<Rightarrow> u64 \<Rightarrow> nat \<Rightarrow> nat" where
  "slot_at k h n = (unat h + n) mod 2 ^ k"

text \<open>
  A probe for key \<^term>\<open>x\<close> with hash \<^term>\<open>h\<close> stops after \<^term>\<open>d\<close> steps: no slot on the way holds the key
  or is empty, and the slot it stops at does or is.
\<close>

definition stops_at :: "nat \<Rightarrow> u64 list \<Rightarrow> u64 \<Rightarrow> u64 \<Rightarrow> nat \<Rightarrow> bool" where
  "stops_at k ks h x d \<longleftrightarrow>
     (\<forall>n < d. ks ! slot_at k h n \<noteq> 0 \<and> ks ! slot_at k h n \<noteq> x) \<and>
     (ks ! slot_at k h d = 0 \<or> ks ! slot_at k h d = x)"

text \<open>
  The table is well formed: the probe for a stored key stops at the slot that holds it. This rules
  out duplicates as well as gaps between the home slot of a key and its slot.
\<close>

definition probe_table :: "(u64 \<Rightarrow> u64) \<Rightarrow> nat \<Rightarrow> u64 list \<Rightarrow> bool" where
  "probe_table h k ks \<longleftrightarrow>
     length ks = 2 ^ k \<and>
     (\<forall>i < 2 ^ k. ks ! i \<noteq> 0 \<longrightarrow>
        (\<exists>d. stops_at k ks (h (ks ! i)) (ks ! i) d \<and> slot_at k (h (ks ! i)) d = i))"

definition used_slots :: "u64 list \<Rightarrow> nat" where
  "used_slots ks = length (filter (\<lambda>x. x \<noteq> 0) ks)"

text \<open>
  The sizing loop \<^verbatim>\<open>while (p < n) p <<= 1\<close> of both tables. The shift wraps to 0 past the top bit, after
  which the loop does not end; \<^const>\<open>None\<close> is that case.
\<close>

partial_function (option) pow2_from :: "u64 \<Rightarrow> u64 \<Rightarrow> u64 option" where
  "pow2_from p n = (if p < n then pow2_from (push_bit 1 p) n else Some p)"

section \<open>Sizing\<close>

lemma pow2_from_returns:
  assumes "j \<le> 63" "n \<le> 2 ^ 63"
  shows "\<exists>k. j \<le> k \<and> k \<le> 63 \<and> pow2_from (2 ^ j) n = Some (2 ^ k) \<and> n \<le> 2 ^ k \<and>
             (k = j \<or> 2 ^ (k - 1) < n)"
  using assms
proof (induction "63 - j" arbitrary: j)
  case 0
  then have "j = 63" by simp
  moreover have "\<not> 2 ^ 63 < n" using 0 by (simp only: not_less)
  then have "pow2_from (2 ^ 63) n = Some (2 ^ 63)" by (subst pow2_from.simps) (simp only: if_False)
  ultimately show ?case using 0 by auto
next
  case (Suc d)
  show ?case
  proof (cases "2 ^ j < n")
    case False
    then have "pow2_from (2 ^ j) n = Some (2 ^ j)" by (subst pow2_from.simps) simp
    with False show ?thesis
      using Suc.prems by (intro exI [of _ j]) (simp add: not_less)
  next
    case True
    have "d = 63 - Suc j" "Suc j \<le> 63" using Suc.hyps(2) by simp_all
    then obtain k where "Suc j \<le> k" "k \<le> 63" "pow2_from (2 ^ Suc j) n = Some (2 ^ k)" "n \<le> 2 ^ k"
      "k = Suc j \<or> 2 ^ (k - 1) < n"
      using Suc.hyps(1) [of "Suc j"] Suc.prems(2) by blast
    moreover have "pow2_from (2 ^ j) n = pow2_from (2 ^ Suc j) n"
      using True by (subst pow2_from.simps) (simp add: push_bit_eq_mult mult.commute)
    ultimately show ?thesis
      using True by (intro exI [of _ k]) auto
  qed
qed

lemma pow2_minus_one: "(2 :: u64) ^ k - 1 = mask k"
  by (simp add: mask_eq_exp_minus_1)

lemma unat_pow2:
  assumes "k < 64"
  shows "unat ((2 :: u64) ^ k) = 2 ^ k"
proof -
  have "(2 :: nat) ^ k < 2 ^ 64" using assms by (intro power_strict_increasing) auto
  then have "unat (of_nat (2 ^ k) :: u64) = 2 ^ k" by (simp only: unat_of_nat) simp
  then show ?thesis by simp
qed

section \<open>Probes\<close>

lemma slot_at_less [simp]: "slot_at k h n < 2 ^ k"
  by (simp add: slot_at_def)

lemma unat_next_slot:
  assumes "k < 64"
  shows "unat (next_slot (mask k) i) = (unat i + 1) mod 2 ^ k"
proof -
  have "(unat i + 1) mod 2 ^ 64 mod 2 ^ k = (unat i + 1) mod 2 ^ k"
    using assms by (intro mod_mod_cancel le_imp_power_dvd) simp
  then show ?thesis
    by (simp only: next_slot_def unat_and_mask unat_word_ariths) simp
qed

lemma walk_slot:
  assumes "k < 64"
  shows "unat ((next_slot (mask k) ^^ n) (h AND mask k)) = slot_at k h n"
proof (induction n)
  case 0
  then show ?case by (simp add: slot_at_def unat_and_mask)
next
  case (Suc n)
  then show ?case
    using assms by (simp add: unat_next_slot slot_at_def mod_Suc_eq)
qed

lemma stops_at_unique:
  assumes "stops_at k ks h x d" "stops_at k ks h x e"
  shows "d = e"
  using assms by (cases d e rule: linorder_cases) (auto simp: stops_at_def)

lemma slot_at_surj:
  assumes "i < 2 ^ k"
  shows "\<exists>n < 2 ^ k. slot_at k h n = i"
proof -
  let ?N = "2 ^ k :: nat"
  let ?n = "(i + (?N - unat h mod ?N)) mod ?N"
  have "slot_at k h ?n = (unat h mod ?N + (i + (?N - unat h mod ?N))) mod ?N"
    by (simp add: slot_at_def mod_simps)
  also have "unat h mod ?N + (i + (?N - unat h mod ?N)) = i + ?N"
    using mod_less_divisor [of ?N "unat h"] by (simp del: mod_less_divisor)
  finally have "slot_at k h ?n = i"
    using assms by simp
  then show ?thesis by (intro exI [of _ ?n]) simp
qed

text \<open>With an empty slot in the table every probe stops, after fewer steps than there are slots.\<close>

lemma probe_stops:
  assumes "length ks = 2 ^ k" "used_slots ks < 2 ^ k"
  shows "\<exists>d < 2 ^ k. stops_at k ks h x d"
proof -
  have "\<exists>i < 2 ^ k. ks ! i = 0"
  proof (rule ccontr)
    assume "\<not> ?thesis"
    then have "\<forall>y \<in> set ks. y \<noteq> 0"
      using assms(1) by (metis in_set_conv_nth)
    then have "filter (\<lambda>y. y \<noteq> 0) ks = ks" by (simp add: filter_id_conv)
    then show False using assms by (simp add: used_slots_def)
  qed
  then obtain i where i: "i < 2 ^ k" "ks ! i = 0" by blast
  obtain n where n: "n < 2 ^ k" "ks ! slot_at k h n = 0 \<or> ks ! slot_at k h n = x"
    using slot_at_surj [OF i(1), of h] i(2) by auto
  define d where "d = (LEAST n. ks ! slot_at k h n = 0 \<or> ks ! slot_at k h n = x)"
  have "d \<le> n" unfolding d_def by (rule Least_le) (rule n(2))
  moreover have "stops_at k ks h x d"
    unfolding stops_at_def
  proof (intro conjI allI impI)
    show "ks ! slot_at k h d = 0 \<or> ks ! slot_at k h d = x"
      unfolding d_def by (rule LeastI) (rule n(2))
  next
    fix m
    assume "m < d"
    then show "ks ! slot_at k h m \<noteq> 0" "ks ! slot_at k h m \<noteq> x"
      unfolding d_def using not_less_Least by blast+
  qed
  ultimately show ?thesis using n(1) by (meson le_less_trans)
qed

section \<open>Membership and insertion\<close>

lemma probe_member:
  assumes "probe_table h k ks" "stops_at k ks (h x) x d" "x \<noteq> 0"
  shows "ks ! slot_at k (h x) d = x \<longleftrightarrow> x \<in> set ks"
proof
  assume "ks ! slot_at k (h x) d = x"
  then show "x \<in> set ks"
    using assms(1) by (metis nth_mem probe_table_def slot_at_less)
next
  assume "x \<in> set ks"
  then obtain i where i: "i < 2 ^ k" "ks ! i = x"
    using assms(1) by (metis in_set_conv_nth probe_table_def)
  then obtain e where "stops_at k ks (h x) x e" "slot_at k (h x) e = i"
    using assms(1,3) by (auto simp: probe_table_def)
  then show "ks ! slot_at k (h x) d = x"
    using i stops_at_unique [OF assms(2)] by metis
qed

lemma probe_table_distinct:
  assumes "probe_table h k ks" "i < 2 ^ k" "j < 2 ^ k" "ks ! i = ks ! j" "ks ! i \<noteq> 0"
  shows "i = j"
proof -
  obtain d where d: "stops_at k ks (h (ks ! i)) (ks ! i) d" "slot_at k (h (ks ! i)) d = i"
    using assms(1,2,5) unfolding probe_table_def by blast
  obtain e where e: "stops_at k ks (h (ks ! j)) (ks ! j) e" "slot_at k (h (ks ! j)) e = j"
    using assms(1,3-5) unfolding probe_table_def by metis
  show ?thesis
    by (metis d e assms(4) stops_at_unique)
qed

lemma distinct_filter_nth:
  assumes "\<And>i j. i < length xs \<Longrightarrow> j < length xs \<Longrightarrow> xs ! i = xs ! j \<Longrightarrow> P (xs ! i) \<Longrightarrow> i = j"
  shows "distinct (filter P xs)"
  using assms
proof (induction xs)
  case (Cons x xs)
  have "distinct (filter P xs)"
  proof (rule Cons.IH)
    fix i j
    assume "i < length xs" "j < length xs" "xs ! i = xs ! j" "P (xs ! i)"
    then show "i = j" using Cons.prems [of "Suc i" "Suc j"] by simp
  qed
  moreover have "x \<notin> set xs" if "P x"
  proof
    assume "x \<in> set xs"
    then obtain i where "i < length xs" "xs ! i = x" by (auto simp: in_set_conv_nth)
    then show False using Cons.prems [of 0 "Suc i"] that by simp
  qed
  ultimately show ?case by simp
qed simp

lemma probe_table_live:
  assumes "probe_table h k ks"
  shows "distinct (filter (\<lambda>x. x \<noteq> 0) ks)" "used_slots ks = card (set ks - {0})"
proof -
  show d: "distinct (filter (\<lambda>x. x \<noteq> 0) ks)"
    using assms probe_table_distinct [OF assms]
    by (intro distinct_filter_nth) (auto simp: probe_table_def)
  have "set (filter (\<lambda>x. x \<noteq> 0) ks) = set ks - {0}" by auto
  then show "used_slots ks = card (set ks - {0})"
    using distinct_card [OF d] by (simp add: used_slots_def)
qed

lemma used_slots_fill:
  assumes "j < length ks" "ks ! j = 0" "x \<noteq> 0"
  shows "used_slots (ks[j := x]) = Suc (used_slots ks)"
proof -
  have ks: "ks = take j ks @ 0 # drop (Suc j) ks"
    using assms id_take_nth_drop [of j ks] by simp
  have "used_slots ks = used_slots (take j ks) + used_slots (drop (Suc j) ks)"
    by (subst ks) (simp add: used_slots_def)
  then show ?thesis
    using assms(1,3) by (simp add: upd_conv_take_nth_drop used_slots_def)
qed

lemma set_fill:
  assumes "j < length ks" "ks ! j = 0"
  shows "set (ks[j := x]) - {0} = insert x (set ks - {0}) - {0}"
proof -
  have ks: "ks = take j ks @ 0 # drop (Suc j) ks"
    using assms id_take_nth_drop [of j ks] by simp
  have "set (ks[j := x]) = insert x (set (take j ks) \<union> set (drop (Suc j) ks))"
    using assms(1) by (simp add: upd_conv_take_nth_drop)
  moreover have "set ks = insert 0 (set (take j ks) \<union> set (drop (Suc j) ks))"
    by (subst ks) simp
  ultimately show ?thesis by auto
qed

lemma probe_table_fill:
  assumes "probe_table h k ks" "stops_at k ks (h x) x d" "ks ! slot_at k (h x) d = 0" "x \<noteq> 0"
  shows "probe_table h k (ks[slot_at k (h x) d := x])"
proof -
  let ?j = "slot_at k (h x) d" and ?ks = "ks[slot_at k (h x) d := x]"
  have len: "length ks = 2 ^ k" using assms(1) by (simp add: probe_table_def)
  have nth: "?ks ! i = (if i = ?j then x else ks ! i)" if "i < 2 ^ k" for i
    using that by (simp add: len nth_list_update)
  have "\<exists>e. stops_at k ?ks (h (?ks ! i)) (?ks ! i) e \<and> slot_at k (h (?ks ! i)) e = i"
    if i: "i < 2 ^ k" "?ks ! i \<noteq> 0" for i
  proof (cases "i = ?j")
    case True
    have "slot_at k (h x) n \<noteq> ?j" if "n < d" for n
      using that assms(2,3) by (metis stops_at_def)
    then have "stops_at k ?ks (h x) x d"
      using assms(2) by (simp add: stops_at_def nth)
    then show ?thesis using True by (intro exI [of _ d]) (simp add: nth)
  next
    case False
    then have y: "?ks ! i = ks ! i" "ks ! i \<noteq> 0" using i nth by auto
    then obtain e where e: "stops_at k ks (h (ks ! i)) (ks ! i) e" "slot_at k (h (ks ! i)) e = i"
      using assms(1) i(1) y(2) unfolding probe_table_def by blast
    then have "slot_at k (h (ks ! i)) n \<noteq> ?j" if "n < e" for n
      using that assms(3) by (metis stops_at_def)
    then have "stops_at k ?ks (h (ks ! i)) (ks ! i) e"
      using e False by (simp add: stops_at_def nth)
    then show ?thesis using e y(1) by (intro exI [of _ e]) simp
  qed
  then show ?thesis by (simp add: probe_table_def len)
qed

lemma probe_table_empty: "probe_table h k (replicate (2 ^ k) 0)"
  by (simp add: probe_table_def)

lemma used_slots_replicate [simp]: "used_slots (replicate n 0) = 0"
  by (simp add: used_slots_def)


section \<open>Probe loops\<close>

text \<open>
  Every probe loop of the sources has this shape: it returns at a slot where it stops and goes on to
  the next slot otherwise. It returns at the slot the probe stops at.
\<close>

lemma probe_loop_steps:
  assumes "\<And>i. loop i = (if stop i then Some (res i) else loop (next_slot m i))"
    and "\<And>n. n < d \<Longrightarrow> \<not> stop ((next_slot m ^^ n) i)" "stop ((next_slot m ^^ d) i)"
  shows "loop i = Some (res ((next_slot m ^^ d) i))"
  using assms(2,3)
proof (induction d arbitrary: i)
  case 0
  then show ?case by (subst assms(1)) simp
next
  case (Suc d)
  have "\<not> stop i" using Suc.prems(1) [of 0] by simp
  then have "loop i = loop (next_slot m i)" by (subst assms(1)) simp
  also have "\<dots> = Some (res ((next_slot m ^^ d) (next_slot m i)))"
    using Suc.prems(1) [of "Suc _"] Suc.prems(2) by (intro Suc.IH) (simp_all add: funpow_swap1)
  finally show ?case by (simp add: funpow_swap1)
qed

lemma probe_loop_returns:
  assumes "\<And>i. loop i = (if key i = 0 \<or> key i = x then Some (res i) else loop (next_slot (mask k) i))"
    and "\<And>i. unat i < 2 ^ k \<Longrightarrow> key i = ks ! unat i"
    and "k < 64" "stops_at k ks h x d"
  shows "\<exists>j. unat j = slot_at k h d \<and> loop (h AND mask k) = Some (res j)"
proof (intro exI conjI)
  let ?it = "\<lambda>n. (next_slot (mask k) ^^ n) (h AND mask k)"
  have key: "key (?it n) = ks ! slot_at k h n" for n
    using assms(2) [of "?it n"] by (simp add: walk_slot [OF assms(3)])
  show "unat (?it d) = slot_at k h d" using assms(3) by (rule walk_slot)
  show "loop (h AND mask k) = Some (res (?it d))"
    by (rule probe_loop_steps [where loop = loop, OF assms(1)])
      (use assms(4) in \<open>auto simp: stops_at_def key\<close>)
qed

end
