(* ===== verification/Flat_Set.thy ===== *)
theory Flat_Set
  imports Probing
begin

text \<open>
  The open-addressing set of 64-bit keys of \<^verbatim>\<open>include/policy/flat_set.hpp\<close>, used for the IMEI blocklist
  and the roaming-partner table. A probe loop that never meets its key or an empty slot does not
  return; it is \<^const>\<open>None\<close> here, and the theorems show that it does not happen.
\<close>

unbundle bit_operations_syntax

section \<open>Operations\<close>

record FlatSet64 =
  fs_slots :: "u64 list"
  fs_mask :: u64
  fs_size :: u64

definition empty_FlatSet64 :: FlatSet64 where
  "empty_FlatSet64 = \<lparr> fs_slots = [], fs_mask = 0, fs_size = 0 \<rparr>"

definition fs_hash :: "u64 \<Rightarrow> u64" where
  "fs_hash x0 =
     (let x1 = x0 + 0x9E3779B97F4A7C15;
          x2 = (x1 XOR drop_bit 30 x1) * 0xBF58476D1CE4E5B9;
          x3 = (x2 XOR drop_bit 27 x2) * 0x94D049BB133111EB
      in x3 XOR drop_bit 31 x3)"

partial_function (option) fs_insert_loop :: "FlatSet64 \<Rightarrow> u64 \<Rightarrow> u64 \<Rightarrow> FlatSet64 option" where
  "fs_insert_loop fs key i =
     (if fs_slots fs ! unat i = key then Some fs
      else if fs_slots fs ! unat i = 0
      then Some (fs\<lparr> fs_slots := (fs_slots fs)[unat i := key], fs_size := fs_size fs + 1 \<rparr>)
      else fs_insert_loop fs key ((i + 1) AND fs_mask fs))"

definition fs_insert :: "u64 \<Rightarrow> FlatSet64 \<Rightarrow> FlatSet64 option" where
  "fs_insert key fs =
     (if key = 0 then Some fs else fs_insert_loop fs key (fs_hash key AND fs_mask fs))"

fun fs_insert_all :: "u64 list \<Rightarrow> FlatSet64 \<Rightarrow> FlatSet64 option" where
  "fs_insert_all [] fs = Some fs"
| "fs_insert_all (k # ks) fs = Option.bind (fs_insert k fs) (fs_insert_all ks)"

definition fs_rebuild :: "u64 list \<Rightarrow> FlatSet64 option" where
  "fs_rebuild keys =
     (if keys = [] then Some empty_FlatSet64
      else Option.bind (pow2_from 8 (of_nat (length keys) * 2)) (\<lambda>cap.
        fs_insert_all keys
          \<lparr> fs_slots = replicate (unat cap) 0, fs_mask = cap - 1, fs_size = 0 \<rparr>))"

partial_function (option) fs_contains_loop :: "FlatSet64 \<Rightarrow> u64 \<Rightarrow> u64 \<Rightarrow> bool option" where
  "fs_contains_loop fs key i =
     (let s = fs_slots fs ! unat i in
      if s = key then Some True
      else if s = 0 then Some False
      else fs_contains_loop fs key ((i + 1) AND fs_mask fs))"

definition fs_contains :: "FlatSet64 \<Rightarrow> u64 \<Rightarrow> bool option" where
  "fs_contains fs key =
     (if fs_slots fs = [] \<or> key = 0 then Some False
      else fs_contains_loop fs key (fs_hash key AND fs_mask fs))"

definition fs_empty :: "FlatSet64 \<Rightarrow> bool" where "fs_empty fs \<longleftrightarrow> fs_size fs = 0"
definition fs_capacity :: "FlatSet64 \<Rightarrow> nat" where "fs_capacity fs = length (fs_slots fs)"
definition fs_memory_bytes :: "FlatSet64 \<Rightarrow> nat" where "fs_memory_bytes fs = length (fs_slots fs) * 8"

text \<open>The keys \<^verbatim>\<open>for_each\<close> visits, in slot order.\<close>

definition fs_for_each :: "FlatSet64 \<Rightarrow> u64 list" where
  "fs_for_each fs = filter (\<lambda>s. s \<noteq> 0) (fs_slots fs)"

section \<open>Well-formedness\<close>

definition fs_table :: "nat \<Rightarrow> FlatSet64 \<Rightarrow> bool" where
  "fs_table k fs \<longleftrightarrow>
     k < 64 \<and> probe_table fs_hash k (fs_slots fs) \<and> fs_mask fs = mask k \<and>
     unat (fs_size fs) = used_slots (fs_slots fs)"

definition fs_keys :: "FlatSet64 \<Rightarrow> u64 set" where
  "fs_keys fs = set (fs_slots fs) - {0}"

lemma fs_insert_returns:
  assumes "fs_table k fs" "stops_at k (fs_slots fs) (fs_hash x) x d" "x \<noteq> 0"
  shows "fs_insert x fs =
    (let j = slot_at k (fs_hash x) d in
     if fs_slots fs ! j = x then Some fs
     else Some (fs\<lparr> fs_slots := (fs_slots fs)[j := x], fs_size := fs_size fs + 1 \<rparr>))"
proof -
  let ?res = "\<lambda>i :: u64. if fs_slots fs ! unat i = x then fs
     else fs\<lparr> fs_slots := (fs_slots fs)[unat i := x], fs_size := fs_size fs + 1 \<rparr>"
  have eq: "fs_insert_loop fs x i =
      (if fs_slots fs ! unat i = 0 \<or> fs_slots fs ! unat i = x then Some (?res i)
       else fs_insert_loop fs x (next_slot (mask k) i))" for i
    using assms(1) by (subst fs_insert_loop.simps) (auto simp: next_slot_def fs_table_def)
  have k: "k < 64" using assms(1) by (simp add: fs_table_def)
  obtain j where "unat j = slot_at k (fs_hash x) d"
    "fs_insert_loop fs x (fs_hash x AND mask k) = Some (?res j)"
    using probe_loop_returns [where loop = "fs_insert_loop fs x" and res = ?res, OF eq _ k assms(2)]
    by blast
  then show ?thesis
    using assms(1,3) by (simp add: fs_insert_def fs_table_def Let_def)
qed

lemma fs_contains_returns:
  assumes "fs_table k fs" "stops_at k (fs_slots fs) (fs_hash x) x d" "x \<noteq> 0"
  shows "fs_contains fs x = Some (fs_slots fs ! slot_at k (fs_hash x) d = x)"
proof -
  have "fs_contains_loop fs x i =
      (if fs_slots fs ! unat i = 0 \<or> fs_slots fs ! unat i = x then Some (fs_slots fs ! unat i = x)
       else fs_contains_loop fs x (next_slot (mask k) i))" for i
    using assms(1) by (subst fs_contains_loop.simps) (auto simp: next_slot_def fs_table_def Let_def)
  from probe_loop_returns [where loop = "fs_contains_loop fs x", OF this _ _ assms(2)]
  have "fs_contains_loop fs x (fs_hash x AND mask k) = Some (fs_slots fs ! slot_at k (fs_hash x) d = x)"
    using assms(1) by (auto simp: fs_table_def)
  then show ?thesis
    using assms(1,3) by (auto simp: fs_contains_def fs_table_def probe_table_def)
qed

lemma fs_insert_table:
  assumes "fs_table k fs" "used_slots (fs_slots fs) < 2 ^ k"
  shows "\<exists>fs'. fs_insert x fs = Some fs' \<and> fs_table k fs' \<and>
            fs_keys fs' = insert x (fs_keys fs) - {0} \<and>
            used_slots (fs_slots fs') \<le> Suc (used_slots (fs_slots fs))"
proof (cases "x = 0")
  case True
  then show ?thesis using assms by (simp add: fs_insert_def fs_keys_def)
next
  case False
  let ?ks = "fs_slots fs"
  have tab: "probe_table fs_hash k ?ks" "length ?ks = 2 ^ k" "k < 64"
    using assms(1) by (simp_all add: fs_table_def probe_table_def)
  obtain d where d: "stops_at k ?ks (fs_hash x) x d"
    using probe_stops [OF tab(2) assms(2)] by blast
  let ?j = "slot_at k (fs_hash x) d"
  note ins = fs_insert_returns [OF assms(1) d False]
  show ?thesis
  proof (cases "?ks ! ?j = x")
    case True
    then have "x \<in> set ?ks" using tab(2) by (metis nth_mem slot_at_less)
    with True False show ?thesis
      using assms(1) ins by (auto simp: fs_keys_def)
  next
    case neq: False
    then have zero: "?ks ! ?j = 0" using d by (auto simp: stops_at_def)
    have j: "?j < length ?ks" by (simp add: tab(2))
    have used: "used_slots (?ks[?j := x]) = Suc (used_slots ?ks)"
      using j zero False by (rule used_slots_fill)
    have "(2 :: nat) ^ k \<le> 2 ^ 63" using tab(3) by (intro power_increasing) auto
    then have "used_slots ?ks < 2 ^ 63" using assms(2) by simp
    then have "unat (fs_size fs + 1) = Suc (used_slots ?ks)"
      using assms(1) by (simp add: fs_table_def unat_word_ariths)
    then show ?thesis
      using neq zero ins used assms(1) probe_table_fill [OF tab(1) d zero False] set_fill [OF j zero, of x]
      by (simp add: fs_table_def fs_keys_def Let_def)
  qed
qed


lemma fs_insert_all_table:
  assumes "fs_table k fs" "used_slots (fs_slots fs) + length xs < 2 ^ k"
  shows "\<exists>fs'. fs_insert_all xs fs = Some fs' \<and> fs_table k fs' \<and>
            fs_keys fs' = (fs_keys fs \<union> set xs) - {0} \<and>
            used_slots (fs_slots fs') \<le> used_slots (fs_slots fs) + length xs"
  using assms
proof (induction xs arbitrary: fs)
  case Nil
  then show ?case by (simp add: fs_keys_def)
next
  case (Cons x xs)
  obtain fs1 where fs1: "fs_insert x fs = Some fs1" "fs_table k fs1"
    "fs_keys fs1 = insert x (fs_keys fs) - {0}"
    "used_slots (fs_slots fs1) \<le> Suc (used_slots (fs_slots fs))"
    using fs_insert_table [OF Cons.prems(1), of x] Cons.prems(2) by auto
  then obtain fs2 where "fs_insert_all xs fs1 = Some fs2" "fs_table k fs2"
    "fs_keys fs2 = (fs_keys fs1 \<union> set xs) - {0}"
    "used_slots (fs_slots fs2) \<le> used_slots (fs_slots fs1) + length xs"
    using Cons.IH [of fs1] Cons.prems(2) by auto
  with fs1 show ?case by auto
qed

lemma fs_rebuild_table:
  assumes "xs \<noteq> []" "length xs \<le> 2 ^ 62"
  shows "\<exists>fs k. fs_rebuild xs = Some fs \<and> fs_table k fs \<and> fs_keys fs = set xs - {0} \<and>
              2 * used_slots (fs_slots fs) \<le> 2 ^ k \<and> fs_capacity fs = 2 ^ k"
proof -
  have n: "unat (of_nat (length xs) * 2 :: u64) = 2 * length xs"
    using assms(2) by (simp add: unat_word_ariths unat_of_nat)
  then have "(of_nat (length xs) * 2 :: u64) \<le> 2 ^ 63"
    using assms(2) by (simp add: word_le_nat_alt)
  then obtain k where k: "3 \<le> k" "k \<le> 63" "pow2_from 8 (of_nat (length xs) * 2) = Some (2 ^ k)"
    "(of_nat (length xs) * 2 :: u64) \<le> 2 ^ k"
    using pow2_from_returns [of 3] by auto
  define fs0 where "fs0 = \<lparr> fs_slots = replicate (2 ^ k) 0, fs_mask = mask k, fs_size = (0 :: u64) \<rparr>"
  have le: "2 * length xs \<le> 2 ^ k"
    using k(2,4) n by (simp add: word_le_nat_alt unat_pow2)
  have "fs_table k fs0" "fs_keys fs0 = {}" "used_slots (fs_slots fs0) = 0"
    using k(2) by (auto simp: fs0_def fs_table_def fs_keys_def probe_table_empty)
  moreover have "used_slots (fs_slots fs0) + length xs < 2 ^ k"
    using le assms(1) calculation(3) by (cases xs) auto
  ultimately obtain fs where fs: "fs_insert_all xs fs0 = Some fs" "fs_table k fs"
    "fs_keys fs = set xs - {0}" "used_slots (fs_slots fs) \<le> length xs"
    using fs_insert_all_table [of k fs0 xs] by auto
  have "fs_rebuild xs = Some fs"
    using assms(1) k(2,3) fs(1) by (simp add: fs_rebuild_def fs0_def unat_pow2 pow2_minus_one)
  moreover have "2 * used_slots (fs_slots fs) \<le> 2 ^ k" using fs(4) le by linarith
  moreover have "fs_capacity fs = 2 ^ k"
    using fs(2) by (simp add: fs_capacity_def fs_table_def probe_table_def)
  ultimately show ?thesis using fs(2,3) by blast
qed

lemma fs_contains_table:
  assumes "fs_table k fs" "used_slots (fs_slots fs) < 2 ^ k"
  shows "fs_contains fs x = Some (x \<in> fs_keys fs)"
proof (cases "x = 0")
  case True
  then show ?thesis by (simp add: fs_contains_def fs_keys_def)
next
  case False
  have tab: "probe_table fs_hash k (fs_slots fs)" "length (fs_slots fs) = 2 ^ k"
    using assms(1) by (simp_all add: fs_table_def probe_table_def)
  obtain d where d: "stops_at k (fs_slots fs) (fs_hash x) x d"
    using probe_stops [OF tab(2) assms(2)] by blast
  then show ?thesis
    using False fs_contains_returns [OF assms(1) d False] probe_member [OF tab(1) d False]
    by (simp add: fs_keys_def)
qed


lemma fs_rebuild_contains:
  assumes "length keys \<le> 2 ^ 62"
  shows "\<exists>fs. fs_rebuild keys = Some fs \<and> (\<forall>x. fs_contains fs x = Some (x \<in> set keys - {0}))"
proof (cases "keys = []")
  case True
  then show ?thesis by (simp add: fs_rebuild_def empty_FlatSet64_def fs_contains_def)
next
  case False
  then obtain fs k where fs: "fs_rebuild keys = Some fs" "fs_table k fs" "fs_keys fs = set keys - {0}"
    "2 * used_slots (fs_slots fs) \<le> 2 ^ k"
    using fs_rebuild_table assms by blast
  have "0 < (2 :: nat) ^ k" by simp
  then have "used_slots (fs_slots fs) < 2 ^ k" using fs(4) by linarith
  then show ?thesis
    using fs(1,3) fs_contains_table [OF fs(2)] by (intro exI [of _ fs]) simp
qed

text \<open>
  C14: a set built from any key list answers membership exactly: rebuild and contains return (no
  probe runs for ever), a key is found iff it was in the list and is not the sentinel 0,
  for_each visits each key once, size counts them, and the load factor is at most one half.
\<close>

theorem flat_set_correct:
  assumes "length keys \<le> 2 ^ 62"
  shows "\<exists>fs. fs_rebuild keys = Some fs \<and>
           (\<forall>x. fs_contains fs x = Some (x \<in> set keys - {0})) \<and>
           distinct (fs_for_each fs) \<and> set (fs_for_each fs) = set keys - {0} \<and>
           unat (fs_size fs) = card (set keys - {0}) \<and> 2 * unat (fs_size fs) \<le> fs_capacity fs"
proof (cases "keys = []")
  case True
  then show ?thesis
    by (simp add: fs_rebuild_def empty_FlatSet64_def fs_contains_def fs_for_each_def)
next
  case False
  then obtain fs k where fs: "fs_rebuild keys = Some fs" "fs_table k fs" "fs_keys fs = set keys - {0}"
    "2 * used_slots (fs_slots fs) \<le> 2 ^ k" "fs_capacity fs = 2 ^ k"
    using fs_rebuild_table assms by blast
  have "probe_table fs_hash k (fs_slots fs)" "unat (fs_size fs) = used_slots (fs_slots fs)"
    using fs(2) by (simp_all add: fs_table_def)
  moreover have "set (fs_for_each fs) = set keys - {0}"
    unfolding fs(3) [symmetric] by (auto simp: fs_for_each_def fs_keys_def)
  moreover have "\<forall>x. fs_contains fs x = Some (x \<in> set keys - {0})"
    using fs_rebuild_contains [OF assms] fs(1) by auto
  ultimately show ?thesis
    using fs(1,4,5) fs(3) [unfolded fs_keys_def] probe_table_live [of fs_hash k "fs_slots fs"]
    by (intro exI [of _ fs]) (simp add: fs_for_each_def)
qed

theorem flat_set_correct_witness:
  "\<exists>fs. fs_rebuild [7, 0, 9, 7] = Some fs \<and> fs_contains fs 9 = Some True \<and>
        fs_contains fs 0 = Some False \<and> unat (fs_size fs) = 2"
proof -
  have "set [7, 0, 9, 7 :: u64] - {0} = {7, 9}" by auto
  moreover have "card {7, 9 :: u64} = 2" by simp
  ultimately show ?thesis
    using flat_set_correct [of "[7, 0, 9, 7]"] by auto
qed

section \<open>The interface\<close>

text \<open>
  What the clients rely on: the blocklist and partner tables are rebuilt from a key list after every
  edit, and only membership is asked.
\<close>

locale key_set =
  fixes build :: "'k list \<Rightarrow> 's option"
    and contains :: "'s \<Rightarrow> 'k \<Rightarrow> bool option"
    and fits :: "'k list \<Rightarrow> bool"
    and absent :: 'k
  assumes build_returns: "fits ks \<Longrightarrow> \<exists>s. build ks = Some s"
    and contains_build: "fits ks \<Longrightarrow> build ks = Some s \<Longrightarrow> contains s x = Some (x \<in> set ks \<and> x \<noteq> absent)"
begin

lemma contains_cong:
  assumes "fits ks" "fits ls" "set ks = set ls" "build ks = Some s" "build ls = Some t"
  shows "contains s x = contains t x"
  using assms by (simp add: contains_build)

lemma contains_added:
  assumes "fits ks" "fits (ks @ [y])" "build ks = Some s" "build (ks @ [y]) = Some t"
  shows "contains t x = map_option (\<lambda>b. b \<or> (x = y \<and> y \<noteq> absent)) (contains s x)"
  using assms by (auto simp: contains_build)

lemma contains_removed:
  assumes "fits ks" "fits (filter (\<lambda>z. z \<noteq> y) ks)" "build ks = Some s"
    and "build (filter (\<lambda>z. z \<noteq> y) ks) = Some t"
  shows "contains t x = map_option (\<lambda>b. b \<and> x \<noteq> y) (contains s x)"
  using assms by (auto simp: contains_build)

end

interpretation flat: key_set fs_rebuild fs_contains "\<lambda>ks. length ks \<le> 2 ^ 62" 0
proof unfold_locales
  fix ks :: "u64 list" and s x
  assume ks: "length ks \<le> 2 ^ 62"
  then show "\<exists>s. fs_rebuild ks = Some s"
    using fs_rebuild_contains by blast
  assume "fs_rebuild ks = Some s"
  then show "fs_contains s x = Some (x \<in> set ks \<and> x \<noteq> 0)"
    using fs_rebuild_contains [OF ks] by auto
qed

end
