(* ===== verification/Rule_Set.thy ===== *)
theory Rule_Set
  imports Wire Flat_Set
begin

text \<open>
  The compiled rule representation of \<^verbatim>\<open>include/policy/rules.hpp\<close>: the feature-bit layout, actions, compiled
  rules, plans, time windows and the immutable rule set. The fixed arrays with a count beside them
  (plans, windows, thresholds) are lists whose length is the count.
\<close>

unbundle bit_operations_syntax

section \<open>Limits and feature bits\<close>

definition kMaxPlans :: nat where "kMaxPlans = 32"
definition kMaxDnns :: nat where "kMaxDnns = 16"
definition kMaxTimeWindows :: nat where "kMaxTimeWindows = 8"
definition kMaxUsageThresholds :: nat where "kMaxUsageThresholds = 8"
definition kMaxRedirects :: nat where "kMaxRedirects = 16"
definition kMaxRules :: nat where "kMaxRules = 4096"

type_synonym FeatureWord = u64

definition kRatBase :: nat where "kRatBase = 0"
definition kRatBits :: nat where "kRatBits = 8"
definition kDnnBase :: nat where "kDnnBase = 8"
definition kDnnBits :: nat where "kDnnBits = 16"
definition kStatusActive :: nat where "kStatusActive = 24"
definition kStatusSuspended :: nat where "kStatusSuspended = 25"
definition kStatusBarred :: nat where "kStatusBarred = 26"
definition kStatusUnknown :: nat where "kStatusUnknown = 27"
definition kHomePlmn :: nat where "kHomePlmn = 28"
definition kRoaming :: nat where "kRoaming = 29"
definition kRoamingPartner :: nat where "kRoamingPartner = 30"
definition kRoamingAllowed :: nat where "kRoamingAllowed = 31"
definition kImeiKnown :: nat where "kImeiKnown = 32"
definition kImeiBlocked :: nat where "kImeiBlocked = 33"
definition kTetheringDetected :: nat where "kTetheringDetected = 34"
definition kTetheringAllowed :: nat where "kTetheringAllowed = 35"
definition kEmergency :: nat where "kEmergency = 36"
definition kQuotaExhausted :: nat where "kQuotaExhausted = 37"
definition kPeriodExpired :: nat where "kPeriodExpired = 38"
definition kRequestedGbr :: nat where "kRequestedGbr = 39"
definition kTimeWindowBase :: nat where "kTimeWindowBase = 40"
definition kUsageThresholdBase :: nat where "kUsageThresholdBase = 48"

lemmas feat_defs =
  kRatBase_def kRatBits_def kDnnBase_def kDnnBits_def
  kStatusActive_def kStatusSuspended_def kStatusBarred_def kStatusUnknown_def
  kHomePlmn_def kRoaming_def kRoamingPartner_def kRoamingAllowed_def
  kImeiKnown_def kImeiBlocked_def kTetheringDetected_def kTetheringAllowed_def
  kEmergency_def kQuotaExhausted_def kPeriodExpired_def kRequestedGbr_def
  kTimeWindowBase_def kUsageThresholdBase_def

definition feat_bit :: "nat \<Rightarrow> FeatureWord" where
  "feat_bit b = push_bit b 1"

lemma bit_feat_bit [mask_simps]: "bit (feat_bit k) b \<longleftrightarrow> b = k \<and> k < 64"
  by (simp add: feat_bit_def bit_push_bit_one_iff del: push_bit_of_1)

section \<open>Actions, rules and plans\<close>

definition kInheritQos :: u8 where "kInheritQos = push_bit 0 1"
definition kInheritAmbr :: u8 where "kInheritAmbr = push_bit 1 1"
definition kInheritQuota :: u8 where "kInheritQuota = push_bit 2 1"
definition kInheritRatingGroup :: u8 where "kInheritRatingGroup = push_bit 3 1"
definition kInheritAll :: u8 where "kInheritAll = 0x0F"

record Action =
  a_quota_bytes :: u64
  a_ambr_ul_kbps :: u32
  a_ambr_dl_kbps :: u32
  a_rating_group :: u32
  a_quota_validity_s :: u32
  a_verdict :: u8
  a_reason :: u8
  a_qos_5qi :: u8
  a_arp :: u8
  a_set_flags :: u8
  a_redirect_id :: u8
  a_inherit_mask :: u8

definition zero_action :: Action where
  "zero_action = \<lparr> a_quota_bytes = 0, a_ambr_ul_kbps = 0, a_ambr_dl_kbps = 0, a_rating_group = 0,
     a_quota_validity_s = 0, a_verdict = 0, a_reason = 0, a_qos_5qi = 0, a_arp = 0, a_set_flags = 0,
     a_redirect_id = 0, a_inherit_mask = 0 \<rparr>"

record CompiledRule =
  r_match_mask :: u64
  r_match_value :: u64
  r_plan_mask :: u32
  r_id :: u32
  r_priority :: u32
  r_action :: Action

definition kPlanTetheringAllowed :: u16 where "kPlanTetheringAllowed = push_bit 0 1"
definition kPlanRoamingAllowed :: u16 where "kPlanRoamingAllowed = push_bit 1 1"

record PlanConfig =
  p_quota_bytes :: u64
  p_quota_validity_s :: u32
  p_rating_group :: u32
  p_ambr_ul_kbps :: u32
  p_ambr_dl_kbps :: u32
  p_id :: u32
  p_qos_5qi :: u8
  p_arp :: u8
  p_flags :: u16

definition default_plan :: PlanConfig where
  "default_plan = \<lparr> p_quota_bytes = 0, p_quota_validity_s = 0, p_rating_group = 0, p_ambr_ul_kbps = 0,
     p_ambr_dl_kbps = 0, p_id = 0, p_qos_5qi = 9, p_arp = 8, p_flags = 0 \<rparr>"

record TimeWindow =
  start_minute :: u16
  end_minute :: u16

definition tw_contains :: "TimeWindow \<Rightarrow> u16 \<Rightarrow> bool" where
  "tw_contains w m =
     (if start_minute w \<le> end_minute w then m \<ge> start_minute w \<and> m < end_minute w
      else m \<ge> start_minute w \<or> m < end_minute w)"

section \<open>Rule sets\<close>

record RuleSet =
  rs_version :: u32
  rs_rules :: "CompiledRule list"
  rs_plans :: "PlanConfig list"
  rs_time_windows :: "TimeWindow list"
  rs_usage_thresholds_permille :: "u32 list"
  rs_roaming_partners :: FlatSet64
  rs_imei_blocklist :: FlatSet64
  rs_plan_names :: "string list"
  rs_dnn_names :: "string list"
  rs_redirect_targets :: "string list"
  rs_default_action :: Action
  rs_source_path :: string
  rs_source_sha256 :: string
  rs_loaded_at_unix_ns :: u64

definition empty_RuleSet :: RuleSet where
  "empty_RuleSet = \<lparr> rs_version = 0, rs_rules = [], rs_plans = [], rs_time_windows = [],
     rs_usage_thresholds_permille = [], rs_roaming_partners = empty_FlatSet64,
     rs_imei_blocklist = empty_FlatSet64, rs_plan_names = [], rs_dnn_names = [],
     rs_redirect_targets = [], rs_default_action = zero_action, rs_source_path = [],
     rs_source_sha256 = [], rs_loaded_at_unix_ns = 0 \<rparr>"

definition rs_plan :: "RuleSet \<Rightarrow> u32 \<Rightarrow> PlanConfig option" where
  "rs_plan rs plan_id =
     (if unat plan_id < length (rs_plans rs) then Some (rs_plans rs ! unat plan_id) else None)"

definition rule_bytes :: "RuleSet \<Rightarrow> nat" where
  "rule_bytes rs = length (rs_rules rs) * 64"

text \<open>What the engine needs of a rule set: its two key sets were built from key lists.\<close>

definition key_set_ok :: "FlatSet64 \<Rightarrow> bool" where
  "key_set_ok fs \<longleftrightarrow> (\<exists>ks. length ks \<le> 2 ^ 62 \<and> fs_rebuild ks = Some fs)"

definition rs_ok :: "RuleSet \<Rightarrow> bool" where
  "rs_ok rs \<longleftrightarrow>
     key_set_ok (rs_roaming_partners rs) \<and> key_set_ok (rs_imei_blocklist rs) \<and>
     length (rs_time_windows rs) \<le> kMaxTimeWindows \<and>
     length (rs_usage_thresholds_permille rs) \<le> kMaxUsageThresholds \<and>
     length (rs_plans rs) \<le> kMaxPlans"

definition key_in :: "FlatSet64 \<Rightarrow> u64 \<Rightarrow> bool" where
  "key_in fs x \<longleftrightarrow> fs_contains fs x = Some True"

lemma key_set_ok_contains: "key_set_ok fs \<Longrightarrow> fs_contains fs x = Some (key_in fs x)"
  using flat.contains_build by (auto simp: key_set_ok_def key_in_def)

lemma key_set_ok_empty [simp]: "key_set_ok empty_FlatSet64"
  unfolding key_set_ok_def by (intro exI [of _ "[]"]) (simp add: fs_rebuild_def)

lemma empty_RuleSet_ok: "rs_ok empty_RuleSet"
  by (simp add: rs_ok_def empty_RuleSet_def)

section \<open>Time windows\<close>

text \<open>
  A window that wraps midnight is the complement of the window from its end to its start, so a
  wrapping window and its reverse split the day; a window with equal ends is empty.
\<close>

lemma time_window_wraps:
  "tw_contains \<lparr> start_minute = s, end_minute = e \<rparr> m \<longleftrightarrow>
     (if s = e then False
      else if s < e then s \<le> m \<and> m < e
      else \<not> tw_contains \<lparr> start_minute = e, end_minute = s \<rparr> m)"
  by (auto simp: tw_contains_def)

end
