(* ===== verification/Imsi.thy ===== *)
theory Imsi
  imports Prelude
begin

text \<open>
  IMSI, IMEI and PLMN packing (\<^verbatim>\<open>include/policy/imsi.hpp\<close>): digit strings to 64-bit integers and back,
  the MCC/MNC packing of a network code, and the Luhn check digit of an IMEI.
\<close>

unbundle bit_operations_syntax

section \<open>Operations\<close>

definition kImsiDigits :: nat where "kImsiDigits = 15"
definition kImeiDigits :: nat where "kImeiDigits = 15"
definition kInvalidImsi :: u64 where "kInvalidImsi = 0"

fun parse_digits_loop :: "u64 \<Rightarrow> string \<Rightarrow> u64 option" where
  "parse_digits_loop v [] = Some v"
| "parse_digits_loop v (c # cs) =
     (if \<not> is_digit c then None
      else parse_digits_loop (v * 10 + of_nat (digit_val c)) cs)"

definition parse_digits :: "string \<Rightarrow> nat \<Rightarrow> u64 option" where
  "parse_digits s max_digits =
     (if s = [] \<or> length s > max_digits then None else parse_digits_loop 0 s)"

definition parse_imsi :: "string \<Rightarrow> u64 option" where
  "parse_imsi s = parse_digits s kImsiDigits"

definition parse_imei :: "string \<Rightarrow> u64 option" where
  "parse_imei s = (if s = [] then Some 0 else parse_digits s kImeiDigits)"

text \<open>The loop writes the positions from the last to the first.\<close>

fun format_imsi_loop :: "nat \<Rightarrow> u64 \<Rightarrow> string \<Rightarrow> string" where
  "format_imsi_loop 0 imsi out = out"
| "format_imsi_loop (Suc i) imsi out =
     format_imsi_loop i (imsi div 10) (out[i := digit_char (unat (imsi mod 10))])"

definition format_imsi :: "u64 \<Rightarrow> nat \<Rightarrow> string" where
  "format_imsi imsi digits = format_imsi_loop digits imsi (replicate digits (CHR ''0''))"

definition make_plmn :: "u32 \<Rightarrow> u32 \<Rightarrow> u32" where
  "make_plmn mcc mnc = mcc * 1000 + mnc"

definition plmn_mcc :: "u32 \<Rightarrow> u32" where "plmn_mcc plmn = plmn div 1000"
definition plmn_mnc :: "u32 \<Rightarrow> u32" where "plmn_mnc plmn = plmn mod 1000"

definition plmn_of :: "u64 option \<Rightarrow> u64 option \<Rightarrow> u32 option" where
  "plmn_of mcc mnc =
     (case (mcc, mnc) of (Some a, Some b) \<Rightarrow> Some (make_plmn (ucast a) (ucast b)) | _ \<Rightarrow> None)"

definition is_plmn_sep :: "char \<Rightarrow> bool" where
  "is_plmn_sep c \<longleftrightarrow> c \<in> set ''-/ ''"

definition parse_plmn :: "string \<Rightarrow> u32 option" where
  "parse_plmn s =
     (case dropWhile (\<lambda>c. \<not> is_plmn_sep c) s of
        [] \<Rightarrow>
          (if length s \<noteq> 5 \<and> length s \<noteq> 6 then None
           else plmn_of (parse_digits (take 3 s) 3) (parse_digits (drop 3 s) 3))
      | _ # mnc_text \<Rightarrow>
          (let mcc_text = takeWhile (\<lambda>c. \<not> is_plmn_sep c) s in
           if length mcc_text \<noteq> 3 \<or> length mnc_text < 2 \<or> length mnc_text > 3 then None
           else plmn_of (parse_digits mcc_text 3) (parse_digits mnc_text 3)))"

definition format_plmn :: "u32 \<Rightarrow> string" where
  "format_plmn plmn = dec_of_nat (unat (plmn_mcc plmn)) @ ''-'' @ dec_of_nat (unat (plmn_mnc plmn))"

text \<open>The Luhn loop; a 64-bit value has at most 20 digits, so the 32-bit sum cannot wrap.\<close>

function luhn_sum :: "u64 \<Rightarrow> bool \<Rightarrow> u32 \<Rightarrow> u32" where
  "luhn_sum imei dbl acc =
     (if imei > 0 then
        (let d = ucast (imei mod 10) :: u32;
             d = (if dbl then (let d = d * 2 in if d > 9 then d - 9 else d) else d)
         in luhn_sum (imei div 10) (\<not> dbl) (acc + d))
      else acc)"
  by pat_completeness auto
termination
proof (relation "measure (\<lambda>(imei, _, _). unat imei)", goal_cases)
  case (2 imei dbl acc)
  then have "unat imei div 10 < unat imei"
    by (simp add: word_greater_zero_iff unat_gt_0)
  then show ?case by (simp add: unat_div)
qed simp

declare luhn_sum.simps [simp del]

definition imei_luhn_valid :: "u64 \<Rightarrow> bool" where
  "imei_luhn_valid imei \<longleftrightarrow> luhn_sum imei False 0 mod 10 = 0"

text \<open>The reference: the decimal digits, every second one from the right doubled and cast out by 9.\<close>

definition dec_digit :: "u64 \<Rightarrow> nat \<Rightarrow> nat" where
  "dec_digit v j = unat v div 10 ^ j mod 10"

definition luhn_weight :: "bool \<Rightarrow> nat \<Rightarrow> nat" where
  "luhn_weight dbl d = (if dbl then (if 2 * d > 9 then 2 * d - 9 else 2 * d) else d)"

section \<open>Digit strings\<close>

lemma digits_val_Cons: "digits_val (c # s) = digit_val c * 10 ^ length s + digits_val s"
proof (induction s rule: rev_induct)
  case (snoc x xs)
  have "digits_val (c # xs @ [x]) = digits_val ((c # xs) @ [x])" by simp
  also have "\<dots> = digits_val (c # xs) * 10 + digit_val x" by (rule digits_val_snoc)
  finally show ?case using snoc by simp
qed (simp add: digits_val_def)

lemma parse_digits_loop_eq:
  "parse_digits_loop v s =
     (if (\<forall>c \<in> set s. is_digit c) then Some (v * 10 ^ length s + of_nat (digits_val s)) else None)"
proof (induction s arbitrary: v)
  case Nil
  then show ?case by simp
next
  case (Cons c s)
  then show ?case by (simp add: digits_val_Cons algebra_simps)
qed

lemma parse_digits_eq:
  "parse_digits s n =
     (if s \<noteq> [] \<and> length s \<le> n \<and> (\<forall>c \<in> set s. is_digit c)
      then Some (of_nat (digits_val s)) else None)"
  by (auto simp: parse_digits_def parse_digits_loop_eq)

text \<open>The digits of a 15-digit number, most significant first, and the value they have.\<close>

lemma format_imsi_loop_eq:
  "i \<le> length out \<Longrightarrow>
     format_imsi_loop i v out =
       rev (map (\<lambda>j. digit_char (unat v div 10 ^ j mod 10)) [0..<i]) @ drop i out"
proof (induction i arbitrary: v out)
  case 0
  then show ?case by simp
next
  case (Suc i)
  let ?c = "digit_char (unat (v mod 10))"
  have "rev (map (\<lambda>j. digit_char (unat (v div 10) div 10 ^ j mod 10)) [0..<i]) =
        rev (map (\<lambda>j. digit_char (unat v div 10 ^ Suc j mod 10)) [0..<i])"
    by (simp add: unat_div div_mult2_eq)
  moreover have "map (\<lambda>j. digit_char (unat v div 10 ^ j mod 10)) [0..<Suc i] =
      ?c # map (\<lambda>j. digit_char (unat v div 10 ^ Suc j mod 10)) [0..<i]"
    by (simp only: upt_conv_Cons map_Suc_upt [symmetric] list.map map_map comp_def zero_less_Suc)
      (simp add: unat_mod)
  moreover have "drop i (out[i := ?c]) = ?c # drop (Suc i) out"
    using Suc.prems by (metis Cons_nth_drop_Suc Suc_le_lessD drop_update_cancel length_list_update
        lessI nth_list_update_eq)
  ultimately show ?case
    using Suc by simp
qed


lemma format_imsi_eq:
  "format_imsi v n = rev (map (\<lambda>j. digit_char (unat v div 10 ^ j mod 10)) [0..<n])"
  by (simp add: format_imsi_def format_imsi_loop_eq)

lemma length_format_imsi [simp]: "length (format_imsi v n) = n"
  by (simp add: format_imsi_eq)

lemma format_imsi_digits: "c \<in> set (format_imsi v n) \<Longrightarrow> is_digit c"
  by (auto simp: format_imsi_eq)

lemma digits_val_format_imsi: "digits_val (format_imsi v n) = unat v mod 10 ^ n"
proof (induction n)
  case 0
  then show ?case by (simp add: format_imsi_eq)
next
  case (Suc n)
  have "unat v mod (10 ^ n * 10) = 10 ^ n * (unat v div 10 ^ n mod 10) + unat v mod 10 ^ n"
    by (rule mod_mult2_eq)
  with Suc show ?case by (simp add: format_imsi_eq digits_val_Cons mult.commute)
qed

lemma digits_val_inject:
  assumes "length s = length t" "\<forall>c \<in> set s. is_digit c" "\<forall>c \<in> set t. is_digit c"
    and "digits_val s = digits_val t"
  shows "s = t"
  using assms
proof (induction s t rule: list_induct2)
  case (Cons x xs y ys)
  have "digits_val xs < 10 ^ length ys" "digits_val ys < 10 ^ length ys"
    using Cons.prems Cons.hyps digits_val_bound [of xs] digits_val_bound [of ys] by auto
  then have "digit_val x = digit_val y \<and> digits_val xs = digits_val ys"
    using Cons.prems(3) Cons.hyps
    by (simp add: digits_val_Cons) (metis add_right_cancel div_mult_self3 mod_mult_self3 div_less
        mod_less add_0 gr_implies_not0 less_nat_zero_code)
  then show ?case
    using Cons by (metis digit_char_digit_val list.set_intros)
qed simp

lemma digits_val_zeros [simp]: "digits_val (replicate n (CHR ''0'') @ s) = digits_val s"
  by (induction n) (simp_all add: digits_val_Cons digit_val_def)

lemma is_digit_zero [simp]: "is_digit (CHR ''0'')"
  by (simp add: is_digit_def)

lemma parse_digits_unat:
  assumes "parse_digits s n = Some v" "n \<le> 19"
  shows "unat v = digits_val s"
proof -
  have "digits_val s < 10 ^ length s" "length s \<le> 19"
    using assms digits_val_bound [of s] by (auto simp: parse_digits_eq split: if_splits)
  then have "digits_val s < 10 ^ 19"
    by (meson less_le_trans power_increasing one_le_numeral)
  then have "digits_val s < 2 ^ 64" by simp
  then show ?thesis
    using assms by (auto simp: parse_digits_eq unat_of_nat split: if_splits)
qed

lemma parse_imsi_bound:
  assumes "parse_imsi s = Some v"
  shows "unat v < 10 ^ 15"
proof -
  have s: "length s \<le> 15" "\<forall>c \<in> set s. is_digit c" "unat v = digits_val s"
    using assms parse_digits_unat [of s 15 v]
    by (auto simp: parse_imsi_def kImsiDigits_def parse_digits_eq split: if_splits)
  have "digits_val s < 10 ^ length s" using s(2) digits_val_bound by blast
  also have "\<dots> \<le> 10 ^ 15" using s(1) by (intro power_increasing) simp_all
  finally show ?thesis using s(3) by simp
qed

text \<open>
  C29: printing an IMSI and parsing it back is the identity on 15-digit values, and the printed form
  of a parsed IMSI is the input padded with leading zeros to 15 digits.
\<close>

theorem imsi_round_trip:
  "(unat v < 10 ^ 15 \<longrightarrow> parse_imsi (format_imsi v kImsiDigits) = Some v) \<and>
   (parse_imsi s = Some w \<longrightarrow>
      format_imsi w kImsiDigits = replicate (kImsiDigits - length s) (CHR ''0'') @ s)"
proof (intro conjI impI)
  assume "unat v < 10 ^ 15"
  then show "parse_imsi (format_imsi v kImsiDigits) = Some v"
    using length_format_imsi [of v 15]
    by (auto simp: parse_imsi_def kImsiDigits_def parse_digits_eq digits_val_format_imsi
        simp del: length_format_imsi dest: format_imsi_digits)
next
  assume w: "parse_imsi s = Some w"
  then have s: "length s \<le> 15" "\<forall>c \<in> set s. is_digit c" "unat w = digits_val s"
    using parse_digits_unat [of s 15 w]
    by (auto simp: parse_imsi_def kImsiDigits_def parse_digits_eq split: if_splits)
  have "digits_val s < 10 ^ 15"
    using parse_imsi_bound [OF w] s(3) by simp
  with s show "format_imsi w kImsiDigits = replicate (kImsiDigits - length s) (CHR ''0'') @ s"
    by (intro digits_val_inject)
      (auto simp: kImsiDigits_def digits_val_format_imsi dest: format_imsi_digits)
qed

theorem imsi_round_trip_witness:
  "parse_imsi (format_imsi 310260000000001 kImsiDigits) = Some 310260000000001 \<and>
   format_imsi 20801 kImsiDigits = ''000000000020801''"
proof -
  have "unat (310260000000001 :: u64) < 10 ^ 15" "parse_imsi ''20801'' = Some 20801"
    by simp code_simp
  moreover have "replicate (kImsiDigits - length ''20801'') (CHR ''0'') @ ''20801'' = ''000000000020801''"
    by code_simp
  ultimately show ?thesis
    using imsi_round_trip [of 310260000000001 "''20801''" 20801] by metis
qed

section \<open>Network codes\<close>

lemma ucast_of_nat_u64 [simp]: "ucast (of_nat n :: u64) = (of_nat n :: u32)"
  by (simp add: unsigned_of_nat word_of_nat_eq_iff)

lemma is_plmn_sep_digit: "is_digit c \<Longrightarrow> \<not> is_plmn_sep c"
  by (auto simp: is_plmn_sep_def is_digit_def)

lemma parse_plmn_split:
  assumes "\<forall>c \<in> set a. is_digit c" "is_plmn_sep x" "length a = 3" "2 \<le> length b" "length b \<le> 3"
  shows "parse_plmn (a @ x # b) = plmn_of (parse_digits a 3) (parse_digits b 3)"
proof -
  have "dropWhile (\<lambda>c. \<not> is_plmn_sep c) (a @ x # b) = x # b"
    "takeWhile (\<lambda>c. \<not> is_plmn_sep c) (a @ x # b) = a"
    using assms(1,2) by (simp_all add: dropWhile_append2 takeWhile_append2 is_plmn_sep_digit)
  then show ?thesis
    using assms(3-5) by (simp add: parse_plmn_def)
qed

lemma parse_plmn_bare:
  assumes "\<forall>c \<in> set (a @ b). is_digit c" "length a = 3" "2 \<le> length b" "length b \<le> 3"
  shows "parse_plmn (a @ b) = plmn_of (parse_digits a 3) (parse_digits b 3)"
proof -
  have "dropWhile (\<lambda>c. \<not> is_plmn_sep c) (a @ b) = []"
    using assms(1) is_plmn_sep_digit by (auto simp: dropWhile_eq_Nil_conv)
  then show ?thesis
    using assms(2-4) unfolding parse_plmn_def by (simp only: list.case) auto
qed

text \<open>
  the spellings 310-260, 310/260, "310 260" and 310260 of a network code denote the same PLMN,
  which is the packed MCC and MNC, and the parts are recovered from it.
\<close>

theorem plmn_spellings:
  assumes "\<forall>c \<in> set (a @ b). is_digit c" "length a = 3" "2 \<le> length b" "length b \<le> 3"
    and "is_plmn_sep x"
  shows "parse_plmn (a @ x # b) = parse_plmn (a @ b) \<and>
         (\<exists>p. parse_plmn (a @ b) = Some p \<and> unat p = digits_val a * 1000 + digits_val b \<and>
              unat (plmn_mcc p) = digits_val a \<and> unat (plmn_mnc p) = digits_val b)"
proof -
  have ab: "parse_digits a 3 = Some (of_nat (digits_val a))" "parse_digits b 3 = Some (of_nat (digits_val b))"
    using assms(1-4) by (auto simp: parse_digits_eq)
  have "digits_val a < 10 ^ 3" "digits_val b < 10 ^ length b"
    using assms digits_val_bound [of a] digits_val_bound [of b] by auto
  moreover have "10 ^ length b \<le> (10 :: nat) ^ 3"
    using assms(4) by (intro power_increasing) auto
  ultimately have v: "digits_val a < 1000" "digits_val b < 1000" by simp_all
  define p :: u32 where "p = make_plmn (of_nat (digits_val a)) (of_nat (digits_val b))"
  have p: "p = of_nat (digits_val a * 1000 + digits_val b)"
    by (simp add: p_def make_plmn_def)
  have u: "unat p = digits_val a * 1000 + digits_val b"
    using v unfolding p by (simp only: unat_of_nat) simp
  have "unat (plmn_mcc p) = digits_val a" "unat (plmn_mnc p) = digits_val b"
    using v by (simp_all add: plmn_mcc_def plmn_mnc_def unat_div unat_mod u)
  moreover have "parse_plmn (a @ b) = Some p"
    using parse_plmn_bare [OF assms(1-4)] by (simp add: ab plmn_of_def p_def)
  moreover have "parse_plmn (a @ x # b) = Some p"
    using parse_plmn_split [of a x b] assms by (simp add: ab plmn_of_def p_def)
  ultimately show ?thesis using u by auto
qed

theorem plmn_spellings_witness:
  "parse_plmn ''310-260'' = parse_plmn ''310260'' \<and>
   (\<exists>p. parse_plmn ''310260'' = Some p \<and> unat p = 310260 \<and> unat (plmn_mcc p) = 310)"
proof -
  have "digits_val ''310'' = 310" "digits_val ''260'' = 260"
    "\<forall>c \<in> set (''310'' @ ''260''). is_digit c" "is_plmn_sep (CHR ''-'')" by code_simp+
  then show ?thesis
    using plmn_spellings [of "''310''" "''260''" "CHR ''-''"] by auto
qed

lemma length_dec_of_nat:
  "length (dec_of_nat n) = (if n < 10 then 1 else Suc (length (dec_of_nat (n div 10))))"
  by (subst dec_of_nat.simps) simp

lemma length_dec_of_nat_small:
  assumes "n < 1000"
  shows "length (dec_of_nat n) = (if n < 10 then 1 else if n < 100 then 2 else 3)"
proof -
  have "n div 10 < 10 \<longleftrightarrow> n < 100" "n div 10 div 10 < 10"
    using assms by auto
  then show ?thesis
    using length_dec_of_nat [of n] length_dec_of_nat [of "n div 10"]
      length_dec_of_nat [of "n div 10 div 10"] by auto
qed

lemma ucast_u64_u32 [simp]: "ucast (ucast (w :: u32) :: u64) = w"
  by (rule bit_eqI) (simp add: bit_unsigned_iff)



section \<open>The Luhn digit\<close>

lemma luhn_weight_le: "d < 10 \<Longrightarrow> luhn_weight dbl d \<le> 9"
  unfolding luhn_weight_def by (simp split: if_split) arith

lemma luhn_weight_inject:
  assumes "luhn_weight dbl d = luhn_weight dbl e" "d < 10" "e < 10"
  shows "d = e"
  using assms unfolding luhn_weight_def by (simp split: if_splits) presburger+

lemma luhn_weight_word:
  assumes "e < 10"
  shows "(let d = of_nat e :: u32 in if dbl then (let d = d * 2 in if d > 9 then d - 9 else d) else d)
         = of_nat (luhn_weight dbl e)"
proof -
  from assms have "e \<in> set [0..<10]" by simp
  then have "e \<in> {0, 1, 2, 3, 4, 5, 6, 7, 8, 9}"
    by (simp add: numeral_eq_Suc)
  then show ?thesis
    by (elim insertE emptyE) (simp_all add: luhn_weight_def Let_def)
qed

lemma luhn_sum_step:
  assumes "v \<noteq> 0"
  shows "luhn_sum v dbl acc =
    luhn_sum (v div 10) (\<not> dbl) (acc + of_nat (luhn_weight dbl (dec_digit v 0)))"
proof -
  have "v mod 10 = of_nat (unat v mod 10)"
    by (subst word_arith_nat_mod) simp
  then have "ucast (v mod 10) = (of_nat (unat v mod 10) :: u32)"
    by (simp only: ucast_of_nat_u64)
  then show ?thesis
    using assms luhn_weight_word [of "unat v mod 10" dbl]
    by (subst luhn_sum.simps) (simp add: Let_def dec_digit_def word_greater_zero_iff)
qed

lemma dec_digit_div: "dec_digit (v div 10) j = dec_digit v (Suc j)"
  by (simp add: dec_digit_def unat_div div_mult2_eq)

lemma luhn_sum_eq:
  assumes "unat v < 10 ^ n" "unat acc + 9 * n < 2 ^ 32"
  shows "unat (luhn_sum v dbl acc) =
           unat acc + (\<Sum>j<n. luhn_weight (dbl \<noteq> odd j) (dec_digit v j))"
  using assms
proof (induction n arbitrary: v dbl acc)
  case 0
  then show ?case by (simp add: luhn_sum.simps unat_eq_0)
next
  case (Suc n)
  show ?case
  proof (cases "v = 0")
    case True
    then show ?thesis
      by (simp add: luhn_sum.simps dec_digit_def luhn_weight_def)
  next
    case False
    let ?w = "luhn_weight dbl (dec_digit v 0)"
    have w: "?w \<le> 9" by (rule luhn_weight_le) (simp add: dec_digit_def)
    then have acc: "unat (acc + of_nat ?w) = unat acc + ?w"
      using Suc.prems(2) by (simp add: unat_word_ariths unat_of_nat)
    have "unat (v div 10) < 10 ^ n"
      using Suc.prems(1) by (simp add: unat_div less_mult_imp_div_less mult.commute)
    then have "unat (luhn_sum (v div 10) (\<not> dbl) (acc + of_nat ?w)) =
        unat acc + ?w + (\<Sum>j<n. luhn_weight ((\<not> dbl) \<noteq> odd j) (dec_digit (v div 10) j))"
      using Suc.IH [of "v div 10" "acc + of_nat ?w" "\<not> dbl"] Suc.prems(2) w by (simp add: acc)
    then show ?thesis
      by (simp add: luhn_sum_step [OF False] sum.lessThan_Suc_shift dec_digit_div del: sum.lessThan_Suc)
  qed
qed

lemma imei_luhn_valid_eq:
  "imei_luhn_valid v \<longleftrightarrow> (\<Sum>j<20. luhn_weight (odd j) (dec_digit v j)) mod 10 = 0"
proof -
  have "unat v < 2 ^ 64" using unat_less_power [of v] by simp
  also have "(2 :: nat) ^ 64 < 10 ^ 20" by simp
  finally have "unat (luhn_sum v False 0) =
      unat (0 :: u32) + (\<Sum>j<20. luhn_weight (False \<noteq> odd j) (dec_digit v j))"
    by (rule luhn_sum_eq) simp
  then have "unat (luhn_sum v False 0) mod 10 = (\<Sum>j<20. luhn_weight (odd j) (dec_digit v j)) mod 10"
    by (simp only: unsigned_0 add_0 simp_thms)
  moreover have "luhn_sum v False 0 mod 10 = 0 \<longleftrightarrow> unat (luhn_sum v False 0) mod 10 = 0"
    by (simp only: unat_eq_0 [symmetric] unat_mod) simp
  ultimately show ?thesis
    by (simp only: imei_luhn_valid_def)
qed

lemma mod_ten_cancel:
  assumes "(a + r) mod 10 = 0" "(b + r) mod 10 = 0" "a \<le> 9" "b \<le> (9 :: nat)"
  shows "a = b"
proof -
  have "10 dvd (b + r) - (a + r)" "10 dvd (a + r) - (b + r)"
    using assms(1,2) by (intro dvd_diff_nat; simp add: dvd_eq_mod_eq_0)+
  then have "10 dvd b - a" "10 dvd a - b" by simp_all
  then show ?thesis
    using assms(3,4) by (auto dest!: dvd_imp_le)
qed

text \<open>
  C31: the Luhn check catches every single-digit error: two values that differ in exactly one decimal
  digit are never both accepted.
\<close>

theorem luhn_detects_single_digit_error:
  assumes "imei_luhn_valid v" "k < 20"
    and "\<And>j. j \<noteq> k \<Longrightarrow> dec_digit w j = dec_digit v j" "dec_digit w k \<noteq> dec_digit v k"
  shows "\<not> imei_luhn_valid w"
proof
  assume "imei_luhn_valid w"
  let ?t = "\<lambda>x j. luhn_weight (odd j) (dec_digit x j)"
  have split: "(\<Sum>j<20. ?t x j) = ?t x k + (\<Sum>j \<in> {..<20} - {k}. ?t x j)" for x
    using assms(2) by (intro sum.remove) auto
  have "(\<Sum>j \<in> {..<20} - {k}. ?t w j) = (\<Sum>j \<in> {..<20} - {k}. ?t v j)"
    using assms(3) by (intro sum.cong) auto
  then have "(?t v k + (\<Sum>j \<in> {..<20} - {k}. ?t v j)) mod 10 = 0"
    "(?t w k + (\<Sum>j \<in> {..<20} - {k}. ?t v j)) mod 10 = 0"
    using assms(1) \<open>imei_luhn_valid w\<close> unfolding imei_luhn_valid_eq split by simp_all
  moreover have "?t v k \<le> 9" "?t w k \<le> 9"
    by (rule luhn_weight_le, simp add: dec_digit_def)+
  ultimately have "?t v k = ?t w k" by (rule mod_ten_cancel)
  then show False
    using assms(4) luhn_weight_inject [of "odd k" "dec_digit v k" "dec_digit w k"]
    by (simp add: dec_digit_def)
qed

theorem luhn_detects_single_digit_error_witness:
  "imei_luhn_valid 490154203237518 \<and> \<not> imei_luhn_valid 490154203237519"
proof -
  have "imei_luhn_valid 490154203237518" by code_simp
  moreover have "dec_digit 490154203237519 j = dec_digit 490154203237518 j" if "j \<noteq> 0" for j
    using that by (cases j) (simp_all add: dec_digit_def div_mult2_eq)
  moreover have "dec_digit 490154203237519 0 \<noteq> dec_digit 490154203237518 0"
    by (simp add: dec_digit_def)
  ultimately show ?thesis
    using luhn_detects_single_digit_error [of 490154203237518 0 490154203237519] by simp
qed

end
