(* ===== verification/Float64.thy ===== *)
theory Float64
  imports Complex_Main Prelude
begin

text \<open>
  IEEE 754 double arithmetic as the sources use it: finite values are rationals, and the result of
  an operation is the exact one rounded to 53 significant bits, ties to even, with the subnormal
  spacing at the bottom. Overflow to infinity is left to the callers (none of the sources' values
  comes near it).
\<close>

section \<open>Rounding\<close>

fun ilog :: "nat \<Rightarrow> nat" where
  "ilog n = (if n < 2 then 0 else Suc (ilog (n div 2)))"

declare ilog.simps [simp del]

text \<open>The exponent of a positive rational: the greatest power of two below it.\<close>

definition ilog2 :: "rat \<Rightarrow> int" where
  "ilog2 x = (case quotient_of x of (p, q) \<Rightarrow>
     let e = int (ilog (nat p)) - int (ilog (nat q))
     in if 2 powi e \<le> x then e else e - 1)"

definition round_even :: "rat \<Rightarrow> int" where
  "round_even x =
     (let f = \<lfloor>x\<rfloor>; d = x - of_int f
      in if d < 1 / 2 then f else if d > 1 / 2 then f + 1 else if even f then f else f + 1)"

definition ulp_exp :: "rat \<Rightarrow> int" where
  "ulp_exp x = max (ilog2 x - 52) (- 1074)"

definition rnd64 :: "rat \<Rightarrow> rat" where
  "rnd64 x =
     (if x = 0 then 0
      else if x < 0 then - (of_int (round_even (- x / 2 powi ulp_exp (- x))) * 2 powi ulp_exp (- x))
      else of_int (round_even (x / 2 powi ulp_exp x)) * 2 powi ulp_exp x)"

section \<open>Exponents\<close>

lemma ilog_bounds: "0 < n \<Longrightarrow> 2 ^ ilog n \<le> n \<and> n < 2 ^ Suc (ilog n)"
proof (induction n rule: ilog.induct)
  case (1 n)
  show ?case
  proof (cases "n < 2")
    case True
    then show ?thesis using 1 by (simp add: ilog.simps)
  next
    case False
    then have "2 ^ ilog (n div 2) \<le> n div 2 \<and> n div 2 < 2 ^ Suc (ilog (n div 2))"
      using 1 by auto
    then show ?thesis using False by (simp add: ilog.simps [of n]) linarith
  qed
qed

lemma ilog2_bounds:
  assumes "0 < x"
  shows "2 powi ilog2 x \<le> x" "x < 2 powi (ilog2 x + 1)"
proof -
  obtain p q where pq: "quotient_of x = (p, q)" by fastforce
  then have q: "0 < q" and x: "x = of_int p / of_int q"
    using quotient_of_denom_pos quotient_of_div by blast+
  with assms have p: "0 < p" by (simp add: zero_less_divide_iff)
  define a b where "a = int (ilog (nat p))" and "b = int (ilog (nat q))"
  have "2 ^ ilog (nat p) \<le> nat p" "nat p < 2 ^ Suc (ilog (nat p))"
    "2 ^ ilog (nat q) \<le> nat q" "nat q < 2 ^ Suc (ilog (nat q))"
    using ilog_bounds [of "nat p"] ilog_bounds [of "nat q"] p q by auto
  then have "of_nat (2 ^ ilog (nat p)) \<le> (of_nat (nat p) :: rat)"
    "(of_nat (nat p) :: rat) < of_nat (2 ^ Suc (ilog (nat p)))"
    "of_nat (2 ^ ilog (nat q)) \<le> (of_nat (nat q) :: rat)"
    "(of_nat (nat q) :: rat) < of_nat (2 ^ Suc (ilog (nat q)))"
    by (simp_all only: of_nat_le_iff of_nat_less_iff)
  then have pa: "2 powi a \<le> (of_int p :: rat)" "(of_int p :: rat) < 2 powi (a + 1)"
    and qb: "2 powi b \<le> (of_int q :: rat)" "(of_int q :: rat) < 2 powi (b + 1)"
    using p q by (simp_all add: a_def b_def power_int_add)
  have "x < 2 powi (a + 1) / 2 powi b"
    unfolding x using pa qb p q by (intro frac_less) auto
  then have up: "x < 2 powi (a - b + 1)"
    by (simp add: power_int_diff power_int_add)
  have "2 powi a / 2 powi (b + 1) < x"
    unfolding x using pa qb p q by (intro frac_less2) auto
  then have lo: "2 powi (a - b - 1) < x"
    by (simp add: power_int_diff power_int_add)
  show "2 powi ilog2 x \<le> x" "x < 2 powi (ilog2 x + 1)"
    using up lo by (auto simp: ilog2_def pq Let_def a_def [symmetric] b_def [symmetric])
qed

lemma powi_less_iff: "(2 :: rat) powi a < 2 powi b \<longleftrightarrow> a < b"
  using power_int_strict_increasing [of a b "2 :: rat"] power_int_increasing [of b a "2 :: rat"]
  by (metis linorder_not_le one_less_numeral_iff one_le_numeral semiring_norm(76))

lemma powi_le_iff: "(2 :: rat) powi a \<le> 2 powi b \<longleftrightarrow> a \<le> b"
  using powi_less_iff [of b a] by (simp add: linorder_not_less [symmetric])

lemma ilog2_eqI:
  assumes "2 powi e \<le> x" "x < 2 powi (e + 1)"
  shows "ilog2 x = e"
proof -
  have "(0 :: rat) < 2 powi e" by simp
  then have x: "0 < x" using assms(1) by linarith
  have "2 powi ilog2 x < (2 :: rat) powi (e + 1)" "(2 :: rat) powi e < 2 powi (ilog2 x + 1)"
    using ilog2_bounds [OF x] assms by linarith+
  then have "ilog2 x < e + 1" "e < ilog2 x + 1"
    by (simp_all only: powi_less_iff)
  then show ?thesis by simp
qed

lemma ilog2_scale: "0 < x \<Longrightarrow> ilog2 (2 powi k * x) = k + ilog2 x"
  using ilog2_bounds [of x] by (intro ilog2_eqI) (simp_all add: power_int_add ac_simps)

lemma ilog2_mono: "0 < x \<Longrightarrow> x \<le> y \<Longrightarrow> ilog2 x \<le> ilog2 y"
proof -
  assume "0 < x" "x \<le> y"
  then have "2 powi ilog2 x < (2 :: rat) powi (ilog2 y + 1)"
    using ilog2_bounds [of x] ilog2_bounds [of y] by linarith
  then show ?thesis
    by (simp add: powi_less_iff)
qed


section \<open>Rounding to an integer\<close>

lemma round_even_of_int [simp]: "round_even (of_int n) = n"
  by (simp add: round_even_def)

lemma round_even_cases: "round_even x = \<lfloor>x\<rfloor> \<or> round_even x = \<lfloor>x\<rfloor> + 1"
  by (auto simp: round_even_def Let_def)

lemma round_even_near: "\<bar>of_int (round_even x) - x\<bar> \<le> 1 / 2"
proof -
  have "of_int \<lfloor>x\<rfloor> \<le> x" "x < of_int \<lfloor>x\<rfloor> + 1" by linarith+
  then show ?thesis
    by (auto simp: round_even_def Let_def)
qed

lemma round_even_mono:
  assumes "x \<le> y"
  shows "round_even x \<le> round_even y"
proof (cases "\<lfloor>x\<rfloor> = \<lfloor>y\<rfloor>")
  case True
  then show ?thesis using assms by (auto simp: round_even_def Let_def)
next
  case False
  then have "\<lfloor>x\<rfloor> + 1 \<le> \<lfloor>y\<rfloor>" using floor_mono [OF assms] by linarith
  then show ?thesis using round_even_cases [of x] round_even_cases [of y] by linarith
qed

section \<open>Doubles\<close>

lemma rnd64_zero [simp]: "rnd64 0 = 0"
  by (simp add: rnd64_def)

lemma rnd64_pos: "0 < x \<Longrightarrow> rnd64 x = of_int (round_even (x / 2 powi ulp_exp x)) * 2 powi ulp_exp x"
  by (simp add: rnd64_def)

lemma rnd64_minus: "rnd64 (- x) = - rnd64 x"
  by (auto simp: rnd64_def)

text \<open>A value that is an integer multiple of its own spacing is a double.\<close>

lemma rnd64_exact:
  assumes "0 < x" "x = of_int n * 2 powi ulp_exp x"
  shows "rnd64 x = x"
proof -
  have "x / 2 powi ulp_exp x = of_int n"
    by (subst assms(2)) (simp add: field_simps)
  then show ?thesis using assms by (simp add: rnd64_pos)
qed

lemma rnd64_nonneg: "0 \<le> x \<Longrightarrow> 0 \<le> rnd64 x"
proof (cases "x = 0")
  case False
  assume "0 \<le> x"
  then have "0 \<le> round_even (x / 2 powi ulp_exp x)"
    using round_even_mono [of 0 "x / 2 powi ulp_exp x"] round_even_of_int [of 0] by simp
  then show ?thesis using \<open>0 \<le> x\<close> False by (simp add: rnd64_pos)
qed simp

text \<open>Rounding commutes with a change of binade, as long as neither side is subnormal.\<close>

lemma rnd64_scale:
  assumes "2 powi (- 1022) \<le> x" "0 \<le> k"
  shows "rnd64 (2 powi k * x) = 2 powi k * rnd64 x"
proof -
  have x: "0 < x" using assms(1) by (rule less_le_trans [rotated]) simp
  have "2 powi (- 1022) < (2 :: rat) powi (ilog2 x + 1)"
    using assms(1) ilog2_bounds(2) [OF x] by (rule le_less_trans)
  then have "- 1022 < ilog2 x + 1" by (simp only: powi_less_iff)
  then have e: "- 1022 \<le> ilog2 x" by simp
  then have u: "ulp_exp (2 powi k * x) = k + ulp_exp x"
    using assms(2) by (simp add: ulp_exp_def ilog2_scale [OF x])
  have "2 powi k * x / 2 powi (k + ulp_exp x) = x / 2 powi ulp_exp x"
    by (simp add: power_int_add)
  then show ?thesis
    using x by (simp add: rnd64_pos u power_int_add)
qed


lemma powi_quotient:
  assumes "u \<le> e"
  shows "(2 :: rat) powi e = of_int (2 ^ nat (e - u)) * 2 powi u"
proof -
  have "(2 :: rat) powi e = 2 powi (e - u) * 2 powi u"
    by (simp add: power_int_add [symmetric])
  also have "(2 :: rat) powi (e - u) = of_int (2 ^ nat (e - u))"
    using assms by (simp add: power_int_def)
  finally show ?thesis .
qed

lemma rnd64_le_powi:
  assumes "0 < x" "x \<le> 2 powi e" "ulp_exp x \<le> e"
  shows "rnd64 x \<le> 2 powi e"
proof -
  note e = powi_quotient [OF assms(3)]
  have "x / 2 powi ulp_exp x \<le> of_int (2 ^ nat (e - ulp_exp x))"
    using assms(2) unfolding e by (simp add: pos_divide_le_eq)
  then have "round_even (x / 2 powi ulp_exp x) \<le> 2 ^ nat (e - ulp_exp x)"
    using round_even_mono round_even_of_int by metis
  then show ?thesis
    unfolding rnd64_pos [OF assms(1)] e by (intro mult_right_mono) (simp_all only: of_int_le_iff, simp)
qed

lemma rnd64_ge_powi:
  assumes "2 powi e \<le> x" "ulp_exp x \<le> e"
  shows "2 powi e \<le> rnd64 x"
proof -
  note e = powi_quotient [OF assms(2)]
  have x: "0 < x" using assms(1) by (rule less_le_trans [rotated]) simp
  have "of_int (2 ^ nat (e - ulp_exp x)) \<le> x / 2 powi ulp_exp x"
    using assms(1) unfolding e by (simp add: pos_le_divide_eq)
  then have "2 ^ nat (e - ulp_exp x) \<le> round_even (x / 2 powi ulp_exp x)"
    using round_even_mono round_even_of_int by metis
  then show ?thesis
    unfolding rnd64_pos [OF x] e by (intro mult_right_mono) (simp_all only: of_int_le_iff, simp)
qed

lemma rnd64_mono:
  assumes "0 \<le> x" "x \<le> y"
  shows "rnd64 x \<le> rnd64 y"
proof (cases "x = 0")
  case True
  then show ?thesis using assms rnd64_nonneg by simp
next
  case False
  then have x: "0 < x" and y: "0 < y" using assms by auto
  have ilog: "ilog2 x \<le> ilog2 y" using x assms(2) by (rule ilog2_mono)
  show ?thesis
  proof (cases "ulp_exp x = ulp_exp y")
    case True
    have "round_even (x / 2 powi ulp_exp x) \<le> round_even (y / 2 powi ulp_exp x)"
      using assms(2) by (intro round_even_mono divide_right_mono) auto
    then show ?thesis
      unfolding rnd64_pos [OF x] rnd64_pos [OF y] True [symmetric]
      by (intro mult_right_mono) (simp_all only: of_int_le_iff, simp)
  next
    case False
    then have u: "ulp_exp x \<le> ilog2 y" "ulp_exp y \<le> ilog2 y" "ilog2 x + 1 \<le> ilog2 y"
      using ilog by (auto simp: ulp_exp_def max_def split: if_splits)
    then have "(2 :: rat) powi (ilog2 x + 1) \<le> 2 powi ilog2 y" by (simp add: powi_le_iff)
    then have "x \<le> 2 powi ilog2 y" using ilog2_bounds(2) [OF x] by linarith
    then have "rnd64 x \<le> 2 powi ilog2 y" using x u(1) by (intro rnd64_le_powi)
    also have "\<dots> \<le> rnd64 y" using ilog2_bounds(1) [OF y] u(2) by (rule rnd64_ge_powi)
    finally show ?thesis .
  qed
qed

lemma rnd64_of_nat:
  assumes "n \<le> 2 ^ 53"
  shows "rnd64 (of_nat n) = of_nat n"
proof (cases "n = 0 \<or> n = 2 ^ 53")
  case True
  have "ilog2 (2 ^ 53) = 53" by (rule ilog2_eqI) simp_all
  then have "rnd64 (2 ^ 53) = 2 ^ 53"
    by (intro rnd64_exact [where n = "2 ^ 52"]) (simp_all add: ulp_exp_def)
  then show ?thesis using True by auto
next
  case False
  let ?x = "of_nat n :: rat"
  have x: "0 < ?x" and lt: "n < 2 ^ 53" using False assms by auto
  then have "?x < of_nat (2 ^ 53)" by (simp only: of_nat_less_iff)
  then have "2 powi ilog2 ?x < (2 :: rat) powi 53" using ilog2_bounds(1) [OF x] by simp
  then have "ilog2 ?x < 53" by (simp only: powi_less_iff)
  then have u: "ulp_exp ?x \<le> 0" by (simp add: ulp_exp_def)
  have "?x = of_int (int n * 2 ^ nat (- ulp_exp ?x)) * 2 powi ulp_exp ?x"
    using powi_quotient [OF u] by simp
  then show ?thesis by (rule rnd64_exact [OF x])
qed

lemma rnd64_pow2: "0 \<le> k \<Longrightarrow> rnd64 (2 powi k) = 2 powi k"
  using rnd64_scale [of 1 k] rnd64_of_nat [of 1] powi_le_iff [of "- 1022" 0] by simp

lemma rnd64_error:
  assumes "0 < x"
  shows "\<bar>rnd64 x - x\<bar> \<le> 2 powi (ulp_exp x - 1)"
proof -
  let ?u = "2 powi ulp_exp x :: rat"
  have "rnd64 x - x = (of_int (round_even (x / ?u)) - x / ?u) * ?u"
    by (simp add: rnd64_pos [OF assms] algebra_simps)
  then have "\<bar>rnd64 x - x\<bar> = \<bar>of_int (round_even (x / ?u)) - x / ?u\<bar> * ?u"
    by (simp add: abs_mult)
  also have "\<dots> \<le> 1 / 2 * ?u" by (intro mult_right_mono round_even_near) simp
  finally show ?thesis by (simp add: power_int_diff)
qed

end
