(* ===== verification/Subscriber_Store.thy ===== *)
theory Subscriber_Store
  imports Imsi Probing Float64 "HOL-Library.Monad_Syntax"
begin

text \<open>
  The subscriber table of \<^verbatim>\<open>include/policy/subscriber_store.hpp\<close> and \<^verbatim>\<open>src/subscriber_store.cpp\<close>: records
  inline in a linear-probing table keyed by the IMSI, which doubles when an insertion would take it
  past its load factor, and the CSV loader of the subscriber roster. An outer \<^const>\<open>None\<close> is a loop that
  does not return.
\<close>

unbundle bit_operations_syntax

section \<open>Records and table\<close>

datatype SubscriberStatus = kActive | kSuspended | kBarred

definition status_u32 :: "SubscriberStatus \<Rightarrow> u32" where
  "status_u32 s = (case s of kActive \<Rightarrow> 0 | kSuspended \<Rightarrow> 1 | kBarred \<Rightarrow> 2)"

definition kSubRoamingAllowed :: u32 where "kSubRoamingAllowed = push_bit 0 1"
definition kSubTetheringAllowed :: u32 where "kSubTetheringAllowed = push_bit 1 1"
definition kSubVolteEnabled :: u32 where "kSubVolteEnabled = push_bit 2 1"
definition kSubTestSubscriber :: u32 where "kSubTestSubscriber = push_bit 3 1"

record SubscriberRecord =
  sr_imsi :: u64
  sr_imei :: u64
  sr_plan_id :: u32
  sr_status :: u32
  sr_bytes_used_period :: u64
  sr_period_reset_ts :: u64
  sr_home_plmn :: u32
  sr_flags :: u32

definition empty_record :: SubscriberRecord where
  "empty_record = \<lparr> sr_imsi = 0, sr_imei = 0, sr_plan_id = 0, sr_status = 0,
     sr_bytes_used_period = 0, sr_period_reset_ts = 0, sr_home_plmn = 0, sr_flags = 0 \<rparr>"

definition load_usage :: "SubscriberRecord \<Rightarrow> u64" where
  "load_usage r = sr_bytes_used_period r"

record SubscriberStore =
  st_slots :: "SubscriberRecord list"
  st_mask :: u64
  st_size :: u64
  st_max_load_factor :: rat

definition st_hash :: "u64 \<Rightarrow> u64" where
  "st_hash x0 =
     (let x1 = x0 + 0x9E3779B97F4A7C15;
          x2 = (x1 XOR drop_bit 30 x1) * 0xBF58476D1CE4E5B9;
          x3 = (x2 XOR drop_bit 27 x2) * 0x94D049BB133111EB
      in x3 XOR drop_bit 31 x3)"

section \<open>Sizing\<close>

definition next_pow2 :: "u64 \<Rightarrow> u64 option" where
  "next_pow2 n = pow2_from 8 n"

definition clamp_load :: "rat \<Rightarrow> rat" where
  "clamp_load lf = (if lf < 1 / 4 then 1 / 4 else if rnd64 (9 / 10) < lf then rnd64 (9 / 10) else lf)"

text \<open>The conversion of a double past the range of \<^verbatim>\<open>size_t\<close> is undefined; it is \<^const>\<open>None\<close>.\<close>

definition slots_for :: "u64 \<Rightarrow> rat \<Rightarrow> u64 option" where
  "slots_for n load_factor =
     (let lf = clamp_load load_factor;
          needed = \<lceil>rnd64 (rnd64 (of_nat (unat (max n 4))) / lf)\<rceil>
      in if needed < 2 ^ 64 then next_pow2 (of_int needed) else None)"

definition bytes_for :: "u64 \<Rightarrow> rat \<Rightarrow> u64 option" where
  "bytes_for n load_factor = map_option (\<lambda>s. s * 64) (slots_for n load_factor)"

definition fresh_slots :: "u64 \<Rightarrow> SubscriberStore \<Rightarrow> SubscriberStore" where
  "fresh_slots cap s = s\<lparr> st_slots := replicate (unat cap) empty_record, st_mask := cap - 1, st_size := 0 \<rparr>"

definition new_store :: "u64 \<Rightarrow> rat \<Rightarrow> SubscriberStore option" where
  "new_store expected max_load_factor =
     (let lf = clamp_load max_load_factor in
      do { cap \<leftarrow> slots_for expected lf;
           Some (fresh_slots cap \<lparr> st_slots = [], st_mask = 0, st_size = 0, st_max_load_factor = lf \<rparr>) })"

section \<open>Lookup\<close>

partial_function (option) find_loop ::
    "SubscriberStore \<Rightarrow> u64 \<Rightarrow> u64 \<Rightarrow> SubscriberRecord option option" where
  "find_loop s imsi i =
     (let r = st_slots s ! unat i in
      if sr_imsi r = imsi then Some (Some r)
      else if sr_imsi r = 0 then Some None
      else find_loop s imsi ((i + 1) AND st_mask s))"

definition st_find :: "SubscriberStore \<Rightarrow> u64 \<Rightarrow> SubscriberRecord option option" where
  "st_find s imsi = (if imsi = 0 then Some None else find_loop s imsi (st_hash imsi AND st_mask s))"

text \<open>\<^verbatim>\<open>find_mutable\<close> returns a pointer into the table: here the index of the slot.\<close>

partial_function (option) find_mutable_loop ::
    "SubscriberStore \<Rightarrow> u64 \<Rightarrow> u64 \<Rightarrow> nat option option" where
  "find_mutable_loop s imsi i =
     (let r = st_slots s ! unat i in
      if sr_imsi r = imsi then Some (Some (unat i))
      else if sr_imsi r = 0 then Some None
      else find_mutable_loop s imsi ((i + 1) AND st_mask s))"

definition find_mutable :: "SubscriberStore \<Rightarrow> u64 \<Rightarrow> nat option option" where
  "find_mutable s imsi =
     (if imsi = 0 then Some None else find_mutable_loop s imsi (st_hash imsi AND st_mask s))"

section \<open>Provisioning\<close>

partial_function (option) upsert_loop ::
    "SubscriberStore \<Rightarrow> SubscriberRecord \<Rightarrow> u64 \<Rightarrow> SubscriberStore option" where
  "upsert_loop s rec i =
     (let slot = st_slots s ! unat i in
      if sr_imsi slot = sr_imsi rec then Some (s\<lparr> st_slots := (st_slots s)[unat i := rec] \<rparr>)
      else if sr_imsi slot = 0
      then Some (s\<lparr> st_slots := (st_slots s)[unat i := rec], st_size := st_size s + 1 \<rparr>)
      else upsert_loop s rec ((i + 1) AND st_mask s))"

definition over_load :: "SubscriberStore \<Rightarrow> bool" where
  "over_load s \<longleftrightarrow>
     rnd64 (of_nat (unat (st_size s + 1))) >
     rnd64 (rnd64 (of_nat (length (st_slots s))) * st_max_load_factor s)"

type_synonym upserter = "SubscriberStore \<Rightarrow> SubscriberRecord \<Rightarrow> (SubscriberStore \<times> bool) option"

text \<open>\<^verbatim>\<open>grow\<close> calls \<^verbatim>\<open>upsert\<close> for the live records of the old table, in slot order.\<close>

fun reinsert :: "upserter \<Rightarrow> SubscriberRecord list \<Rightarrow> SubscriberStore \<Rightarrow> SubscriberStore option" where
  "reinsert up [] s = Some s"
| "reinsert up (r # rs) s =
     (if sr_imsi r \<noteq> 0 then do { (s', _) \<leftarrow> up s r; reinsert up rs s' } else reinsert up rs s)"

definition grow :: "upserter \<Rightarrow> SubscriberStore \<Rightarrow> u64 \<Rightarrow> SubscriberStore option" where
  "grow up s new_capacity = reinsert up (st_slots s) (fresh_slots new_capacity s)"

text \<open>
  \<^verbatim>\<open>upsert\<close> and \<^verbatim>\<open>grow\<close> call each other; the number bounds the depth of nested \<^verbatim>\<open>upsert\<close> calls. Depth
  two is enough, because a doubled table takes the old records without growing again.
\<close>

fun upsert_depth :: "nat \<Rightarrow> upserter" where
  "upsert_depth 0 s rec = None"
| "upsert_depth (Suc n) s rec =
     (if sr_imsi rec = 0 then Some (s, False)
      else do {
        s1 \<leftarrow> (if over_load s
               then grow (upsert_depth n) s (of_nat (length (st_slots s)) * 2) else Some s);
        s2 \<leftarrow> upsert_loop s1 rec (st_hash (sr_imsi rec) AND st_mask s1);
        Some (s2, True) })"

definition upsert :: upserter where
  "upsert = upsert_depth 2"

definition add_usage :: "SubscriberStore \<Rightarrow> u64 \<Rightarrow> u64 \<Rightarrow> SubscriberStore option" where
  "add_usage s imsi bytes = do {
     r \<leftarrow> find_mutable s imsi;
     Some (case r of None \<Rightarrow> s
       | Some i \<Rightarrow> s\<lparr> st_slots := (st_slots s)[i := (st_slots s ! i)
           \<lparr> sr_bytes_used_period := sr_bytes_used_period (st_slots s ! i) + bytes \<rparr>] \<rparr>) }"

definition reset_period :: "SubscriberStore \<Rightarrow> u64 \<Rightarrow> u64 \<Rightarrow> (SubscriberStore \<times> bool) option" where
  "reset_period s imsi new_reset_ts = do {
     r \<leftarrow> find_mutable s imsi;
     Some (case r of None \<Rightarrow> (s, False)
       | Some i \<Rightarrow> (s\<lparr> st_slots := (st_slots s)[i := (st_slots s ! i)
           \<lparr> sr_bytes_used_period := 0, sr_period_reset_ts := new_reset_ts \<rparr>] \<rparr>, True)) }"

definition st_for_each :: "SubscriberStore \<Rightarrow> SubscriberRecord list" where
  "st_for_each s = filter (\<lambda>r. sr_imsi r \<noteq> 0) (st_slots s)"

text \<open>Provisioning a list of records, in order, as the loaders do.\<close>

fun upsert_all :: "('s \<Rightarrow> 'r \<Rightarrow> ('s \<times> bool) option) \<Rightarrow> 'r list \<Rightarrow> 's \<Rightarrow> 's option" where
  "upsert_all up [] s = Some s"
| "upsert_all up (r # rs) s = do { (s', _) \<leftarrow> up s r; upsert_all up rs s' }"

section \<open>Statistics\<close>

record StoreStats =
  ss_size :: nat
  ss_capacity :: nat
  ss_memory_bytes :: nat
  ss_load_factor :: rat
  ss_mean_probe_length :: rat
  ss_max_probe_length :: nat

definition probe_length :: "SubscriberStore \<Rightarrow> nat \<Rightarrow> nat" where
  "probe_length s i =
     unat (((of_nat i - (st_hash (sr_imsi (st_slots s ! i)) AND st_mask s)) AND st_mask s) + 1)"

definition live_probes :: "SubscriberStore \<Rightarrow> nat list" where
  "live_probes s =
     map (probe_length s) (filter (\<lambda>i. sr_imsi (st_slots s ! i) \<noteq> 0) [0..<length (st_slots s)])"

definition st_stats :: "SubscriberStore \<Rightarrow> StoreStats" where
  "st_stats s =
     (let size = unat (st_size s); capacity = length (st_slots s);
          total = foldl (+) 0 (live_probes s)
      in \<lparr> ss_size = size, ss_capacity = capacity, ss_memory_bytes = capacity * 64,
           ss_load_factor = (if capacity \<noteq> 0 then rnd64 (rnd64 (of_nat size) / rnd64 (of_nat capacity)) else 0),
           ss_mean_probe_length = (if size \<noteq> 0 then rnd64 (rnd64 (of_nat total) / rnd64 (of_nat size)) else 0),
           ss_max_probe_length = foldl max 0 (live_probes s) \<rparr>)"

section \<open>The invariant\<close>

definition st_keys :: "SubscriberStore \<Rightarrow> u64 list" where
  "st_keys s = map sr_imsi (st_slots s)"

definition load_ok :: "rat \<Rightarrow> bool" where
  "load_ok lf \<longleftrightarrow> 1 / 4 \<le> lf \<and> lf \<le> rnd64 (9 / 10) \<and> rnd64 lf = lf"

definition table_ok :: "nat \<Rightarrow> SubscriberStore \<Rightarrow> bool" where
  "table_ok k s \<longleftrightarrow>
     3 \<le> k \<and> k \<le> 60 \<and> probe_table st_hash k (st_keys s) \<and> st_mask s = mask k \<and>
     unat (st_size s) = used_slots (st_keys s) \<and> load_ok (st_max_load_factor s)"

definition store_ok :: "nat \<Rightarrow> SubscriberStore \<Rightarrow> bool" where
  "store_ok k s \<longleftrightarrow>
     table_ok k s \<and> rnd64 (of_nat (used_slots (st_keys s))) \<le> 2 ^ k * st_max_load_factor s"

text \<open>The abstract view: the map from IMSIs to records.\<close>

definition store_map :: "SubscriberStore \<Rightarrow> u64 \<rightharpoonup> SubscriberRecord" where
  "store_map s x = (if x = 0 then None else map_of (map (\<lambda>r. (sr_imsi r, r)) (st_slots s)) x)"

lemma rnd64_nine_tenths: "rnd64 (9 / 10) = 8106479329266893 / 9007199254740992"
proof -
  have "ilog2 (9 / 10) = - 1" by (rule ilog2_eqI) simp_all
  moreover have "\<lfloor>40532396646334464 / 5 :: rat\<rfloor> = 8106479329266892" by (simp add: floor_eq_iff)
  ultimately show ?thesis
    by (simp add: rnd64_pos ulp_exp_def round_even_def Let_def power_int_minus)
qed

lemma load_ok_less_one: "load_ok lf \<Longrightarrow> 0 < lf \<and> lf < 1"
  by (simp add: load_ok_def rnd64_nine_tenths)

lemma load_ok_scale: "load_ok lf \<Longrightarrow> rnd64 (2 ^ k * lf) = 2 ^ k * lf"
  using rnd64_scale [of lf "int k"] powi_le_iff [of "- 1022" "- 2"]
  by (simp add: load_ok_def power_int_minus)

lemma rnd64_two_power: "rnd64 (2 ^ k) = 2 ^ k"
  using rnd64_pow2 [of "int k"] by simp

lemma table_length: "table_ok k s \<Longrightarrow> length (st_slots s) = 2 ^ k"
  by (simp add: table_ok_def probe_table_def st_keys_def)

lemma over_load_iff:
  assumes "table_ok k s" "used_slots (st_keys s) \<le> 2 ^ k"
  shows "over_load s \<longleftrightarrow> 2 ^ k * st_max_load_factor s < rnd64 (of_nat (Suc (used_slots (st_keys s))))"
proof -
  have "(2 :: nat) ^ k \<le> 2 ^ 60" using assms(1) by (intro power_increasing) (auto simp: table_ok_def)
  then have "unat (st_size s + 1) = Suc (used_slots (st_keys s))"
    using assms by (simp add: table_ok_def unat_word_ariths)
  then show ?thesis
    using assms(1) load_ok_scale [of "st_max_load_factor s" k] table_length [OF assms(1)]
    by (simp add: over_load_def rnd64_two_power table_ok_def del: of_nat_Suc)
qed

lemma store_room:
  assumes "load_ok lf" "rnd64 (of_nat n) \<le> 2 ^ k * lf"
  shows "n < 2 ^ k"
proof (rule ccontr)
  assume "\<not> n < 2 ^ k"
  then have "(of_nat (2 ^ k) :: rat) \<le> of_nat n" by (simp only: of_nat_le_iff not_less)
  then have "rnd64 (2 ^ k) \<le> rnd64 (of_nat n)" by (intro rnd64_mono) simp_all
  then have "(2 :: rat) ^ k * 1 \<le> 2 ^ k * lf" using assms(2) unfolding rnd64_two_power by linarith
  then show False using load_ok_less_one [OF assms(1)] by simp
qed

lemma rnd64_of_nat_mono: "m \<le> n \<Longrightarrow> rnd64 (of_nat m) \<le> rnd64 (of_nat n)"
  by (intro rnd64_mono) simp_all

section \<open>Lookup\<close>

lemma nth_st_keys: "i < length (st_slots s) \<Longrightarrow> st_keys s ! i = sr_imsi (st_slots s ! i)"
  by (simp add: st_keys_def)

lemma map_of_key_iff:
  assumes "\<And>i j. i < length rs \<Longrightarrow> j < length rs \<Longrightarrow> f (rs ! i) = x \<Longrightarrow> f (rs ! j) = x \<Longrightarrow> i = j"
  shows "map_of (map (\<lambda>r. (f r, r)) rs) x = Some r \<longleftrightarrow> (\<exists>i < length rs. rs ! i = r \<and> f r = x)"
  using assms
proof (induction rs)
  case (Cons r' rs)
  have IH: "map_of (map (\<lambda>r. (f r, r)) rs) x = Some r \<longleftrightarrow> (\<exists>i < length rs. rs ! i = r \<and> f r = x)"
  proof (rule Cons.IH)
    fix i j
    assume "i < length rs" "j < length rs" "f (rs ! i) = x" "f (rs ! j) = x"
    then show "i = j" using Cons.prems [of "Suc i" "Suc j"] by simp
  qed
  have "f (rs ! i) \<noteq> x" if "f r' = x" "i < length rs" for i
    using Cons.prems [of 0 "Suc i"] that by auto
  then show ?case
    using IH by (auto simp: less_Suc_eq_0_disj)
qed simp

lemma store_map_iff:
  assumes "probe_table st_hash k (st_keys s)"
  shows "store_map s x = Some r \<longleftrightarrow> x \<noteq> 0 \<and> (\<exists>i < 2 ^ k. st_slots s ! i = r \<and> sr_imsi r = x)"
proof (cases "x = 0")
  case False
  have len: "length (st_slots s) = 2 ^ k"
    using assms by (simp add: probe_table_def st_keys_def)
  have "i = j" if "i < 2 ^ k" "j < 2 ^ k" "sr_imsi (st_slots s ! i) = x" "sr_imsi (st_slots s ! j) = x" for i j
    using that False probe_table_distinct [OF assms, of i j] by (simp add: nth_st_keys len)
  then show ?thesis
    using map_of_key_iff [of "st_slots s" sr_imsi x r] False by (simp add: store_map_def len)
qed (simp add: store_map_def)

lemma find_returns:
  assumes "table_ok k s" "stops_at k (st_keys s) (st_hash x) x d" "x \<noteq> 0"
  shows "st_find s x = Some (let r = st_slots s ! slot_at k (st_hash x) d in
           if sr_imsi r = x then Some r else None)"
    and "find_mutable s x = Some (let i = slot_at k (st_hash x) d in
           if sr_imsi (st_slots s ! i) = x then Some i else None)"
proof -
  let ?key = "\<lambda>i :: u64. sr_imsi (st_slots s ! unat i)"
  let ?res1 = "\<lambda>i :: u64. if ?key i = x then Some (st_slots s ! unat i) else None"
  let ?res2 = "\<lambda>i :: u64. if ?key i = x then Some (unat i) else None"
  have k: "k < 64" and m: "st_mask s = mask k" using assms(1) by (simp_all add: table_ok_def)
  have key: "?key i = st_keys s ! unat i" if "unat i < 2 ^ k" for i
    using that table_length [OF assms(1)] by (simp add: nth_st_keys)
  have "find_loop s x i =
      (if ?key i = 0 \<or> ?key i = x then Some (?res1 i) else find_loop s x (next_slot (mask k) i))" for i
    by (subst find_loop.simps) (simp add: next_slot_def Let_def m)
  from probe_loop_returns [where loop = "find_loop s x" and res = ?res1, OF this key k assms(2)]
  show "st_find s x = Some (let r = st_slots s ! slot_at k (st_hash x) d in
           if sr_imsi r = x then Some r else None)"
    using assms(3) by (auto simp: st_find_def m Let_def)
  have "find_mutable_loop s x i =
      (if ?key i = 0 \<or> ?key i = x then Some (?res2 i) else find_mutable_loop s x (next_slot (mask k) i))" for i
    by (subst find_mutable_loop.simps) (simp add: next_slot_def Let_def m)
  from probe_loop_returns [where loop = "find_mutable_loop s x" and res = ?res2, OF this key k assms(2)]
  show "find_mutable s x = Some (let i = slot_at k (st_hash x) d in
           if sr_imsi (st_slots s ! i) = x then Some i else None)"
    using assms(3) by (auto simp: find_mutable_def m Let_def)
qed

lemma find_map:
  assumes "table_ok k s" "used_slots (st_keys s) < 2 ^ k"
  shows "st_find s x = Some (store_map s x)"
proof (cases "x = 0")
  case True
  then show ?thesis by (simp add: st_find_def store_map_def)
next
  case False
  have tab: "probe_table st_hash k (st_keys s)" "length (st_keys s) = 2 ^ k"
    using assms(1) by (simp_all add: table_ok_def probe_table_def)
  obtain d where d: "stops_at k (st_keys s) (st_hash x) x d"
    using probe_stops [OF tab(2) assms(2)] by blast
  let ?i = "slot_at k (st_hash x) d"
  have i: "st_keys s ! ?i = sr_imsi (st_slots s ! ?i)"
    using tab(2) by (simp add: nth_st_keys st_keys_def)
  show ?thesis
  proof (cases "sr_imsi (st_slots s ! ?i) = x")
    case True
    then have "store_map s x = Some (st_slots s ! ?i)"
      using False store_map_iff [OF tab(1)] slot_at_less by blast
    then show ?thesis
      using True find_returns(1) [OF assms(1) d False] by (simp add: Let_def)
  next
    case neq: False
    then have "x \<notin> set (st_keys s)"
      using probe_member [OF tab(1) d False] i by simp
    then have "store_map s x = None"
      by (auto simp: store_map_def st_keys_def map_of_eq_None_iff)
    then show ?thesis
      using neq find_returns(1) [OF assms(1) d False] by (simp add: Let_def)
  qed
qed

section \<open>Placing a record\<close>

lemma store_map_place:
  assumes "probe_table st_hash k (st_keys s)" "probe_table st_hash k (st_keys s')"
    and "st_slots s' = (st_slots s)[j := rec]" "j < 2 ^ k"
    and "st_keys s ! j = 0 \<or> st_keys s ! j = sr_imsi rec" "sr_imsi rec \<noteq> 0"
  shows "store_map s' = (store_map s)(sr_imsi rec \<mapsto> rec)"
proof
  fix y
  have len: "length (st_slots s) = 2 ^ k"
    using assms(1) by (simp add: probe_table_def st_keys_def)
  have nth: "st_slots s' ! i = (if i = j then rec else st_slots s ! i)" if "i < 2 ^ k" for i
    using that assms(3) by (simp add: len nth_list_update)
  show "store_map s' y = ((store_map s)(sr_imsi rec \<mapsto> rec)) y"
  proof (cases "y = sr_imsi rec")
    case True
    then have "store_map s' y = Some rec"
      using assms(4,6) nth [of j] store_map_iff [OF assms(2)] by auto
    then show ?thesis using True by simp
  next
    case False
    have "sr_imsi (st_slots s ! j) = 0 \<or> sr_imsi (st_slots s ! j) = sr_imsi rec"
      using assms(4,5) by (simp add: nth_st_keys len)
    then have "store_map s' y = Some r \<longleftrightarrow> store_map s y = Some r" for r
      unfolding store_map_iff [OF assms(1)] store_map_iff [OF assms(2)]
      using False nth by (metis (no_types, lifting))
    then have "store_map s' y = store_map s y" by (metis not_Some_eq)
    then show ?thesis using False by simp
  qed
qed

declare upsert_depth.simps(2) [simp del]

lemma upsert_loop_returns:
  assumes "table_ok k s" "stops_at k (st_keys s) (st_hash (sr_imsi rec)) (sr_imsi rec) d" "sr_imsi rec \<noteq> 0"
  shows "upsert_loop s rec (st_hash (sr_imsi rec) AND st_mask s) =
    (let j = slot_at k (st_hash (sr_imsi rec)) d in
     Some (if st_keys s ! j = sr_imsi rec then s\<lparr> st_slots := (st_slots s)[j := rec] \<rparr>
           else s\<lparr> st_slots := (st_slots s)[j := rec], st_size := st_size s + 1 \<rparr>))"
proof -
  let ?key = "\<lambda>i :: u64. sr_imsi (st_slots s ! unat i)"
  let ?res = "\<lambda>i :: u64. if ?key i = sr_imsi rec then s\<lparr> st_slots := (st_slots s)[unat i := rec] \<rparr>
           else s\<lparr> st_slots := (st_slots s)[unat i := rec], st_size := st_size s + 1 \<rparr>"
  have k: "k < 64" and m: "st_mask s = mask k" using assms(1) by (simp_all add: table_ok_def)
  have key: "?key i = st_keys s ! unat i" if "unat i < 2 ^ k" for i
    using that table_length [OF assms(1)] by (simp add: nth_st_keys)
  have "upsert_loop s rec i =
      (if ?key i = 0 \<or> ?key i = sr_imsi rec then Some (?res i) else upsert_loop s rec (next_slot (mask k) i))" for i
    by (subst upsert_loop.simps) (simp add: next_slot_def Let_def m)
  from probe_loop_returns [where loop = "upsert_loop s rec" and res = ?res, OF this key k assms(2)]
  obtain j where j: "unat j = slot_at k (st_hash (sr_imsi rec)) d"
    "upsert_loop s rec (st_hash (sr_imsi rec) AND mask k) = Some (?res j)"
    by blast
  then show ?thesis
    using key [of j] by (simp add: m Let_def)
qed

lemma upsert_loop_ok:
  assumes "table_ok k s" "used_slots (st_keys s) < 2 ^ k" "sr_imsi rec \<noteq> 0"
  shows "\<exists>s'. upsert_loop s rec (st_hash (sr_imsi rec) AND st_mask s) = Some s' \<and> table_ok k s' \<and>
            store_map s' = (store_map s)(sr_imsi rec \<mapsto> rec) \<and>
            used_slots (st_keys s') =
              used_slots (st_keys s) + (if sr_imsi rec \<in> set (st_keys s) then 0 else 1) \<and>
            set (st_keys s') - {0} = insert (sr_imsi rec) (set (st_keys s) - {0}) \<and>
            st_max_load_factor s' = st_max_load_factor s"
proof -
  let ?x = "sr_imsi rec"
  have tab: "probe_table st_hash k (st_keys s)" "length (st_keys s) = 2 ^ k" "k \<le> 60"
    "length (st_slots s) = 2 ^ k"
    using assms(1) table_length [OF assms(1)] by (simp_all add: table_ok_def st_keys_def)
  obtain d where d: "stops_at k (st_keys s) (st_hash ?x) ?x d"
    using probe_stops [OF tab(2) assms(2)] by blast
  let ?j = "slot_at k (st_hash ?x) d"
  have j: "?j < length (st_keys s)" by (simp add: tab(2))
  note ret = upsert_loop_returns [OF assms(1) d assms(3), unfolded Let_def]
  note mem = probe_member [OF tab(1) d assms(3)]
  show ?thesis
  proof (cases "st_keys s ! ?j = ?x")
    case True
    let ?s = "s\<lparr> st_slots := (st_slots s)[?j := rec] \<rparr>"
    have keys: "st_keys ?s = st_keys s"
      using True j by (simp add: st_keys_def map_update list_update_same_conv)
    then have "table_ok k ?s" using assms(1) by (simp add: table_ok_def)
    moreover have "store_map ?s = (store_map s)(?x \<mapsto> rec)"
      using tab(1) True assms(3) by (intro store_map_place [of k _ _ ?j]) (simp_all add: keys)
    moreover have "set (st_keys s) - {0} = insert ?x (set (st_keys s) - {0})"
      using mem True assms(3) by auto
    ultimately show ?thesis
      using ret True mem by (intro exI [of _ ?s]) (simp add: keys)
  next
    case False
    then have zero: "st_keys s ! ?j = 0" using d by (auto simp: stops_at_def)
    let ?s = "s\<lparr> st_slots := (st_slots s)[?j := rec], st_size := st_size s + 1 \<rparr>"
    have keys: "st_keys ?s = (st_keys s)[?j := ?x]" by (simp add: st_keys_def map_update)
    have probe: "probe_table st_hash k (st_keys ?s)"
      unfolding keys by (rule probe_table_fill [OF tab(1) d zero assms(3)])
    have used: "used_slots (st_keys ?s) = Suc (used_slots (st_keys s))"
      unfolding keys using j zero assms(3) by (rule used_slots_fill)
    have "(2 :: nat) ^ k \<le> 2 ^ 60" using tab(3) by (intro power_increasing) auto
    then have "unat (st_size s + 1) = Suc (used_slots (st_keys s))"
      using assms(1,2) by (simp add: table_ok_def unat_word_ariths)
    then have "table_ok k ?s" using assms(1) probe used by (simp add: table_ok_def)
    moreover have "store_map ?s = (store_map s)(?x \<mapsto> rec)"
      using tab(1) probe zero assms(3) by (intro store_map_place [of k _ _ ?j]) simp_all
    moreover have "set (st_keys ?s) - {0} = insert ?x (set (st_keys s) - {0})"
      using set_fill [OF j zero, of ?x] assms(3) by (simp add: keys)
    ultimately show ?thesis
      using ret False mem used by (intro exI [of _ ?s]) simp
  qed
qed

section \<open>Growing\<close>

lemma upsert_depth_place:
  assumes "store_ok k s" "sr_imsi rec \<noteq> 0" "\<not> over_load s"
  shows "\<exists>s'. upsert_depth (Suc n) s rec = Some (s', True) \<and> store_ok k s' \<and>
            store_map s' = (store_map s)(sr_imsi rec \<mapsto> rec) \<and>
            used_slots (st_keys s') \<le> Suc (used_slots (st_keys s)) \<and>
            set (st_keys s') - {0} = insert (sr_imsi rec) (set (st_keys s) - {0}) \<and>
            st_max_load_factor s' = st_max_load_factor s"
proof -
  have tab: "table_ok k s" "load_ok (st_max_load_factor s)"
    using assms(1) by (simp_all add: store_ok_def table_ok_def)
  have room: "used_slots (st_keys s) < 2 ^ k"
    using assms(1) store_room [OF tab(2)] by (simp add: store_ok_def)
  obtain s' where s': "upsert_loop s rec (st_hash (sr_imsi rec) AND st_mask s) = Some s'" "table_ok k s'"
    "store_map s' = (store_map s)(sr_imsi rec \<mapsto> rec)"
    "used_slots (st_keys s') = used_slots (st_keys s) + (if sr_imsi rec \<in> set (st_keys s) then 0 else 1)"
    "set (st_keys s') - {0} = insert (sr_imsi rec) (set (st_keys s) - {0})"
    "st_max_load_factor s' = st_max_load_factor s"
    using upsert_loop_ok [OF tab(1) room assms(2)] by blast
  have le: "used_slots (st_keys s') \<le> Suc (used_slots (st_keys s))" using s'(4) by simp
  have "rnd64 (of_nat (Suc (used_slots (st_keys s)))) \<le> 2 ^ k * st_max_load_factor s"
    using assms(3) over_load_iff [OF tab(1)] room by simp
  then have "store_ok k s'"
    using rnd64_of_nat_mono [OF le] s'(2,6) by (simp add: store_ok_def)
  then show ?thesis
    using s' le assms(2,3) by (intro exI [of _ s']) (simp add: upsert_depth.simps)
qed

lemma reinsert_ok:
  assumes "store_ok k s"
    and "rnd64 (of_nat (used_slots (st_keys s) + length (filter (\<lambda>r. sr_imsi r \<noteq> 0) rs))) \<le>
      2 ^ k * st_max_load_factor s"
  shows "\<exists>s'. reinsert (upsert_depth (Suc n)) rs s = Some s' \<and> store_ok k s' \<and>
            store_map s' = fold (\<lambda>r m. m(sr_imsi r \<mapsto> r)) (filter (\<lambda>r. sr_imsi r \<noteq> 0) rs) (store_map s) \<and>
            set (st_keys s') - {0} = (set (st_keys s) \<union> sr_imsi ` set rs) - {0} \<and>
            st_max_load_factor s' = st_max_load_factor s"
  using assms
proof (induction rs arbitrary: s)
  case Nil
  then show ?case by simp
next
  case (Cons r rs)
  show ?case
  proof (cases "sr_imsi r = 0")
    case True
    then show ?thesis
      using Cons.IH [OF Cons.prems(1)] Cons.prems(2) by auto
  next
    case False
    let ?u = "used_slots (st_keys s)"
    let ?live = "\<lambda>rs. length (filter (\<lambda>r. sr_imsi r \<noteq> 0) rs)"
    have tab: "table_ok k s" "?u < 2 ^ k"
      using Cons.prems(1) store_room by (auto simp: store_ok_def table_ok_def)
    have "\<not> over_load s"
      using over_load_iff [OF tab(1)] tab(2) Cons.prems(2)
        rnd64_of_nat_mono [of "Suc ?u" "?u + ?live (r # rs)"] False by simp
    then obtain s1 where s1: "upsert_depth (Suc n) s r = Some (s1, True)" "store_ok k s1"
      "store_map s1 = (store_map s)(sr_imsi r \<mapsto> r)" "used_slots (st_keys s1) \<le> Suc ?u"
      "set (st_keys s1) - {0} = insert (sr_imsi r) (set (st_keys s) - {0})"
      "st_max_load_factor s1 = st_max_load_factor s"
      using upsert_depth_place [OF Cons.prems(1) False] by blast
    have "rnd64 (of_nat (used_slots (st_keys s1) + ?live rs)) \<le> 2 ^ k * st_max_load_factor s1"
      using Cons.prems(2) s1(4,6) rnd64_of_nat_mono [of "used_slots (st_keys s1) + ?live rs"
          "?u + ?live (r # rs)"] False by simp
    then obtain s2 where s2: "reinsert (upsert_depth (Suc n)) rs s1 = Some s2" "store_ok k s2"
      "store_map s2 = fold (\<lambda>r m. m(sr_imsi r \<mapsto> r)) (filter (\<lambda>r. sr_imsi r \<noteq> 0) rs) (store_map s1)"
      "set (st_keys s2) - {0} = (set (st_keys s1) \<union> sr_imsi ` set rs) - {0}"
      "st_max_load_factor s2 = st_max_load_factor s1"
      using Cons.IH [OF s1(2)] by blast
    have "set (st_keys s2) - {0} = (set (st_keys s) \<union> sr_imsi ` set (r # rs)) - {0}"
      using False by (simp add: s2(4) Un_Diff s1(5) insert_Diff_if)
    then show ?thesis
      using s1(1,3,6) s2 False by (intro exI [of _ s2]) (simp del: fun_upd_apply)
  qed
qed


lemma fold_upd_map:
  "distinct (map f xs) \<Longrightarrow> fold (\<lambda>r m. m(f r \<mapsto> r)) xs m = m ++ map_of (map (\<lambda>r. (f r, r)) xs)"
proof (induction xs arbitrary: m)
  case (Cons x xs)
  have "(m(f x \<mapsto> x) ++ map_of (map (\<lambda>r. (f r, r)) xs)) = m ++ (map_of (map (\<lambda>r. (f r, r)) xs))(f x \<mapsto> x)"
  proof -
    have "map_of (map (\<lambda>r. (f r, r)) xs) (f x) = None"
      using Cons.prems by (auto simp: map_of_eq_None_iff)
    then show ?thesis by (auto simp: map_add_def split: option.splits)
  qed
  with Cons show ?case by (simp del: fun_upd_apply)
qed simp

lemma map_of_live:
  "x \<noteq> 0 \<Longrightarrow> map_of (map (\<lambda>r. (sr_imsi r, r)) (filter (\<lambda>r. sr_imsi r \<noteq> 0) rs)) x =
     map_of (map (\<lambda>r. (sr_imsi r, r)) rs) x"
  by (induction rs) auto

lemma live_keys: "map sr_imsi (filter (\<lambda>r. sr_imsi r \<noteq> 0) rs) = filter (\<lambda>x. x \<noteq> 0) (map sr_imsi rs)"
  by (induction rs) auto

lemma store_map_fold:
  assumes "probe_table st_hash k (st_keys s)"
  shows "fold (\<lambda>r m. m(sr_imsi r \<mapsto> r)) (filter (\<lambda>r. sr_imsi r \<noteq> 0) (st_slots s)) Map.empty = store_map s"
proof -
  have "distinct (map sr_imsi (filter (\<lambda>r. sr_imsi r \<noteq> 0) (st_slots s)))"
    using probe_table_live(1) [OF assms] by (simp add: live_keys st_keys_def)
  then have "fold (\<lambda>r m. m(sr_imsi r \<mapsto> r)) (filter (\<lambda>r. sr_imsi r \<noteq> 0) (st_slots s)) Map.empty =
      map_of (map (\<lambda>r. (sr_imsi r, r)) (filter (\<lambda>r. sr_imsi r \<noteq> 0) (st_slots s)))"
    by (simp add: fold_upd_map)
  also have "\<dots> = store_map s"
  proof
    fix x
    show "map_of (map (\<lambda>r. (sr_imsi r, r)) (filter (\<lambda>r. sr_imsi r \<noteq> 0) (st_slots s))) x = store_map s x"
      by (cases "x = 0") (auto simp: store_map_def map_of_live map_of_eq_None_iff)
  qed
  finally show ?thesis .
qed

lemma fresh_ok:
  assumes "3 \<le> k" "k \<le> 60" "load_ok (st_max_load_factor s)"
  shows "store_ok k (fresh_slots (2 ^ k) s)" "store_map (fresh_slots (2 ^ k) s) = Map.empty"
    and "used_slots (st_keys (fresh_slots (2 ^ k) s)) = 0"
    and "set (st_keys (fresh_slots (2 ^ k) s)) - {0} = {}"
    and "st_max_load_factor (fresh_slots (2 ^ k) s) = st_max_load_factor s"
proof -
  have "unat ((2 :: u64) ^ k) = 2 ^ k" using assms(2) by (intro unat_pow2) simp
  then have keys: "st_keys (fresh_slots (2 ^ k) s) = replicate (2 ^ k) 0"
    by (simp add: st_keys_def fresh_slots_def empty_record_def)
  show "used_slots (st_keys (fresh_slots (2 ^ k) s)) = 0" "set (st_keys (fresh_slots (2 ^ k) s)) - {0} = {}"
    by (simp_all add: keys)
  show "st_max_load_factor (fresh_slots (2 ^ k) s) = st_max_load_factor s"
    by (simp add: fresh_slots_def)
  then show "store_ok k (fresh_slots (2 ^ k) s)"
    using assms load_ok_less_one [OF assms(3)] probe_table_empty [of st_hash k]
    by (simp add: store_ok_def table_ok_def keys pow2_minus_one) (simp add: fresh_slots_def pow2_minus_one)
  show "store_map (fresh_slots (2 ^ k) s) = Map.empty"
    by (auto simp: store_map_def fresh_slots_def empty_record_def map_of_eq_None_iff fun_eq_iff)
qed

lemma grow_ok:
  assumes "store_ok k s" "k < 60"
  shows "\<exists>s'. grow (upsert_depth (Suc n)) s (of_nat (length (st_slots s)) * 2) = Some s' \<and>
            store_ok (Suc k) s' \<and> store_map s' = store_map s \<and>
            set (st_keys s') - {0} = set (st_keys s) - {0} \<and>
            st_max_load_factor s' = st_max_load_factor s"
proof -
  have tab: "table_ok k s" "load_ok (st_max_load_factor s)" "3 \<le> k" "probe_table st_hash k (st_keys s)"
    using assms(1) by (simp_all add: store_ok_def table_ok_def)
  have cap: "of_nat (length (st_slots s)) * 2 = (2 ^ Suc k :: u64)"
    by (simp add: table_length [OF tab(1)])
  have "3 \<le> Suc k" "Suc k \<le> 60" using tab(3) assms(2) by simp_all
  note fresh = fresh_ok [OF this tab(2)]
  have live: "length (filter (\<lambda>r. sr_imsi r \<noteq> 0) (st_slots s)) = used_slots (st_keys s)"
    by (simp add: used_slots_def st_keys_def live_keys [symmetric])
  have "0 \<le> (2 :: rat) ^ k * st_max_load_factor s"
    using load_ok_less_one [OF tab(2)] by simp
  then have "rnd64 (of_nat (used_slots (st_keys s))) \<le> 2 ^ Suc k * st_max_load_factor s"
    using assms(1) unfolding store_ok_def power_Suc by linarith
  then obtain s' where s': "reinsert (upsert_depth (Suc n)) (st_slots s) (fresh_slots (2 ^ Suc k) s) = Some s'"
    "store_ok (Suc k) s'" "store_map s' = store_map s"
    "set (st_keys s') - {0} = (set (st_keys (fresh_slots (2 ^ Suc k) s)) \<union> set (st_keys s)) - {0}"
    "st_max_load_factor s' = st_max_load_factor s"
    using reinsert_ok [OF fresh(1), of "st_slots s" n] store_map_fold [OF tab(4)] fresh(2,3,5) live
    by (auto simp: st_keys_def)
  have "set (st_keys s') - {0} = set (st_keys s) - {0}"
    by (simp only: s'(4) Un_Diff fresh(4)) simp
  then show ?thesis
    using s' unfolding grow_def cap by blast
qed

lemma rnd64_double: "rnd64 (of_nat (2 * n)) = 2 * rnd64 (of_nat n)"
proof (cases "n = 0")
  case False
  have "(2 :: rat) powi (- 1022) \<le> 2 powi 0" by (simp only: powi_le_iff)
  also have "\<dots> \<le> of_nat n" using False by simp
  finally have "(2 :: rat) powi (- 1022) \<le> of_nat n" .
  then show ?thesis using rnd64_scale [of "of_nat n" 1] by simp
qed simp

lemma no_over_load_after_grow:
  assumes "store_ok (Suc k) s" "3 \<le> k"
    and "rnd64 (of_nat (used_slots (st_keys s))) \<le> 2 ^ k * st_max_load_factor s"
  shows "\<not> over_load s"
proof -
  let ?u = "used_slots (st_keys s)" and ?lf = "st_max_load_factor s"
  have tab: "table_ok (Suc k) s" "load_ok ?lf" using assms(1) by (simp_all add: store_ok_def table_ok_def)
  have u: "?u < 2 ^ Suc k" using assms(1) store_room [OF tab(2)] unfolding store_ok_def by blast
  have "rnd64 (of_nat (Suc ?u)) \<le> 2 ^ Suc k * ?lf"
  proof (cases "?u = 0")
    case True
    have "(1 :: rat) \<le> 2 ^ Suc k * (1 / 4)"
      using assms(2) power_increasing [of 3 k "2 :: rat"] by simp
    also have "\<dots> \<le> 2 ^ Suc k * ?lf" using tab(2) by (intro mult_left_mono) (auto simp: load_ok_def)
    finally show ?thesis using True rnd64_of_nat [of 1] by simp
  next
    case False
    then have "rnd64 (of_nat (Suc ?u)) \<le> rnd64 (of_nat (2 * ?u))" by (intro rnd64_of_nat_mono) simp
    also have "\<dots> \<le> 2 ^ Suc k * ?lf" using assms(3) by (simp only: rnd64_double power_Suc)
    finally show ?thesis .
  qed
  then show ?thesis using over_load_iff [OF tab(1)] u by simp
qed

lemma used_slots_card: "probe_table st_hash k (st_keys s) \<Longrightarrow> used_slots (st_keys s) = card (set (st_keys s) - {0})"
  by (rule probe_table_live)

lemma upsert_depth_ok:
  assumes "store_ok k s" "k < 60" "sr_imsi rec \<noteq> 0"
  shows "\<exists>s' k'. upsert_depth (Suc (Suc n)) s rec = Some (s', True) \<and> store_ok k' s' \<and>
            k' = (if over_load s then Suc k else k) \<and>
            store_map s' = (store_map s)(sr_imsi rec \<mapsto> rec) \<and>
            set (st_keys s') - {0} = insert (sr_imsi rec) (set (st_keys s) - {0}) \<and>
            st_max_load_factor s' = st_max_load_factor s"
proof (cases "over_load s")
  case False
  then show ?thesis
    using upsert_depth_place [OF assms(1,3) False, of "Suc n"] by auto
next
  case True
  have tab: "3 \<le> k" "probe_table st_hash k (st_keys s)"
    using assms(1) by (simp_all add: store_ok_def table_ok_def)
  obtain s1 where s1: "grow (upsert_depth (Suc n)) s (of_nat (length (st_slots s)) * 2) = Some s1"
    "store_ok (Suc k) s1" "store_map s1 = store_map s" "set (st_keys s1) - {0} = set (st_keys s) - {0}"
    "st_max_load_factor s1 = st_max_load_factor s"
    using grow_ok [OF assms(1,2), of n] by blast
  have "probe_table st_hash (Suc k) (st_keys s1)" using s1(2) by (simp add: store_ok_def table_ok_def)
  then have "used_slots (st_keys s1) = used_slots (st_keys s)"
    using tab(2) s1(4) by (simp add: used_slots_card)
  then have "\<not> over_load s1"
    using assms(1) s1(2,5) tab(1) by (intro no_over_load_after_grow) (auto simp: store_ok_def)
  then obtain s2 where s2: "upsert_depth (Suc n) s1 rec = Some (s2, True)" "store_ok (Suc k) s2"
    "store_map s2 = (store_map s1)(sr_imsi rec \<mapsto> rec)"
    "set (st_keys s2) - {0} = insert (sr_imsi rec) (set (st_keys s1) - {0})"
    "st_max_load_factor s2 = st_max_load_factor s1"
    using upsert_depth_place [OF s1(2) assms(3)] by blast
  have "upsert_depth (Suc (Suc n)) s rec = upsert_depth (Suc n) s1 rec"
    using True s1(1) assms(3) \<open>\<not> over_load s1\<close> by (simp add: upsert_depth.simps)
  then show ?thesis
    using True s1 s2 by auto
qed

section \<open>The store as a map\<close>

text \<open>IMSIs have at most 15 digits, which bounds the number of records and with it the table.\<close>

definition imsi_ok :: "u64 \<Rightarrow> bool" where
  "imsi_ok x \<longleftrightarrow> x \<noteq> 0 \<and> unat x < 10 ^ 15"

definition store_inv :: "SubscriberStore \<Rightarrow> bool" where
  "store_inv s \<longleftrightarrow> (\<exists>k. store_ok k s) \<and> (\<forall>x \<in> set (st_keys s) - {0}. imsi_ok x)"

lemma card_imsis: "\<forall>x \<in> A. imsi_ok x \<Longrightarrow> card A \<le> 10 ^ 15"
proof -
  assume "\<forall>x \<in> A. imsi_ok x"
  then have "unat ` A \<subseteq> {..<10 ^ 15}" by (auto simp: imsi_ok_def)
  then have "card A \<le> card {..<10 ^ 15 :: nat}"
    by (intro card_inj_on_le [of unat]) (auto simp: inj_on_def word_unat_eq_iff)
  then show ?thesis by simp
qed

lemma store_inv_grow_room:
  assumes "store_ok k s" "\<forall>x \<in> set (st_keys s) - {0}. imsi_ok x" "over_load s"
  shows "k < 60"
proof (rule ccontr)
  assume "\<not> k < 60"
  let ?lf = "st_max_load_factor s"
  have tab: "table_ok k s" "load_ok ?lf" "probe_table st_hash k (st_keys s)"
    using assms(1) by (simp_all add: store_ok_def table_ok_def)
  have u: "used_slots (st_keys s) < 2 ^ k"
    using assms(1) store_room [OF tab(2)] by (simp add: store_ok_def)
  have "used_slots (st_keys s) \<le> 10 ^ 15"
    using card_imsis [OF assms(2)] by (simp add: used_slots_card [OF tab(3)])
  then have "rnd64 (of_nat (Suc (used_slots (st_keys s)))) \<le> rnd64 (of_nat (10 ^ 15 + 1))"
    by (intro rnd64_of_nat_mono) simp
  then have "2 ^ k * ?lf < rnd64 (of_nat (10 ^ 15 + 1))"
    using assms(3) over_load_iff [OF tab(1)] u by simp
  also have "\<dots> = 10 ^ 15 + 1" by (subst rnd64_of_nat) simp_all
  finally have "2 ^ k * ?lf < 10 ^ 15 + 1" .
  moreover have "(2 :: rat) ^ 60 * (1 / 4) \<le> 2 ^ k * ?lf"
    using \<open>\<not> k < 60\<close> tab(2) by (intro mult_mono power_increasing) (auto simp: load_ok_def)
  ultimately show False by simp
qed

lemma upsert_map:
  assumes "store_inv s" "imsi_ok (sr_imsi rec)"
  shows "\<exists>s'. upsert s rec = Some (s', True) \<and> store_inv s' \<and>
              store_map s' = (store_map s)(sr_imsi rec \<mapsto> rec)"
proof -
  obtain k where k: "store_ok k s" and keys: "\<forall>x \<in> set (st_keys s) - {0}. imsi_ok x"
    using assms(1) by (auto simp: store_inv_def)
  have x: "sr_imsi rec \<noteq> 0" using assms(2) by (simp add: imsi_ok_def)
  obtain s' k' where "upsert s rec = Some (s', True)" "store_ok k' s'"
    "store_map s' = (store_map s)(sr_imsi rec \<mapsto> rec)"
    "set (st_keys s') - {0} = insert (sr_imsi rec) (set (st_keys s) - {0})"
  proof (cases "over_load s")
    case True
    then show thesis
      using that upsert_depth_ok [OF k store_inv_grow_room [OF k keys True] x, of 0]
      by (auto simp: upsert_def numeral_2_eq_2)
  next
    case False
    then show thesis
      using that upsert_depth_place [OF k x False, of 1] by (auto simp: upsert_def numeral_2_eq_2)
  qed
  then show ?thesis
    using keys assms(2) by (auto simp: store_inv_def)
qed

lemma find_store_map:
  assumes "store_inv s"
  shows "st_find s x = Some (store_map s x)"
proof -
  obtain k where k: "store_ok k s" using assms by (auto simp: store_inv_def)
  then have tab: "table_ok k s" "load_ok (st_max_load_factor s)" by (simp_all add: store_ok_def table_ok_def)
  then show ?thesis
    using k store_room [OF tab(2)] by (intro find_map) (auto simp: store_ok_def)
qed

text \<open>An update of a record in place that keeps its key.\<close>

lemma find_mutable_map:
  assumes "store_inv s"
  shows "(find_mutable s x = Some None \<and> store_map s x = None) \<or>
         (\<exists>i. find_mutable s x = Some (Some i) \<and> store_map s x = Some (st_slots s ! i) \<and>
           (\<forall>r. sr_imsi r = x \<longrightarrow> store_inv (s\<lparr> st_slots := (st_slots s)[i := r] \<rparr>) \<and>
              store_map (s\<lparr> st_slots := (st_slots s)[i := r] \<rparr>) = (store_map s)(x \<mapsto> r)))"
proof (cases "x = 0")
  case True
  then show ?thesis by (simp add: find_mutable_def store_map_def)
next
  case x: False
  obtain k where k: "store_ok k s" using assms by (auto simp: store_inv_def)
  then have tab: "table_ok k s" "load_ok (st_max_load_factor s)" "probe_table st_hash k (st_keys s)"
    "length (st_keys s) = 2 ^ k"
    using table_length [of k s] by (simp_all add: store_ok_def table_ok_def st_keys_def)
  have room: "used_slots (st_keys s) < 2 ^ k"
    using k store_room [OF tab(2)] by (simp add: store_ok_def)
  obtain d where d: "stops_at k (st_keys s) (st_hash x) x d"
    using probe_stops [OF tab(4) room] by blast
  let ?i = "slot_at k (st_hash x) d"
  have i: "st_keys s ! ?i = sr_imsi (st_slots s ! ?i)" "?i < length (st_slots s)"
    using tab(4) by (simp_all add: st_keys_def)
  have f: "st_find s x = Some (store_map s x)" using assms by (rule find_store_map)
  show ?thesis
  proof (cases "sr_imsi (st_slots s ! ?i) = x")
    case False
    then show ?thesis
      using f find_returns [OF tab(1) d x] by (simp add: Let_def)
  next
    case True
    have "store_inv (s\<lparr> st_slots := (st_slots s)[?i := r] \<rparr>) \<and>
        store_map (s\<lparr> st_slots := (st_slots s)[?i := r] \<rparr>) = (store_map s)(x \<mapsto> r)" if r: "sr_imsi r = x" for r
    proof -
      let ?s = "s\<lparr> st_slots := (st_slots s)[?i := r] \<rparr>"
      have keys: "st_keys ?s = st_keys s"
        using True i r by (simp add: st_keys_def map_update list_update_same_conv)
      then have "store_ok k ?s" using k by (simp add: store_ok_def table_ok_def)
      moreover have "store_map ?s = (store_map s)(sr_imsi r \<mapsto> r)"
        using tab(3) True i(1) r x by (intro store_map_place [of k _ _ ?i]) (simp_all add: keys)
      ultimately show ?thesis using assms keys r by (auto simp: store_inv_def)
    qed
    then show ?thesis
      using True f find_returns [OF tab(1) d x] by (auto simp: Let_def)
  qed
qed

lemma store_map_key: "store_inv s \<Longrightarrow> store_map s x = Some r \<Longrightarrow> sr_imsi r = x"
  by (auto simp: store_inv_def store_ok_def table_ok_def dest!: store_map_iff [THEN iffD1, rotated])

lemma add_usage_map:
  assumes "store_inv s"
  shows "\<exists>s'. add_usage s x b = Some s' \<and> store_inv s' \<and>
     store_map s' = (store_map s)(x := map_option
        (\<lambda>r. r\<lparr> sr_bytes_used_period := sr_bytes_used_period r + b \<rparr>) (store_map s x))"
  using find_mutable_map [OF assms, of x]
proof (elim disjE exE conjE)
  fix i
  assume i: "find_mutable s x = Some (Some i)" "store_map s x = Some (st_slots s ! i)"
    and "\<forall>r. sr_imsi r = x \<longrightarrow> store_inv (s\<lparr> st_slots := (st_slots s)[i := r] \<rparr>) \<and>
              store_map (s\<lparr> st_slots := (st_slots s)[i := r] \<rparr>) = (store_map s)(x \<mapsto> r)"
  moreover have "sr_imsi (st_slots s ! i) = x" using store_map_key [OF assms i(2)] .
  ultimately show ?thesis by (simp add: add_usage_def)
qed (use assms in \<open>auto simp: add_usage_def fun_upd_idem\<close>)

lemma reset_period_map:
  assumes "store_inv s"
  shows "\<exists>s'. reset_period s x ts = Some (s', store_map s x \<noteq> None) \<and> store_inv s' \<and>
     store_map s' = (store_map s)(x := map_option
        (\<lambda>r. r\<lparr> sr_bytes_used_period := 0, sr_period_reset_ts := ts \<rparr>) (store_map s x))"
  using find_mutable_map [OF assms, of x]
proof (elim disjE exE conjE)
  fix i
  assume i: "find_mutable s x = Some (Some i)" "store_map s x = Some (st_slots s ! i)"
    and "\<forall>r. sr_imsi r = x \<longrightarrow> store_inv (s\<lparr> st_slots := (st_slots s)[i := r] \<rparr>) \<and>
              store_map (s\<lparr> st_slots := (st_slots s)[i := r] \<rparr>) = (store_map s)(x \<mapsto> r)"
  moreover have "sr_imsi (st_slots s ! i) = x" using store_map_key [OF assms i(2)] .
  ultimately show ?thesis by (simp add: reset_period_def)
qed (use assms in \<open>auto simp: reset_period_def fun_upd_idem\<close>)

section \<open>A fresh store\<close>

lemma clamp_load_ok: "rnd64 lf = lf \<Longrightarrow> load_ok (clamp_load lf)"
proof -
  have "rnd64 (1 / 4) = (1 / 4 :: rat)"
  proof (rule rnd64_exact [where n = "2 ^ 52"])
    have "ilog2 (1 / 4) = - 2" by (rule ilog2_eqI) simp_all
    then show "(1 / 4 :: rat) = of_int (2 ^ 52) * 2 powi ulp_exp (1 / 4)"
      by (simp add: ulp_exp_def power_int_minus)
  qed simp
  moreover have "rnd64 (rnd64 (9 / 10)) = rnd64 (9 / 10)"
  proof (rule rnd64_exact [where n = 8106479329266893])
    have "ilog2 (rnd64 (9 / 10)) = - 1" by (rule ilog2_eqI) (simp_all add: rnd64_nine_tenths)
    then show "rnd64 (9 / 10) = of_int 8106479329266893 * 2 powi ulp_exp (rnd64 (9 / 10))"
      by (simp add: ulp_exp_def power_int_minus rnd64_nine_tenths)
  qed (simp add: rnd64_nine_tenths)
  moreover assume "rnd64 lf = lf"
  ultimately show ?thesis
    by (simp add: clamp_load_def load_ok_def rnd64_nine_tenths not_less)
qed

lemma clamp_load_idem: "clamp_load (clamp_load lf) = clamp_load lf"
  by (simp add: clamp_load_def rnd64_nine_tenths)

lemma slots_for_returns:
  assumes "n \<le> 2 ^ 50" "load_ok lf" "N = unat (max n 4)"
  shows "\<exists>k. 3 \<le> k \<and> k \<le> 53 \<and> slots_for n lf = Some (2 ^ k) \<and> rnd64 (of_nat N / lf) \<le> 2 ^ k"
proof -
  let ?x = "of_nat N / lf :: rat"
  have lf: "clamp_load lf = lf" "0 < lf" "1 / 4 \<le> lf"
    using assms(2) load_ok_less_one [OF assms(2)] by (simp_all add: clamp_load_def load_ok_def)
  have n: "N \<le> 2 ^ 50" using assms(1) by (simp add: assms(3) max_def word_le_nat_alt)
  then have n': "rnd64 (of_nat N) = of_nat N" by (intro rnd64_of_nat) simp
  have "(of_nat N :: rat) \<le> of_nat (2 ^ 50)" using n by (simp only: of_nat_le_iff)
  then have "?x \<le> of_nat (2 ^ 50) / (1 / 4)" using lf by (intro frac_le) simp_all
  then have "?x \<le> of_nat (2 ^ 52)" by simp
  then have "rnd64 ?x \<le> rnd64 (of_nat (2 ^ 52))" using lf by (intro rnd64_mono) simp_all
  also have "\<dots> = of_nat (2 ^ 52)" by (rule rnd64_of_nat) simp
  finally have le: "rnd64 ?x \<le> 2 ^ 52" by simp
  define M where "M = nat \<lceil>rnd64 ?x\<rceil>"
  have "0 \<le> rnd64 ?x" using lf by (intro rnd64_nonneg) simp
  moreover have "\<lceil>rnd64 ?x\<rceil> \<le> 2 ^ 52" using le by (simp add: ceiling_le_iff)
  ultimately have M: "\<lceil>rnd64 ?x\<rceil> = int M" "M \<le> 2 ^ 52"
    by (simp_all add: M_def nat_le_iff)
  have u: "unat (of_nat M :: u64) = M" using M(2) by (simp add: unat_of_nat)
  then have "(of_nat M :: u64) \<le> 2 ^ 63" using M(2) by (simp add: word_le_nat_alt)
  then obtain k where k: "3 \<le> k" "k \<le> 63" "pow2_from (2 ^ 3) (of_nat M) = Some (2 ^ k)"
    "(of_nat M :: u64) \<le> 2 ^ k" "k = 3 \<or> 2 ^ (k - 1) < (of_nat M :: u64)"
    using pow2_from_returns [of 3 "of_nat M"] by auto
  have "M \<le> 2 ^ k" using k(2,4) u by (simp add: word_le_nat_alt unat_pow2)
  have "k \<le> 53"
  proof (rule ccontr)
    assume "\<not> k \<le> 53"
    then have "2 ^ (k - 1) < M" using k(2,5) u unat_pow2 [of "k - 1"] by (simp add: word_less_nat_alt)
    moreover have "(2 :: nat) ^ 53 \<le> 2 ^ (k - 1)" using \<open>\<not> k \<le> 53\<close> by (intro power_increasing) auto
    ultimately show False using M(2) by simp
  qed
  moreover have "rnd64 ?x \<le> 2 ^ k"
  proof -
    have "rnd64 ?x \<le> of_int \<lceil>rnd64 ?x\<rceil>" by (rule le_of_int_ceiling)
    also have "\<dots> = of_nat M" by (simp add: M(1))
    also have "\<dots> \<le> of_nat (2 ^ k)" using \<open>M \<le> 2 ^ k\<close> by (simp only: of_nat_le_iff)
    finally show ?thesis by simp
  qed
  moreover have "slots_for n lf = Some (2 ^ k)"
    using k(3) M lf(1) n' le by (simp add: slots_for_def Let_def next_pow2_def assms(3) [symmetric])
  ultimately show ?thesis using k(1) by blast
qed

text \<open>
  The rounded quotient is safe: a table sized for \<^term>\<open>n\<close> records by a rounded division still holds \<^term>\<open>n\<close>
  records under its load factor.
\<close>

lemma sizing_sound:
  assumes "load_ok lf" "rnd64 (of_nat n / lf) \<le> 2 ^ k" "k \<le> 53"
  shows "of_nat n \<le> 2 ^ k * lf"
proof (rule ccontr)
  assume "\<not> of_nat n \<le> 2 ^ k * lf"
  then have gt: "2 ^ k * lf < of_nat n" by simp
  have lf: "0 < lf" "lf < 1" "1 / 4 \<le> lf" using load_ok_less_one [OF assms(1)] assms(1) by (auto simp: load_ok_def)
  let ?x = "of_nat n / lf :: rat"
  have x: "2 ^ k < ?x" using gt lf by (simp add: pos_less_divide_eq mult.commute)
  then have x0: "0 < ?x" by (rule less_trans [rotated]) simp
  have "?x < 2 powi (int k + 1)"
  proof (rule ccontr)
    assume "\<not> ?x < 2 powi (int k + 1)"
    then have "rnd64 (2 ^ Suc k) \<le> rnd64 ?x" by (intro rnd64_mono) (simp_all add: power_int_add)
    then have "(2 :: rat) ^ Suc k \<le> 2 ^ k" using assms(2) unfolding rnd64_two_power by linarith
    then show False by simp
  qed
  then have "ilog2 ?x = int k" using x by (intro ilog2_eqI) simp_all
  then have ux: "ulp_exp ?x = int k - 52" by (simp add: ulp_exp_def)
  have "?x - 2 ^ k \<le> \<bar>rnd64 ?x - ?x\<bar>" using assms(2) by linarith
  also have "\<dots> \<le> 2 powi (int k - 53)" using rnd64_error [OF x0] by (simp add: ux)
  finally have "lf * (?x - 2 ^ k) \<le> lf * 2 powi (int k - 53)" using lf by (intro mult_left_mono) auto
  then have close: "of_nat n - 2 ^ k * lf \<le> lf * 2 powi (int k - 53)"
    using lf by (simp add: right_diff_distrib mult.commute)
  define u where "u = ulp_exp lf"
  have "ilog2 (1 / 4) \<le> ilog2 lf" using lf by (intro ilog2_mono) auto
  moreover have "ilog2 (1 / 4) = - 2" by (rule ilog2_eqI) simp_all
  moreover have "2 powi ilog2 lf < (2 :: rat) powi 0" using ilog2_bounds(1) [OF lf(1)] lf(2) by simp
  then have "ilog2 lf < 0" by (simp only: powi_less_iff)
  ultimately have u: "u = ilog2 lf - 52" "int k + u \<le> 0" using assms(3) by (auto simp: u_def ulp_exp_def)
  define m where "m = round_even (lf / 2 powi u)"
  have "lf = of_int m * 2 powi u"
    using assms(1) rnd64_pos [OF lf(1)] by (simp add: load_ok_def m_def u_def)
  then have y: "2 ^ k * lf = of_int m * 2 powi (int k + u)" by (simp add: power_int_add)
  have n: "of_nat n = of_int (int n * 2 ^ nat (- (int k + u))) * (2 :: rat) powi (int k + u)"
    using powi_quotient [OF u(2)] by simp
  have "of_int m * (2 :: rat) powi (int k + u) < of_int (int n * 2 ^ nat (- (int k + u))) * 2 powi (int k + u)"
    using gt unfolding y n .
  then have "m < int n * 2 ^ nat (- (int k + u))" 
    by (simp only: mult_less_cancel_right_pos zero_less_power_int of_int_less_iff)
  then have "of_int (m + 1) * (2 :: rat) powi (int k + u) \<le> of_int (int n * 2 ^ nat (- (int k + u))) * 2 powi (int k + u)"
    by (intro mult_right_mono) (simp_all only: of_int_le_iff, simp)
  then have "2 powi (int k + u) \<le> of_nat n - 2 ^ k * lf"
    unfolding y n by (simp add: algebra_simps)
  also note close
  also have "lf * 2 powi (int k - 53) < 2 powi (ilog2 lf + 1) * 2 powi (int k - 53)"
    using ilog2_bounds(2) [OF lf(1)] by (intro mult_strict_right_mono) simp_all
  also have "\<dots> = 2 powi (int k + u)"
    by (simp add: u(1) power_int_add [symmetric] algebra_simps)
  finally show False by simp
qed

lemma new_store_ok:
  assumes "expected \<le> 2 ^ 50" "rnd64 lf = lf"
  shows "\<exists>s k. new_store expected lf = Some s \<and> store_ok k s \<and> store_inv s \<and> store_map s = Map.empty \<and>
           used_slots (st_keys s) = 0 \<and> length (st_slots s) = 2 ^ k \<and>
           of_nat (unat expected) \<le> 2 ^ k * st_max_load_factor s"
proof -
  let ?lf = "clamp_load lf"
  let ?s0 = "\<lparr> st_slots = [], st_mask = 0, st_size = 0, st_max_load_factor = ?lf \<rparr>"
  define N where "N = unat (max expected 4)"
  have lf: "load_ok ?lf" using assms(2) by (rule clamp_load_ok)
  obtain k where k: "3 \<le> k" "k \<le> 53" "slots_for expected ?lf = Some (2 ^ k)" "rnd64 (of_nat N / ?lf) \<le> 2 ^ k"
    using slots_for_returns [OF assms(1) lf N_def] by blast
  have "unat expected \<le> N" by (simp add: N_def max_def word_le_nat_alt)
  then have "(of_nat (unat expected) :: rat) \<le> of_nat N" by (simp only: of_nat_le_iff)
  also have "\<dots> \<le> 2 ^ k * ?lf" using lf k(4,2) by (rule sizing_sound)
  finally have le: "of_nat (unat expected) \<le> 2 ^ k * ?lf" .
  have s: "new_store expected lf = Some (fresh_slots (2 ^ k) ?s0)"
    by (simp add: new_store_def Let_def k(3))
  have "load_ok (st_max_load_factor ?s0)" using lf by simp
  note fresh = fresh_ok [of k ?s0, OF k(1) _ this]
  have ok: "store_ok k (fresh_slots (2 ^ k) ?s0)" using fresh(1) k(2) by simp
  moreover have "length (st_slots (fresh_slots (2 ^ k) ?s0)) = 2 ^ k"
    using ok table_length by (auto simp: store_ok_def)
  moreover have "store_inv (fresh_slots (2 ^ k) ?s0)"
    using ok fresh(4) k(2) unfolding store_inv_def by auto
  ultimately show ?thesis
    using s fresh(2,3,5) k(2) le by (intro exI [of _ "fresh_slots (2 ^ k) ?s0"] exI [of _ k]) simp
qed

lemma upsert_all_no_grow:
  assumes "store_ok k s" "\<forall>r \<in> set rs. sr_imsi r \<noteq> 0"
    and "of_nat n \<le> 2 ^ k * st_max_load_factor s" "n \<le> 2 ^ 53"
    and "used_slots (st_keys s) + length rs \<le> n"
  shows "\<exists>s'. upsert_all upsert rs s = Some s' \<and> store_ok k s'"
  using assms
proof (induction rs arbitrary: s)
  case (Cons r rs)
  have tab: "table_ok k s" "load_ok (st_max_load_factor s)"
    using Cons.prems(1) by (simp_all add: store_ok_def table_ok_def)
  have u: "used_slots (st_keys s) < 2 ^ k"
    using Cons.prems(1) store_room [OF tab(2)] by (simp add: store_ok_def)
  have "rnd64 (of_nat (Suc (used_slots (st_keys s)))) \<le> rnd64 (of_nat n)"
    using Cons.prems(5) by (intro rnd64_of_nat_mono) simp
  also have "\<dots> \<le> 2 ^ k * st_max_load_factor s"
    using Cons.prems(3) by (simp add: rnd64_of_nat [OF Cons.prems(4)])
  finally have "\<not> over_load s" using over_load_iff [OF tab(1)] u by simp
  then obtain s1 where s1: "upsert s r = Some (s1, True)" "store_ok k s1"
    "used_slots (st_keys s1) \<le> Suc (used_slots (st_keys s))" "st_max_load_factor s1 = st_max_load_factor s"
    using upsert_depth_place [OF Cons.prems(1), of r 1] Cons.prems(2)
    by (auto simp: upsert_def numeral_2_eq_2)
  then show ?case
    using Cons.IH [OF s1(2)] Cons.prems by simp
qed simp

text \<open>
  C2: the subscriber table is a map: on a well-formed store upsert of a valid IMSI returns true, the
  store stays well formed (growing if needed), and find afterwards returns that record for its
  IMSI and what it returned before for every other one. No probe loop runs for ever.
\<close>

theorem upsert_find:
  assumes "store_inv s" "imsi_ok (sr_imsi rec)"
  shows "\<exists>s'. upsert s rec = Some (s', True) \<and> store_inv s' \<and>
           (\<forall>x. \<exists>r. st_find s x = Some r \<and>
                st_find s' x = Some (if x = sr_imsi rec then Some rec else r))"
proof -
  obtain s' where s': "upsert s rec = Some (s', True)" "store_inv s'"
    "store_map s' = (store_map s)(sr_imsi rec \<mapsto> rec)"
    using upsert_map [OF assms] by blast
  then show ?thesis
    using find_store_map [OF assms(1)] find_store_map [OF s'(2)] by auto
qed

lemma default_store_inv:
  "\<exists>s. new_store 1024 (1 / 2) = Some s \<and> store_inv s \<and> store_map s = Map.empty"
proof -
  have "rnd64 (1 / 2) = (1 / 2 :: rat)"
  proof (rule rnd64_exact [where n = "2 ^ 52"])
    have "ilog2 (1 / 2) = - 1" by (rule ilog2_eqI) simp_all
    then show "(1 / 2 :: rat) = of_int (2 ^ 52) * 2 powi ulp_exp (1 / 2)"
      by (simp add: ulp_exp_def power_int_minus)
  qed simp
  then show ?thesis using new_store_ok [of 1024 "1 / 2"] by auto
qed

theorem upsert_find_witness:
  "\<exists>s s'. new_store 1024 (1 / 2) = Some s \<and>
     upsert s (empty_record\<lparr> sr_imsi := 310260000000001 \<rparr>) = Some (s', True) \<and>
     st_find s' 310260000000001 = Some (Some (empty_record\<lparr> sr_imsi := 310260000000001 \<rparr>))"
proof -
  obtain s where s: "new_store 1024 (1 / 2) = Some s" "store_inv s"
    using default_store_inv by blast
  have "imsi_ok (sr_imsi (empty_record\<lparr> sr_imsi := 310260000000001 \<rparr>))" by (simp add: imsi_ok_def)
  from upsert_find [OF s(2) this] obtain s' where
    "upsert s (empty_record\<lparr> sr_imsi := 310260000000001 \<rparr>) = Some (s', True)"
    "\<exists>r. st_find s 310260000000001 = Some r \<and> st_find s' 310260000000001 =
       Some (if 310260000000001 = sr_imsi (empty_record\<lparr> sr_imsi := 310260000000001 \<rparr>)
             then Some (empty_record\<lparr> sr_imsi := 310260000000001 \<rparr>) else r)"
    by blast
  with s(1) show ?thesis by simp
qed

text \<open>
  C28: a store built for n subscribers takes n records without ever rehashing, for every load
  factor (a double, clamped to [0.25, 0.9]), although the sizing divides in rounded arithmetic.
\<close>

theorem provisioning_never_rehashes:
  assumes "expected \<le> 2 ^ 50" "rnd64 lf = lf"
    and "length rs \<le> unat expected" "\<forall>r \<in> set rs. sr_imsi r \<noteq> 0"
  shows "\<exists>s s'. new_store expected lf = Some s \<and> upsert_all upsert rs s = Some s' \<and>
           length (st_slots s') = length (st_slots s)"
proof -
  obtain s k where s: "new_store expected lf = Some s" "store_ok k s" "used_slots (st_keys s) = 0"
    "length (st_slots s) = 2 ^ k" "of_nat (unat expected) \<le> 2 ^ k * st_max_load_factor s"
    using new_store_ok [OF assms(1,2)] by blast
  have "unat expected \<le> 2 ^ 53" using assms(1) by (simp add: word_le_nat_alt)
  then obtain s' where "upsert_all upsert rs s = Some s'" "store_ok k s'"
    using upsert_all_no_grow [OF s(2) assms(4) s(5)] s(3) assms(3) by auto
  then show ?thesis using s(1,4) table_length [of k s'] by (auto simp: store_ok_def)
qed

theorem provisioning_never_rehashes_witness:
  "\<exists>s s'. new_store 2 1 = Some s \<and>
     upsert_all upsert [empty_record\<lparr> sr_imsi := 1 \<rparr>, empty_record\<lparr> sr_imsi := 2 \<rparr>] s = Some s' \<and>
     length (st_slots s') = length (st_slots s)"
  using rnd64_of_nat [of 1]
  by (intro provisioning_never_rehashes) (simp_all add: word_le_nat_alt)

text \<open>
  usage accounting touches one record: add_usage adds to the counter of that IMSI with 64-bit
  wrap-around and is a no-op for an unknown IMSI; reset_period zeroes it, sets the new reset time
  and reports whether the IMSI was known. Every other record is untouched.
\<close>

theorem usage_updates:
  assumes "store_inv s"
  shows "(\<exists>s'. add_usage s x b = Some s' \<and> store_inv s' \<and>
            st_find s' x = Some (map_option
              (\<lambda>r. r\<lparr> sr_bytes_used_period := sr_bytes_used_period r + b \<rparr>) (store_map s x)) \<and>
            (\<forall>y. y \<noteq> x \<longrightarrow> st_find s' y = st_find s y)) \<and>
         (\<exists>s' ok. reset_period s x ts = Some (s', ok) \<and> store_inv s' \<and> ok = (store_map s x \<noteq> None) \<and>
            st_find s' x = Some (map_option
              (\<lambda>r. r\<lparr> sr_bytes_used_period := 0, sr_period_reset_ts := ts \<rparr>) (store_map s x)) \<and>
            (\<forall>y. y \<noteq> x \<longrightarrow> st_find s' y = st_find s y))"
proof -
  obtain s1 where s1: "add_usage s x b = Some s1" "store_inv s1" "store_map s1 = (store_map s)(x := map_option
      (\<lambda>r. r\<lparr> sr_bytes_used_period := sr_bytes_used_period r + b \<rparr>) (store_map s x))"
    using add_usage_map [OF assms] by blast
  obtain s2 where s2: "reset_period s x ts = Some (s2, store_map s x \<noteq> None)" "store_inv s2"
    "store_map s2 = (store_map s)(x := map_option
      (\<lambda>r. r\<lparr> sr_bytes_used_period := 0, sr_period_reset_ts := ts \<rparr>) (store_map s x))"
    using reset_period_map [OF assms] by blast
  note f = find_store_map [OF assms] find_store_map [OF s1(2)] find_store_map [OF s2(2)]
  show ?thesis
    using s1 s2 by (intro conjI exI [of _ s1] exI [of _ s2] exI [of _ "store_map s x \<noteq> None"]) (simp_all add: f)
qed

theorem usage_updates_witness:
  "\<exists>s s1 s2 s3. new_store 1024 (1 / 2) = Some s \<and>
     upsert s (empty_record\<lparr> sr_imsi := 7, sr_bytes_used_period := 5 \<rparr>) = Some (s1, True) \<and>
     add_usage s1 7 100 = Some s2 \<and>
     st_find s2 7 = Some (Some (empty_record\<lparr> sr_imsi := 7, sr_bytes_used_period := 105 \<rparr>)) \<and>
     reset_period s1 8 0 = Some (s3, False)"
proof -
  let ?r = "empty_record\<lparr> sr_imsi := 7, sr_bytes_used_period := 5 \<rparr>"
  obtain s where s: "new_store 1024 (1 / 2) = Some s" "store_inv s" "store_map s = Map.empty"
    using default_store_inv by blast
  have "imsi_ok (sr_imsi ?r)" by (simp add: imsi_ok_def)
  then obtain s1 where s1: "upsert s ?r = Some (s1, True)" "store_inv s1" "store_map s1 = [7 \<mapsto> ?r]"
    using upsert_map [OF s(2), of ?r] s(3) by auto
  show ?thesis
    using s(1) s1(1,3) usage_updates [OF s1(2), of 7 100 0] usage_updates [OF s1(2), of 8 0 0] by auto
qed

section \<open>The interface\<close>

text \<open>
  What the engine, the loaders and the control plane rely on: a keyed record store that behaves as a
  finite map. Loading a list of records leaves the last record of each key.
\<close>

locale record_store =
  fixes lookup :: "'s \<Rightarrow> 'k \<Rightarrow> 'r option option"
    and update :: "'s \<Rightarrow> 'r \<Rightarrow> ('s \<times> bool) option"
    and invar :: "'s \<Rightarrow> bool"
    and view :: "'s \<Rightarrow> 'k \<rightharpoonup> 'r"
    and key_of :: "'r \<Rightarrow> 'k"
    and valid :: "'k \<Rightarrow> bool"
  assumes lookup_view: "invar s \<Longrightarrow> lookup s x = Some (view s x)"
    and update_view: "invar s \<Longrightarrow> valid (key_of r) \<Longrightarrow>
      \<exists>s'. update s r = Some (s', True) \<and> invar s' \<and> view s' = (view s)(key_of r \<mapsto> r)"
begin

lemma upsert_all_view:
  assumes "invar s" "\<forall>r \<in> set rs. valid (key_of r)"
  shows "\<exists>s'. upsert_all update rs s = Some s' \<and> invar s' \<and>
              view s' = view s ++ map_of (rev (map (\<lambda>r. (key_of r, r)) rs))"
  using assms
proof (induction rs arbitrary: s)
  case (Cons r rs)
  then obtain s1 where s1: "update s r = Some (s1, True)" "invar s1" "view s1 = (view s)(key_of r \<mapsto> r)"
    using update_view by fastforce
  have "\<forall>r \<in> set rs. valid (key_of r)" using Cons.prems(2) by simp
  then obtain s2 where "upsert_all update rs s1 = Some s2" "invar s2"
    "view s2 = view s1 ++ map_of (rev (map (\<lambda>r. (key_of r, r)) rs))"
    using Cons.IH [OF s1(2)] by blast
  with s1 show ?case by (auto simp: map_add_def fun_eq_iff split: option.splits)
qed simp

lemma lookup_last:
  assumes "invar s" "\<forall>r \<in> set rs. valid (key_of r)" "upsert_all update rs s = Some s'"
  shows "lookup s' x = Some (case map_of (rev (map (\<lambda>r. (key_of r, r)) rs)) x of
           None \<Rightarrow> view s x | Some r \<Rightarrow> Some r)"
  using upsert_all_view [OF assms(1,2)] assms(3) lookup_view by (auto simp: map_add_def)

end

interpretation subs: record_store st_find upsert store_inv store_map sr_imsi imsi_ok
  by unfold_locales (simp_all add: find_store_map upsert_map)

end
