(* ===== verification/Engine.thy ===== *)
theory Engine
  imports Rule_Set Subscriber_Store
begin

text \<open>
  The decision path (\<^verbatim>\<open>include/policy/engine.hpp\<close>, \<^verbatim>\<open>src/engine.cpp\<close>): the feature word of a request, the
  first-match scan over the compiled rules, and the decision. The clock reading
  \<^verbatim>\<open>coarse_now_unix_s()\<close> is the parameter \<open>now\<close>; a pointer that may be null is an option; \<^const>\<open>None\<close>
  of the results is a set lookup that does not return.
\<close>

unbundle bit_operations_syntax

section \<open>GBR classes and usage thresholds\<close>

definition gbr_5qis :: "nat list" where
  "gbr_5qis = [1, 2, 3, 4, 65, 66, 67, 71, 72, 73, 74, 75, 76]"

definition kGbrLo :: u64 where
  "kGbrLo = foldl (\<lambda>m q. if q < 64 then m OR push_bit q 1 else m) 0 gbr_5qis"

definition kGbrHi :: u64 where
  "kGbrHi = foldl (\<lambda>m q. if q \<ge> 64 \<and> q < 128 then m OR push_bit (q - 64) 1 else m) 0 gbr_5qis"

definition is_gbr_5qi :: "u8 \<Rightarrow> bool" where
  "is_gbr_5qi q =
     (if q < 64 then drop_bit (unat q) kGbrLo AND 1 \<noteq> 0
      else if q < 128 then drop_bit (unat q - 64) kGbrHi AND 1 \<noteq> 0
      else False)"

definition usage_at_least_permille :: "u64 \<Rightarrow> u64 \<Rightarrow> u32 \<Rightarrow> bool" where
  "usage_at_least_permille usage quota permille =
     (if quota = 0 then False
      else let lhs = (ucast usage :: 128 word) * 1000;
               rhs = (ucast quota :: 128 word) * ucast permille
           in lhs \<ge> rhs)"

text \<open>The variant for compilers without a 128-bit integer.\<close>

definition usage_at_least_permille_64 :: "u64 \<Rightarrow> u64 \<Rightarrow> u32 \<Rightarrow> bool" where
  "usage_at_least_permille_64 usage quota permille =
     (if quota = 0 then False
      else let whole = (quota div 1000) * ucast permille;
               remainder = ((quota mod 1000) * ucast permille) div 1000
           in usage \<ge> whole + remainder)"

section \<open>Features\<close>

definition plan_bit_for :: "SubscriberRecord option \<Rightarrow> u32" where
  "plan_bit_for rec =
     (case rec of None \<Rightarrow> 0
      | Some r \<Rightarrow> if unat (sr_plan_id r) \<ge> kMaxPlans then 0 else push_bit (unat (sr_plan_id r)) 1)"

text \<open>\<^verbatim>\<open>if (c) f |= feat::bit(b);\<close>\<close>

definition set_if :: "bool \<Rightarrow> nat \<Rightarrow> FeatureWord \<Rightarrow> FeatureWord" where
  "set_if c b f = (if c then f OR feat_bit b else f)"

definition status_bit :: "u32 \<Rightarrow> nat" where
  "status_bit st =
     (if st = status_u32 kActive then kStatusActive
      else if st = status_u32 kSuspended then kStatusSuspended
      else if st = status_u32 kBarred then kStatusBarred
      else kStatusUnknown)"

definition current_usage :: "PolicyRequest \<Rightarrow> SubscriberRecord \<Rightarrow> u64" where
  "current_usage req r =
     (if rq_flags req AND kReqFlagUsageValid \<noteq> 0 then rq_bytes_used_period req else load_usage r)"

text \<open>The part before the subscriber record is looked at.\<close>

definition request_features :: "RuleSet \<Rightarrow> PolicyRequest \<Rightarrow> FeatureWord option" where
  "request_features rs req = do {
     let f = 0;
     let f = set_if (unat (rq_rat_type req) < kRatBits) (kRatBase + unat (rq_rat_type req)) f;
     let f = set_if (unat (rq_dnn_id req) < kDnnBits) (kDnnBase + unat (rq_dnn_id req)) f;
     f \<leftarrow> (if rq_imei req \<noteq> 0 then do {
             let f = f OR feat_bit kImeiKnown;
             blocked \<leftarrow> fs_contains (rs_imei_blocklist rs) (rq_imei req);
             Some (set_if blocked kImeiBlocked f) }
           else Some f);
     let f = set_if (rq_flags req AND kReqFlagTetheringDetected \<noteq> 0) kTetheringDetected f;
     let f = set_if (rq_flags req AND kReqFlagEmergency \<noteq> 0) kEmergency f;
     let f = set_if (is_gbr_5qi (rq_requested_5qi req)) kRequestedGbr f;
     let minute = rq_local_minute req mod 1440;
     Some (foldl (\<lambda>f i. set_if (tw_contains (rs_time_windows rs ! i) minute) (kTimeWindowBase + i) f)
             f [0..<length (rs_time_windows rs)]) }"

definition build_features ::
    "RuleSet \<Rightarrow> PolicyRequest \<Rightarrow> SubscriberRecord option \<Rightarrow> u64 \<Rightarrow> FeatureWord option" where
  "build_features rs req rec now = do {
     f \<leftarrow> request_features rs req;
     (case rec of
        None \<Rightarrow> Some (f OR feat_bit kStatusUnknown OR feat_bit kRoaming)
      | Some r \<Rightarrow> do {
          let f = f OR feat_bit (status_bit (sr_status r));
          f \<leftarrow> (if rq_plmn req = sr_home_plmn r then Some (f OR feat_bit kHomePlmn)
                else do {
                  let f = f OR feat_bit kRoaming;
                  partner \<leftarrow> fs_contains (rs_roaming_partners rs) (ucast (rq_plmn req));
                  Some (set_if partner kRoamingPartner f) });
          let f = set_if (sr_flags r AND kSubRoamingAllowed \<noteq> 0) kRoamingAllowed f;
          let plan = rs_plan rs (sr_plan_id r);
          let plan_tethering = (case plan of None \<Rightarrow> False | Some p \<Rightarrow> p_flags p AND kPlanTetheringAllowed \<noteq> 0);
          let f = set_if (plan_tethering \<or> sr_flags r AND kSubTetheringAllowed \<noteq> 0) kTetheringAllowed f;
          let usage = current_usage req r;
          let quota = (case plan of None \<Rightarrow> 0 | Some p \<Rightarrow> p_quota_bytes p);
          let f = set_if (quota \<noteq> 0 \<and> usage \<ge> quota) kQuotaExhausted f;
          let f = foldl (\<lambda>f i. set_if (usage_at_least_permille usage quota
                      (rs_usage_thresholds_permille rs ! i)) (kUsageThresholdBase + i) f)
                    f [0..<length (rs_usage_thresholds_permille rs)];
          Some (set_if (now \<noteq> 0 \<and> sr_period_reset_ts r \<noteq> 0 \<and> now \<ge> sr_period_reset_ts r) kPeriodExpired f)
        }) }"

section \<open>Evaluation\<close>

text \<open>The scan: the first rule whose masked features equal its value and whose plans include the subscriber's.\<close>

fun find_hit :: "FeatureWord \<Rightarrow> u32 \<Rightarrow> CompiledRule list \<Rightarrow> CompiledRule option" where
  "find_hit f plan_bit [] = None"
| "find_hit f plan_bit (r # rs) =
     (if f AND r_match_mask r \<noteq> r_match_value r then find_hit f plan_bit rs
      else if r_plan_mask r \<noteq> 0 \<and> r_plan_mask r AND plan_bit = 0 then find_hit f plan_bit rs
      else Some r)"

definition inherits :: "Action \<Rightarrow> u8 \<Rightarrow> PlanConfig option \<Rightarrow> PlanConfig option" where
  "inherits act b plan = (if a_inherit_mask act AND b \<noteq> 0 then plan else None)"

definition base_decision :: "RuleSet \<Rightarrow> PolicyRequest \<Rightarrow> CompiledRule option \<Rightarrow> Action \<Rightarrow> PolicyDecision" where
  "base_decision rs req hit act = zero_decision\<lparr>
     d_magic_version := kMagicVersion,
     d_seq := rq_seq req,
     d_client_ts_ns := rq_client_ts_ns req,
     d_policy_version := rs_version rs,
     d_rule_id := (case hit of None \<Rightarrow> 0 | Some r \<Rightarrow> r_id r),
     d_verdict := a_verdict act,
     d_reason := (case hit of None \<Rightarrow> reason_u8 kNoMatchingRule | Some _ \<Rightarrow> a_reason act),
     d_redirect_id := a_redirect_id act,
     d_flags := a_set_flags act \<rparr>"

definition grant_qos :: "Action \<Rightarrow> PlanConfig option \<Rightarrow> PolicyDecision \<Rightarrow> PolicyDecision" where
  "grant_qos act plan d =
     (case inherits act kInheritQos plan of
        Some p \<Rightarrow> d\<lparr> d_qos_5qi := p_qos_5qi p, d_arp := p_arp p \<rparr>
      | None \<Rightarrow> d\<lparr> d_qos_5qi := a_qos_5qi act, d_arp := a_arp act \<rparr>)"

definition grant_ambr :: "Action \<Rightarrow> PlanConfig option \<Rightarrow> PolicyDecision \<Rightarrow> PolicyDecision" where
  "grant_ambr act plan d =
     (case inherits act kInheritAmbr plan of
        Some p \<Rightarrow> d\<lparr> d_ambr_ul_kbps := p_ambr_ul_kbps p, d_ambr_dl_kbps := p_ambr_dl_kbps p \<rparr>
      | None \<Rightarrow> d\<lparr> d_ambr_ul_kbps := a_ambr_ul_kbps act, d_ambr_dl_kbps := a_ambr_dl_kbps act \<rparr>)"

definition grant_rating :: "Action \<Rightarrow> PlanConfig option \<Rightarrow> PolicyDecision \<Rightarrow> PolicyDecision" where
  "grant_rating act plan d =
     (case inherits act kInheritRatingGroup plan of
        Some p \<Rightarrow> d\<lparr> d_rating_group := p_rating_group p \<rparr>
      | None \<Rightarrow> d\<lparr> d_rating_group := a_rating_group act \<rparr>)"

definition reported_usage :: "PolicyRequest \<Rightarrow> SubscriberRecord option \<Rightarrow> u64" where
  "reported_usage req rec =
     (if rq_flags req AND kReqFlagUsageValid \<noteq> 0 then rq_bytes_used_period req
      else case rec of None \<Rightarrow> 0 | Some r \<Rightarrow> load_usage r)"

definition grant_quota ::
    "PolicyRequest \<Rightarrow> SubscriberRecord option \<Rightarrow> Action \<Rightarrow> PlanConfig option \<Rightarrow> PolicyDecision \<Rightarrow> PolicyDecision" where
  "grant_quota req rec act plan d =
     (case inherits act kInheritQuota plan of
        Some p \<Rightarrow>
          (let usage = reported_usage req rec
           in d\<lparr> d_quota_bytes := (if p_quota_bytes p > usage then p_quota_bytes p - usage else 0),
                 d_quota_validity_s := p_quota_validity_s p \<rparr>)
      | None \<Rightarrow> d\<lparr> d_quota_bytes := a_quota_bytes act, d_quota_validity_s := a_quota_validity_s act \<rparr>)"

definition mark_usage :: "PolicyRequest \<Rightarrow> PolicyDecision \<Rightarrow> PolicyDecision" where
  "mark_usage req d =
     (if rq_flags req AND kReqFlagUsageValid \<noteq> 0
      then d\<lparr> d_flags := d_flags d OR kFlagUsageFromRequest \<rparr> else d)"

definition strip_deny :: "PolicyDecision \<Rightarrow> PolicyDecision" where
  "strip_deny d =
     (if d_verdict d = verdict_u8 kDeny
      then d\<lparr> d_ambr_ul_kbps := 0, d_ambr_dl_kbps := 0, d_quota_bytes := 0,
              d_quota_validity_s := 0, d_qos_5qi := 0, d_arp := 0 \<rparr>
      else d)"

text \<open>The part of \<^verbatim>\<open>evaluate\<close> after the scan, given its \<^verbatim>\<open>hit\<close>.\<close>

definition hit_action :: "RuleSet \<Rightarrow> CompiledRule option \<Rightarrow> Action" where
  "hit_action rs hit = (case hit of None \<Rightarrow> rs_default_action rs | Some r \<Rightarrow> r_action r)"

definition decide ::
    "RuleSet \<Rightarrow> PolicyRequest \<Rightarrow> SubscriberRecord option \<Rightarrow> CompiledRule option \<Rightarrow> PolicyDecision" where
  "decide rs req rec hit =
     (let act = hit_action rs hit;
          plan = (case rec of None \<Rightarrow> None | Some r \<Rightarrow> rs_plan rs (sr_plan_id r));
          d = base_decision rs req hit act;
          d = grant_qos act plan d;
          d = grant_ambr act plan d;
          d = grant_rating act plan d;
          d = grant_quota req rec act plan d;
          d = mark_usage req d
      in strip_deny d)"

definition evaluate ::
    "RuleSet \<Rightarrow> PolicyRequest \<Rightarrow> SubscriberRecord option \<Rightarrow> u64 \<Rightarrow> PolicyDecision option" where
  "evaluate rs req rec now = do {
     f \<leftarrow> build_features rs req rec now;
     Some (decide rs req rec (find_hit f (plan_bit_for rec) (rs_rules rs))) }"

definition evaluate_store ::
    "RuleSet \<Rightarrow> SubscriberStore \<Rightarrow> PolicyRequest \<Rightarrow> u64 \<Rightarrow> PolicyDecision option" where
  "evaluate_store rs store req now = do {
     rec \<leftarrow> st_find store (rq_imsi req);
     evaluate rs req rec now }"

definition malformed_decision :: "u32 \<Rightarrow> u64 \<Rightarrow> u32 \<Rightarrow> PolicyDecision" where
  "malformed_decision seq client_ts_ns policy_version = zero_decision\<lparr>
     d_magic_version := kMagicVersion, d_seq := seq, d_client_ts_ns := client_ts_ns,
     d_policy_version := policy_version, d_verdict := verdict_u8 kDeny,
     d_reason := reason_u8 kMalformedRequest \<rparr>"

section \<open>The explanation of a feature word\<close>

definition add_word :: "string \<Rightarrow> string \<Rightarrow> string" where
  "add_word out w = (if out \<noteq> [] then out @ '' '' else out) @ w"

definition named_bits :: "(nat \<times> string) list" where
  "named_bits =
    [(kStatusActive, ''status=ACTIVE''), (kStatusSuspended, ''status=SUSPENDED''),
     (kStatusBarred, ''status=BARRED''), (kStatusUnknown, ''status=UNKNOWN''),
     (kHomePlmn, ''home_plmn''), (kRoaming, ''roaming''), (kRoamingPartner, ''roaming_partner''),
     (kRoamingAllowed, ''roaming_allowed''), (kImeiKnown, ''imei_known''),
     (kImeiBlocked, ''imei_blocked''), (kTetheringDetected, ''tethering_detected''),
     (kTetheringAllowed, ''tethering_allowed''), (kEmergency, ''emergency''),
     (kQuotaExhausted, ''quota_exhausted''), (kPeriodExpired, ''period_expired''),
     (kRequestedGbr, ''requested_gbr'')]"

definition describe_words :: "RuleSet \<Rightarrow> (nat \<times> string) list" where
  "describe_words rs =
     map (\<lambda>i. (kRatBase + i, ''rat='' @ rat_name (of_nat i))) [0..<kRatBits] @
     map (\<lambda>i. (kDnnBase + i, ''dnn='' @ (if i < length (rs_dnn_names rs) then rs_dnn_names rs ! i
                                          else dec_of_nat i))) [0..<kDnnBits] @
     named_bits @
     map (\<lambda>i. (kTimeWindowBase + i, ''time_window['' @
             dec_of_nat (unat (start_minute (rs_time_windows rs ! i))) @ ''-'' @
             dec_of_nat (unat (end_minute (rs_time_windows rs ! i))) @ '']''))
         [0..<length (rs_time_windows rs)] @
     map (\<lambda>i. (kUsageThresholdBase + i, ''usage>='' @
             dec_of_nat (unat (rs_usage_thresholds_permille rs ! i)) @ ''permille''))
         [0..<length (rs_usage_thresholds_permille rs)]"

definition describe_features :: "RuleSet \<Rightarrow> FeatureWord \<Rightarrow> string" where
  "describe_features rs f =
     (let out = foldl (\<lambda>out (b, w). if f AND feat_bit b \<noteq> 0 then add_word out w else out) [] (describe_words rs)
      in if out = [] then ''(none)'' else out)"

section \<open>Usage thresholds\<close>

lemma permille_exact:
  "usage_at_least_permille usage quota permille \<longleftrightarrow>
     quota \<noteq> 0 \<and> unat permille * unat quota \<le> 1000 * unat usage"
proof -
  have u: "unat usage < 2 ^ 64" "unat quota < 2 ^ 64" "unat permille < 2 ^ 32"
    using unat_less_power [of usage] unat_less_power [of quota] unat_less_power [of permille] by simp_all
  have "unat ((ucast usage :: 128 word) * 1000) = unat usage * 1000"
    using u(1) by (subst unat_word_ariths(2)) (simp add: unat_ucast_up)
  moreover have "unat quota * unat permille < 2 ^ 64 * 2 ^ 32" using u(2,3) by (intro mult_strict_mono) simp_all
  then have "unat ((ucast quota :: 128 word) * ucast permille) = unat quota * unat permille"
    by (subst unat_word_ariths(2)) (simp add: unat_ucast_up)
  ultimately show ?thesis
    by (simp add: usage_at_least_permille_def Let_def word_le_nat_alt mult.commute)
qed

lemma permille_ratio:
  assumes "0 < q"
  shows "(of_nat u :: rat) / of_nat q \<ge> of_nat p / 1000 \<longleftrightarrow> p * q \<le> 1000 * u"
proof -
  have "(of_nat u :: rat) / of_nat q \<ge> of_nat p / 1000 \<longleftrightarrow> of_nat (p * q) \<le> (of_nat (1000 * u) :: rat)"
    using assms by (simp add: divide_simps mult.commute)
  then show ?thesis by (simp only: of_nat_le_iff)
qed

text \<open>
  C27: a usage threshold is exact: on a metered plan the bit is set iff usage/quota is at least
  permille/1000, with no rounding and no overflow for any 64-bit usage and quota. It is monotone in
  the usage, and the 1000-permille threshold is quota exhaustion.
\<close>

theorem usage_threshold_exact:
  "(usage_at_least_permille usage quota permille \<longleftrightarrow>
      quota \<noteq> 0 \<and> (of_nat (unat usage) :: rat) / of_nat (unat quota) \<ge> of_nat (unat permille) / 1000) \<and>
   (usage_at_least_permille usage quota 1000 \<longleftrightarrow> quota \<noteq> 0 \<and> usage \<ge> quota) \<and>
   (usage \<le> usage' \<longrightarrow> usage_at_least_permille usage quota permille \<longrightarrow>
      usage_at_least_permille usage' quota permille)"
proof (intro conjI impI)
  show "usage_at_least_permille usage quota permille \<longleftrightarrow>
      quota \<noteq> 0 \<and> (of_nat (unat usage) :: rat) / of_nat (unat quota) \<ge> of_nat (unat permille) / 1000"
    using permille_ratio [of "unat quota" "unat permille" "unat usage"]
    unfolding permille_exact unat_gt_0 by blast
  show "usage_at_least_permille usage quota 1000 \<longleftrightarrow> quota \<noteq> 0 \<and> usage \<ge> quota"
    by (simp add: permille_exact word_le_nat_alt)
  assume "usage \<le> usage'" "usage_at_least_permille usage quota permille"
  then show "usage_at_least_permille usage' quota permille"
    by (auto simp: permille_exact word_le_nat_alt)
qed

theorem usage_threshold_exact_witness:
  "usage_at_least_permille 900 1000 800 \<and> \<not> usage_at_least_permille 799 1000 800"
proof -
  have "usage_at_least_permille 800 1000 800" "\<not> usage_at_least_permille 799 1000 800" by code_simp+
  moreover have "(800 :: u64) \<le> 900" by simp
  ultimately show ?thesis
    using usage_threshold_exact [of 800 1000 800 900] by blast
qed

text \<open>
  the variant without 128-bit integers agrees whenever the quota is a multiple of 1000 (and the
  product fits in 64 bits), but truncates otherwise: with a quota of one byte and a 500-permille
  threshold it reports the threshold as reached at usage 0.
\<close>

theorem fallback_threshold_truncates:
  "(unat quota mod 1000 = 0 \<longrightarrow> unat quota * unat permille < 2 ^ 64 \<longrightarrow>
      usage_at_least_permille_64 usage quota permille = usage_at_least_permille usage quota permille) \<and>
   usage_at_least_permille_64 0 1 500 \<and> \<not> usage_at_least_permille 0 1 500"
proof (intro conjI impI)
  show "usage_at_least_permille_64 0 1 500" "\<not> usage_at_least_permille 0 1 500"
    by (simp_all add: usage_at_least_permille_64_def usage_at_least_permille_def)
  assume m: "unat quota mod 1000 = 0" and fits: "unat quota * unat permille < 2 ^ 64"
  have q: "unat quota = 1000 * (unat quota div 1000)" using m by (simp add: mod_eq_0_iff_dvd)
  have "quota mod 1000 = 0" using m by (simp add: unat_eq_0 [symmetric] unat_mod)
  moreover have "(unat quota div 1000) * unat permille \<le> unat quota * unat permille"
    by (intro mult_right_mono div_le_dividend) simp
  then have "(unat quota div 1000) * unat permille < 2 ^ 64" using fits by (rule le_less_trans)
  then have "unat ((quota div 1000) * ucast permille) = (unat quota div 1000) * unat permille"
    by (subst unat_word_ariths(2)) (simp add: unat_div unat_ucast_up)
  ultimately have l: "usage_at_least_permille_64 usage quota permille \<longleftrightarrow>
      quota \<noteq> 0 \<and> unat permille * (unat quota div 1000) \<le> unat usage"
    by (simp add: usage_at_least_permille_64_def word_le_nat_alt mult.commute)
  have r: "unat permille * unat quota = 1000 * (unat permille * (unat quota div 1000))"
    by (subst q) simp
  show "usage_at_least_permille_64 usage quota permille = usage_at_least_permille usage quota permille"
    unfolding l permille_exact r by simp
qed

theorem fallback_threshold_truncates_witness:
  "usage_at_least_permille_64 500 1000 500 = usage_at_least_permille 500 1000 500"
  using fallback_threshold_truncates [of 1000 500 500] by simp

section \<open>Features\<close>

lemma bit_set_if [mask_simps]: "(c \<Longrightarrow> k < 64) \<Longrightarrow> bit (set_if c k f) b \<longleftrightarrow> bit f b \<or> (c \<and> b = k)"
  by (auto simp: set_if_def bit_or_iff bit_feat_bit)

lemma bit_set_if_fold:
  assumes "base + n \<le> 64"
  shows "bit (foldl (\<lambda>f i. set_if (P i) (base + i) f) f [0..<n]) b \<longleftrightarrow>
           bit f b \<or> (\<exists>i < n. P i \<and> b = base + i)"
  using assms by (induction n) (auto simp: bit_set_if less_Suc_eq)

text \<open>
  What each feature bit means, in terms of the request, the subscriber and the rule set.
\<close>

definition request_feature :: "RuleSet \<Rightarrow> PolicyRequest \<Rightarrow> nat \<Rightarrow> bool" where
  "request_feature rs req b \<longleftrightarrow>
     (unat (rq_rat_type req) < kRatBits \<and> b = kRatBase + unat (rq_rat_type req)) \<or>
     (unat (rq_dnn_id req) < kDnnBits \<and> b = kDnnBase + unat (rq_dnn_id req)) \<or>
     (rq_imei req \<noteq> 0 \<and> b = kImeiKnown) \<or>
     (rq_imei req \<noteq> 0 \<and> key_in (rs_imei_blocklist rs) (rq_imei req) \<and> b = kImeiBlocked) \<or>
     (rq_flags req AND kReqFlagTetheringDetected \<noteq> 0 \<and> b = kTetheringDetected) \<or>
     (rq_flags req AND kReqFlagEmergency \<noteq> 0 \<and> b = kEmergency) \<or>
     (unat (rq_requested_5qi req) \<in> set gbr_5qis \<and> b = kRequestedGbr) \<or>
     (\<exists>i < length (rs_time_windows rs).
        tw_contains (rs_time_windows rs ! i) (rq_local_minute req mod 1440) \<and> b = kTimeWindowBase + i)"

definition subscriber_feature ::
    "RuleSet \<Rightarrow> PolicyRequest \<Rightarrow> SubscriberRecord option \<Rightarrow> u64 \<Rightarrow> nat \<Rightarrow> bool" where
  "subscriber_feature rs req rec now b \<longleftrightarrow>
     (case rec of
        None \<Rightarrow> b = kStatusUnknown \<or> b = kRoaming
      | Some r \<Rightarrow>
          (let plan = rs_plan rs (sr_plan_id r);
               usage = current_usage req r;
               quota = (case plan of None \<Rightarrow> 0 | Some p \<Rightarrow> p_quota_bytes p)
           in b = status_bit (sr_status r) \<or>
              (rq_plmn req = sr_home_plmn r \<and> b = kHomePlmn) \<or>
              (rq_plmn req \<noteq> sr_home_plmn r \<and> b = kRoaming) \<or>
              (rq_plmn req \<noteq> sr_home_plmn r \<and> key_in (rs_roaming_partners rs) (ucast (rq_plmn req)) \<and>
                 b = kRoamingPartner) \<or>
              (sr_flags r AND kSubRoamingAllowed \<noteq> 0 \<and> b = kRoamingAllowed) \<or>
              (((\<exists>p. plan = Some p \<and> p_flags p AND kPlanTetheringAllowed \<noteq> 0) \<or>
                  sr_flags r AND kSubTetheringAllowed \<noteq> 0) \<and> b = kTetheringAllowed) \<or>
              (quota \<noteq> 0 \<and> usage \<ge> quota \<and> b = kQuotaExhausted) \<or>
              (\<exists>i < length (rs_usage_thresholds_permille rs).
                 quota \<noteq> 0 \<and>
                 unat (rs_usage_thresholds_permille rs ! i) * unat quota \<le> 1000 * unat usage \<and>
                 b = kUsageThresholdBase + i) \<or>
              (now \<noteq> 0 \<and> sr_period_reset_ts r \<noteq> 0 \<and> now \<ge> sr_period_reset_ts r \<and> b = kPeriodExpired)))"

lemma bit_or_fold:
  "bit (foldl (\<lambda>m q. if P q then m OR push_bit (g q) 1 else m) m qs :: u64) b \<longleftrightarrow>
     bit m b \<or> (\<exists>q \<in> set qs. P q \<and> b = g q \<and> g q < 64)"
  by (induction qs arbitrary: m) (auto simp: bit_or_iff bit_push_bit_one_iff simp del: push_bit_of_1)

lemma drop_bit_and_one: "drop_bit n w AND 1 \<noteq> 0 \<longleftrightarrow> bit w n" for w :: u64
  by (simp add: bit_iff_odd_drop_bit and_one_eq odd_iff_mod_2_eq_one)

lemma is_gbr_5qi_iff: "is_gbr_5qi q \<longleftrightarrow> unat q \<in> set gbr_5qis"
proof -
  have lo: "bit kGbrLo b \<longleftrightarrow> b \<in> set gbr_5qis \<and> b < 64" for b
    unfolding kGbrLo_def bit_or_fold by auto
  have hi: "bit kGbrHi b \<longleftrightarrow> b < 64 \<and> b + 64 \<in> set gbr_5qis" for b
    unfolding kGbrHi_def bit_or_fold by (auto simp: gbr_5qis_def)
  have gt: "unat q \<notin> set gbr_5qis" if "\<not> unat q < 128"
    using that by (auto simp: gbr_5qis_def)
  have q: "q < 64 \<longleftrightarrow> unat q < 64" "q < 128 \<longleftrightarrow> unat q < 128" by (simp_all add: word_less_nat_alt)
  show ?thesis
    unfolding is_gbr_5qi_def drop_bit_and_one lo hi q using gt by auto
qed

lemma request_features_bits:
  assumes "rs_ok rs"
  shows "\<exists>f. request_features rs req = Some f \<and> (\<forall>b. bit f b \<longleftrightarrow> request_feature rs req b)"
proof -
  have ok: "key_set_ok (rs_imei_blocklist rs)" "40 + length (rs_time_windows rs) \<le> 64"
    using assms by (simp_all add: rs_ok_def kMaxTimeWindows_def)
  note blk = key_set_ok_contains [OF ok(1), of "rq_imei req"]
  define f1 where "f1 = set_if (unat (rq_dnn_id req) < kDnnBits) (kDnnBase + unat (rq_dnn_id req))
    (set_if (unat (rq_rat_type req) < kRatBits) (kRatBase + unat (rq_rat_type req)) 0)"
  define f2 where "f2 = (if rq_imei req \<noteq> 0
    then set_if (key_in (rs_imei_blocklist rs) (rq_imei req)) kImeiBlocked (f1 OR feat_bit kImeiKnown) else f1)"
  define f where "f = foldl (\<lambda>f i. set_if (tw_contains (rs_time_windows rs ! i) (rq_local_minute req mod 1440))
      (kTimeWindowBase + i) f)
    (set_if (is_gbr_5qi (rq_requested_5qi req)) kRequestedGbr
      (set_if (rq_flags req AND kReqFlagEmergency \<noteq> 0) kEmergency
        (set_if (rq_flags req AND kReqFlagTetheringDetected \<noteq> 0) kTetheringDetected f2)))
    [0..<length (rs_time_windows rs)]"
  have "request_features rs req = Some f"
    by (simp add: request_features_def f_def f2_def f1_def blk Let_def)
  moreover have f1: "bit f1 b \<longleftrightarrow> (unat (rq_rat_type req) < 8 \<and> b = unat (rq_rat_type req)) \<or>
      (unat (rq_dnn_id req) < 16 \<and> b = 8 + unat (rq_dnn_id req))" for b
    by (simp add: f1_def bit_set_if feat_defs)
  have f2: "bit f2 b \<longleftrightarrow> bit f1 b \<or> (rq_imei req \<noteq> 0 \<and> b = 32) \<or>
      (rq_imei req \<noteq> 0 \<and> key_in (rs_imei_blocklist rs) (rq_imei req) \<and> b = 33)" for b
    by (auto simp: f2_def bit_set_if bit_or_iff bit_feat_bit feat_defs)
  have "bit f b \<longleftrightarrow> request_feature rs req b" for b
    using ok(2) unfolding f_def request_feature_def
    by (simp add: bit_set_if bit_set_if_fold f1 f2 is_gbr_5qi_iff feat_defs)
  ultimately show ?thesis by blast
qed

lemma build_features_bits:
  assumes "rs_ok rs"
  shows "\<exists>f. build_features rs req rec now = Some f \<and>
           (\<forall>b. bit f b \<longleftrightarrow> request_feature rs req b \<or> subscriber_feature rs req rec now b)"
proof -
  obtain f where f: "request_features rs req = Some f" "\<And>b. bit f b \<longleftrightarrow> request_feature rs req b"
    using request_features_bits [OF assms] by blast
  show ?thesis
  proof (cases rec)
    case None
    then show ?thesis
      using f by (simp add: build_features_def subscriber_feature_def bit_or_iff bit_feat_bit feat_defs)
  next
    case (Some r)
    have ok: "key_set_ok (rs_roaming_partners rs)" "48 + length (rs_usage_thresholds_permille rs) \<le> 64"
      using assms by (simp_all add: rs_ok_def kMaxUsageThresholds_def)
    note par = key_set_ok_contains [OF ok(1), of "ucast (rq_plmn req)"]
    define plan where "plan = rs_plan rs (sr_plan_id r)"
    define quota where "quota = (case plan of None \<Rightarrow> 0 | Some p \<Rightarrow> p_quota_bytes p)"
    define teth where "teth = (case plan of None \<Rightarrow> False | Some p \<Rightarrow> p_flags p AND kPlanTetheringAllowed \<noteq> 0)"
    define f1 where "f1 = (if rq_plmn req = sr_home_plmn r
      then (f OR feat_bit (status_bit (sr_status r))) OR feat_bit kHomePlmn
      else set_if (key_in (rs_roaming_partners rs) (ucast (rq_plmn req))) kRoamingPartner
        ((f OR feat_bit (status_bit (sr_status r))) OR feat_bit kRoaming))"
    define f2 where "f2 = set_if (quota \<noteq> 0 \<and> current_usage req r \<ge> quota) kQuotaExhausted
      (set_if (teth \<or> sr_flags r AND kSubTetheringAllowed \<noteq> 0) kTetheringAllowed
        (set_if (sr_flags r AND kSubRoamingAllowed \<noteq> 0) kRoamingAllowed f1))"
    define f3 where "f3 = set_if (now \<noteq> 0 \<and> sr_period_reset_ts r \<noteq> 0 \<and> now \<ge> sr_period_reset_ts r) kPeriodExpired
      (foldl (\<lambda>f i. set_if (usage_at_least_permille (current_usage req r) quota
         (rs_usage_thresholds_permille rs ! i)) (kUsageThresholdBase + i) f) f2
         [0..<length (rs_usage_thresholds_permille rs)])"
    have "build_features rs req rec now = Some f3"
      by (simp add: build_features_def Some f(1) par f3_def f2_def f1_def quota_def teth_def plan_def Let_def)
    moreover have st: "status_bit (sr_status r) < 64" by (simp add: status_bit_def feat_defs)
    have f1: "bit f1 b \<longleftrightarrow> request_feature rs req b \<or> b = status_bit (sr_status r) \<or>
        (rq_plmn req = sr_home_plmn r \<and> b = kHomePlmn) \<or> (rq_plmn req \<noteq> sr_home_plmn r \<and> b = kRoaming) \<or>
        (rq_plmn req \<noteq> sr_home_plmn r \<and> key_in (rs_roaming_partners rs) (ucast (rq_plmn req)) \<and> b = kRoamingPartner)" for b
      using st by (auto simp: f1_def f(2) bit_set_if bit_or_iff bit_feat_bit feat_defs)
    have teth: "teth \<longleftrightarrow> (\<exists>p. plan = Some p \<and> p_flags p AND kPlanTetheringAllowed \<noteq> 0)"
      by (simp add: teth_def split: option.split)
    have "bit f3 b \<longleftrightarrow> request_feature rs req b \<or> subscriber_feature rs req rec now b" for b
      using ok(2) unfolding f3_def f2_def subscriber_feature_def Some option.case Let_def
        plan_def [symmetric] quota_def [symmetric]
      by (simp add: bit_set_if bit_set_if_fold f1 teth permille_exact kQuotaExhausted_def kTetheringAllowed_def
          kRoamingAllowed_def kUsageThresholdBase_def kPeriodExpired_def)
    ultimately show ?thesis by blast
  qed
qed


text \<open>
  C20: the feature word is built for every request against a well-formed rule set, and each of its 64
  bits means what the layout says: RAT, DNN, device, session and time-window bits from the request,
  status, location, entitlement, quota and threshold bits from the subscriber and its plan.
\<close>

theorem features_meaning:
  assumes "rs_ok rs"
  shows "\<exists>f. build_features rs req rec now = Some f \<and>
           (\<forall>b. bit f b \<longleftrightarrow> request_feature rs req b \<or> subscriber_feature rs req rec now b)"
  using assms by (rule build_features_bits)

definition status_bits :: "nat list" where
  "status_bits = [kStatusActive, kStatusSuspended, kStatusBarred, kStatusUnknown]"

text \<open>
  C21: the feature word is consistent, as the layout promises: exactly one status bit is set, exactly
  one of home and roaming is set for a known subscriber, a partner bit implies roaming and a blocked
  device is a known device, at most one RAT and one DNN bit is set, and bits 56 to 63 are clear.
\<close>

theorem features_consistent:
  assumes "rs_ok rs" "build_features rs req rec now = Some f"
  shows "(\<exists>!b. b \<in> set status_bits \<and> bit f b) \<and>
         (rec \<noteq> None \<longrightarrow> (bit f kHomePlmn \<longleftrightarrow> \<not> bit f kRoaming)) \<and>
         (bit f kRoamingPartner \<longrightarrow> bit f kRoaming) \<and> (bit f kImeiBlocked \<longrightarrow> bit f kImeiKnown) \<and>
         (\<forall>b c. b < 8 \<longrightarrow> c < 8 \<longrightarrow> bit f b \<longrightarrow> bit f c \<longrightarrow> b = c) \<and>
         (\<forall>b c. 8 \<le> b \<longrightarrow> b < 24 \<longrightarrow> 8 \<le> c \<longrightarrow> c < 24 \<longrightarrow> bit f b \<longrightarrow> bit f c \<longrightarrow> b = c) \<and>
         (\<forall>b. 56 \<le> b \<longrightarrow> \<not> bit f b)"
proof -
  have bits: "bit f b \<longleftrightarrow> request_feature rs req b \<or> subscriber_feature rs req rec now b" for b
    using build_features_bits [OF assms(1), of req rec now] assms(2) by auto
  have len: "length (rs_time_windows rs) \<le> 8" "length (rs_usage_thresholds_permille rs) \<le> 8"
    using assms(1) by (simp_all add: rs_ok_def kMaxTimeWindows_def kMaxUsageThresholds_def)
  have st: "status_bit x \<in> {24, 25, 26, 27}" for x by (simp add: status_bit_def feat_defs)
  note fs = bits request_feature_def subscriber_feature_def Let_def feat_defs
  let ?sb = "case rec of None \<Rightarrow> kStatusUnknown | Some r \<Rightarrow> status_bit (sr_status r)"
  have "bit f b \<longleftrightarrow> b = ?sb" if "b \<in> {24..27}" for b
    using that len by (cases rec) (auto simp: fs)
  moreover have "?sb \<in> {24..27}"
    using st [of "sr_status (the rec)"] by (auto simp: kStatusUnknown_def split: option.split)
  moreover have "set status_bits = {24..27}" by (auto simp: status_bits_def feat_defs)
  ultimately have status: "\<exists>!b. b \<in> set status_bits \<and> bit f b" by auto
  have home: "rec \<noteq> None \<longrightarrow> (bit f kHomePlmn \<longleftrightarrow> \<not> bit f kRoaming)"
    using st [of "sr_status (the rec)"] len by (cases rec) (auto simp: fs)
  have partner: "bit f kRoamingPartner \<longrightarrow> bit f kRoaming"
    using st [of "sr_status (the rec)"] len by (cases rec) (auto simp: fs)
  have device: "bit f kImeiBlocked \<longrightarrow> bit f kImeiKnown"
    using st [of "sr_status (the rec)"] len by (cases rec) (auto simp: fs)
  have rat: "bit f b \<longrightarrow> b = unat (rq_rat_type req)" if "b < 8" for b
    using that st [of "sr_status (the rec)"] len by (cases rec) (force simp: fs)+
  have dnn: "bit f b \<longrightarrow> b = 8 + unat (rq_dnn_id req)" if "8 \<le> b" "b < 24" for b
    using that st [of "sr_status (the rec)"] len by (cases rec) (force simp: fs)+
  have res: "\<not> bit f b" if "56 \<le> b" for b
    using that st [of "sr_status (the rec)"] len by (cases rec) (force simp: fs)+
  have "\<forall>b c. b < 8 \<longrightarrow> c < 8 \<longrightarrow> bit f b \<longrightarrow> bit f c \<longrightarrow> b = c"
    "\<forall>b c. 8 \<le> b \<longrightarrow> b < 24 \<longrightarrow> 8 \<le> c \<longrightarrow> c < 24 \<longrightarrow> bit f b \<longrightarrow> bit f c \<longrightarrow> b = c"
    using rat dnn by metis+
  then show ?thesis using res status home partner device by blast
qed

theorem features_meaning_witness:
  "\<exists>f. build_features empty_RuleSet zero_request None 0 = Some f \<and> bit f kStatusUnknown \<and> \<not> bit f kHomePlmn"
  using features_meaning [OF empty_RuleSet_ok, of zero_request None 0]
  by (auto simp: request_feature_def subscriber_feature_def feat_defs zero_request_def empty_RuleSet_def gbr_5qis_def)

theorem features_consistent_witness:
  "\<exists>f. build_features empty_RuleSet zero_request None 0 = Some f \<and> (\<exists>!b. b \<in> set status_bits \<and> bit f b)"
proof -
  obtain f where "build_features empty_RuleSet zero_request None 0 = Some f"
    using build_features_bits [OF empty_RuleSet_ok] by blast
  with features_consistent [OF empty_RuleSet_ok this] show ?thesis by blast
qed

section \<open>Decisions\<close>

text \<open>When a compiled rule applies: every feature it cares about has the value it wants, and the
  subscriber's plan is one of its plans (a rule without plans applies to all).\<close>

definition rule_applies :: "FeatureWord \<Rightarrow> SubscriberRecord option \<Rightarrow> CompiledRule \<Rightarrow> bool" where
  "rule_applies f rec r \<longleftrightarrow>
     (\<forall>b < 64. (bit f b \<and> bit (r_match_mask r) b) = bit (r_match_value r) b) \<and>
     (r_plan_mask r = 0 \<or>
      (\<exists>s. rec = Some s \<and> unat (sr_plan_id s) < kMaxPlans \<and> bit (r_plan_mask r) (unat (sr_plan_id s))))"

lemma plan_bit_and:
  "m AND plan_bit_for rec \<noteq> 0 \<longleftrightarrow>
     (\<exists>s. rec = Some s \<and> unat (sr_plan_id s) < kMaxPlans \<and> bit m (unat (sr_plan_id s)))"
  unfolding plan_bit_for_def
  by (cases rec) (auto simp: and_push_bit_one_nonzero simp del: push_bit_of_1)

lemma find_hit_eq_find: "find_hit f (plan_bit_for rec) rules = List.find (rule_applies f rec) rules"
proof (induction rules)
  case (Cons r rules)
  have "f AND r_match_mask r = r_match_value r \<longleftrightarrow>
      (\<forall>b < 64. (bit f b \<and> bit (r_match_mask r) b) = bit (r_match_value r) b)"
    using and_eq_iff_bits [of f "r_match_mask r" "r_match_value r"] by simp
  then show ?case
    using Cons plan_bit_and [of "r_plan_mask r" rec] by (auto simp: rule_applies_def)
qed simp

lemma find_hit_split:
  "find_hit f (plan_bit_for rec) rules = Some r \<longleftrightarrow>
     (\<exists>pre post. rules = pre @ r # post \<and> rule_applies f rec r \<and> (\<forall>q \<in> set pre. \<not> rule_applies f rec q))"
  unfolding find_hit_eq_find
proof
  assume "List.find (rule_applies f rec) rules = Some r"
  then obtain i where i: "i < length rules" "rule_applies f rec (rules ! i)" "r = rules ! i"
    "\<forall>j < i. \<not> rule_applies f rec (rules ! j)"
    by (auto simp: find_Some_iff)
  have "\<forall>q \<in> set (take i rules). \<not> rule_applies f rec q"
    using i(4) by (auto simp: in_set_conv_nth)
  then show "\<exists>pre post. rules = pre @ r # post \<and> rule_applies f rec r \<and> (\<forall>q \<in> set pre. \<not> rule_applies f rec q)"
    using i id_take_nth_drop [OF i(1)] by blast
next
  assume "\<exists>pre post. rules = pre @ r # post \<and> rule_applies f rec r \<and> (\<forall>q \<in> set pre. \<not> rule_applies f rec q)"
  then obtain pre post where p: "rules = pre @ r # post" "rule_applies f rec r" "\<forall>q \<in> set pre. \<not> rule_applies f rec q"
    by blast
  from p(3) show "List.find (rule_applies f rec) rules = Some r"
    unfolding p(1) using p(2) by (induction pre) auto
qed

lemma find_hit_None:
  "find_hit f (plan_bit_for rec) rules = None \<longleftrightarrow> (\<forall>q \<in> set rules. \<not> rule_applies f rec q)"
  unfolding find_hit_eq_find by (auto simp: find_None_iff)

lemma grant_fields [policy_simps]:
  "d_verdict (grant_qos act plan d) = d_verdict d" "d_verdict (grant_ambr act plan d) = d_verdict d"
  "d_verdict (grant_rating act plan d) = d_verdict d" "d_verdict (grant_quota req rec act plan d) = d_verdict d"
  "d_verdict (mark_usage req d) = d_verdict d" "d_verdict (strip_deny d) = d_verdict d"
  by (simp_all add: grant_qos_def grant_ambr_def grant_rating_def grant_quota_def mark_usage_def strip_deny_def
      Let_def split: option.split)

definition header :: "PolicyDecision \<Rightarrow> u32 \<times> u32 \<times> u64 \<times> u32 \<times> u32 \<times> u8 \<times> u8 \<times> u8" where
  "header d = (d_magic_version d, d_seq d, d_client_ts_ns d, d_policy_version d, d_rule_id d,
     d_verdict d, d_reason d, d_redirect_id d)"

lemma header_kept [policy_simps]:
  "header (grant_qos act plan d) = header d" "header (grant_ambr act plan d) = header d"
  "header (grant_rating act plan d) = header d" "header (grant_quota req rec act plan d) = header d"
  "header (mark_usage req d) = header d" "header (strip_deny d) = header d"
  by (simp_all add: header_def grant_qos_def grant_ambr_def grant_rating_def grant_quota_def mark_usage_def
      strip_deny_def Let_def split: option.split)

lemma decide_header:
  "header (decide rs req rec hit) =
     (kMagicVersion, rq_seq req, rq_client_ts_ns req, rs_version rs,
      (case hit of None \<Rightarrow> 0 | Some r \<Rightarrow> r_id r), a_verdict (hit_action rs hit),
      (case hit of None \<Rightarrow> reason_u8 kNoMatchingRule | Some r \<Rightarrow> a_reason (r_action r)),
      a_redirect_id (hit_action rs hit))"
proof -
  have "header (decide rs req rec hit) = header (base_decision rs req hit (hit_action rs hit))"
    by (simp add: decide_def Let_def policy_simps)
  then show ?thesis
    by (simp add: header_def base_decision_def hit_action_def split: option.split)
qed

text \<open>A one-rule policy and a request, for the evaluated instances below.\<close>

definition sample_rule :: CompiledRule where
  "sample_rule = \<lparr> r_match_mask = feat_bit kStatusActive, r_match_value = feat_bit kStatusActive,
     r_plan_mask = 1, r_id = 7, r_priority = 10,
     r_action = zero_action\<lparr> a_reason := reason_u8 kPlanDefault, a_inherit_mask := kInheritAll \<rparr> \<rparr>"

definition sample_rs :: RuleSet where
  "sample_rs = empty_RuleSet\<lparr> rs_version := 3, rs_rules := [sample_rule],
     rs_plans := [default_plan\<lparr> p_quota_bytes := 1000, p_ambr_dl_kbps := 50 \<rparr>],
     rs_default_action := zero_action\<lparr> a_verdict := verdict_u8 kDeny \<rparr> \<rparr>"

definition sample_sub :: SubscriberRecord where
  "sample_sub = empty_record\<lparr> sr_imsi := 310260000000001, sr_bytes_used_period := 400 \<rparr>"

lemma sample_rs_ok: "rs_ok sample_rs"
  by (simp add: rs_ok_def sample_rs_def empty_RuleSet_def kMaxTimeWindows_def kMaxUsageThresholds_def kMaxPlans_def)

text \<open>
  C1: a decision is the first match: against a well-formed rule set every request is answered, the
  reply carries this protocol version, the rule-set version and the request's sequence number and
  timestamp, and it is decided by the first rule in scan order that applies to the request's features
  and the subscriber's plan (its id, verdict, reason and redirect), or, when none applies, by the
  default action with rule id 0 and reason NO_MATCHING_RULE.
\<close>

theorem evaluate_first_match:
  assumes "rs_ok rs"
  shows "\<exists>f d. build_features rs req rec now = Some f \<and> evaluate rs req rec now = Some d \<and>
     d_magic_version d = kMagicVersion \<and> d_seq d = rq_seq req \<and>
     d_client_ts_ns d = rq_client_ts_ns req \<and> d_policy_version d = rs_version rs \<and>
     ((\<exists>pre r post. rs_rules rs = pre @ r # post \<and> rule_applies f rec r \<and>
         (\<forall>q \<in> set pre. \<not> rule_applies f rec q) \<and>
         d_rule_id d = r_id r \<and> d_verdict d = a_verdict (r_action r) \<and>
         d_reason d = a_reason (r_action r) \<and> d_redirect_id d = a_redirect_id (r_action r)) \<or>
      ((\<forall>q \<in> set (rs_rules rs). \<not> rule_applies f rec q) \<and>
         d_rule_id d = 0 \<and> d_verdict d = a_verdict (rs_default_action rs) \<and>
         d_reason d = reason_u8 kNoMatchingRule))"
proof -
  obtain f where f: "build_features rs req rec now = Some f"
    using build_features_bits [OF assms] by blast
  define hit where "hit = find_hit f (plan_bit_for rec) (rs_rules rs)"
  have d: "evaluate rs req rec now = Some (decide rs req rec hit)"
    by (simp add: evaluate_def f hit_def)
  note h = decide_header [of rs req rec hit, unfolded header_def prod.inject]
  show ?thesis
  proof (cases hit)
    case None
    then have "\<forall>q \<in> set (rs_rules rs). \<not> rule_applies f rec q"
      using find_hit_None hit_def by metis
    then show ?thesis
      using f d h None by (intro exI [of _ f] exI [of _ "decide rs req rec hit"]) (simp add: hit_action_def)
  next
    case (Some r)
    then obtain pre post where "rs_rules rs = pre @ r # post" "rule_applies f rec r"
      "\<forall>q \<in> set pre. \<not> rule_applies f rec q"
      using find_hit_split hit_def by metis
    then show ?thesis
      using f d h Some by (intro exI [of _ f] exI [of _ "decide rs req rec hit"]) (auto simp: hit_action_def)
  qed
qed

theorem evaluate_first_match_witness:
  "\<exists>d. evaluate sample_rs zero_request (Some sample_sub) 0 = Some d \<and> d_rule_id d = 7 \<and>
        d_policy_version d = 3 \<and> d_verdict d = verdict_u8 kAllow"
proof -
  have "map_option d_rule_id (evaluate sample_rs zero_request (Some sample_sub) 0) = Some 7"
    "map_option d_verdict (evaluate sample_rs zero_request (Some sample_sub) 0) = Some (verdict_u8 kAllow)"
    by code_simp+
  moreover obtain d where "evaluate sample_rs zero_request (Some sample_sub) 0 = Some d"
    "d_policy_version d = rs_version sample_rs"
    using evaluate_first_match [OF sample_rs_ok, of zero_request "Some sample_sub" 0] by blast
  ultimately show ?thesis by (simp add: sample_rs_def)
qed

text \<open>
  C8: a denied session is authorised nothing: whatever rule, plan and request produced it, a reply
  with verdict DENY grants no bandwidth, no quota, no validity and no QoS class.
\<close>

theorem deny_grants_nothing:
  assumes "evaluate rs req rec now = Some d" "d_verdict d = verdict_u8 kDeny"
  shows "d_ambr_ul_kbps d = 0 \<and> d_ambr_dl_kbps d = 0 \<and> d_quota_bytes d = 0 \<and>
         d_quota_validity_s d = 0 \<and> d_qos_5qi d = 0 \<and> d_arp d = 0"
proof -
  obtain d' where "d = strip_deny d'"
    using assms(1) by (auto simp: evaluate_def decide_def Let_def split: bind_splits)
  then show ?thesis
    using assms(2) by (auto simp: strip_deny_def split: if_splits)
qed

theorem deny_grants_nothing_witness:
  "\<exists>d. evaluate sample_rs zero_request None 0 = Some d \<and> d_verdict d = verdict_u8 kDeny \<and> d_qos_5qi d = 0"
proof -
  have v: "map_option d_verdict (evaluate sample_rs zero_request None 0) = Some (verdict_u8 kDeny)"
    by code_simp
  then obtain d where "evaluate sample_rs zero_request None 0 = Some d" "d_verdict d = verdict_u8 kDeny"
    by auto
  then show ?thesis using deny_grants_nothing by blast
qed

text \<open>
  C26: a quota inherited from the plan is the unused rest of the allowance: for a session that is not
  denied, a rule that inherits the quota grants exactly the plan's quota less the usage (the usage the
  request reports, else the subscriber's counter) and nothing once the usage has reached the quota;
  it never grants more than the plan's quota.
\<close>

theorem inherited_quota_is_remaining:
  assumes "evaluate rs req (Some s) now = Some d" "build_features rs req (Some s) now = Some f"
    and "find_hit f (plan_bit_for (Some s)) (rs_rules rs) = Some r"
    and "bit (a_inherit_mask (r_action r)) 2" "rs_plan rs (sr_plan_id s) = Some p"
    and "d_verdict d \<noteq> verdict_u8 kDeny"
  shows "unat (d_quota_bytes d) = unat (p_quota_bytes p) - unat (current_usage req s) \<and>
         d_quota_bytes d \<le> p_quota_bytes p \<and> d_quota_validity_s d = p_quota_validity_s p"
proof -
  have "a_inherit_mask (r_action r) AND kInheritQuota \<noteq> 0"
    using assms(4) and_push_bit_one_nonzero [of "a_inherit_mask (r_action r)" 2]
    by (simp only: kInheritQuota_def)
  then have inh: "inherits (r_action r) kInheritQuota (Some p) = Some p" by (simp add: inherits_def)
  let ?d = "grant_rating (r_action r) (Some p) (grant_ambr (r_action r) (Some p)
     (grant_qos (r_action r) (Some p) (base_decision rs req (Some r) (r_action r))))"
  have d: "d = strip_deny (mark_usage req (grant_quota req (Some s) (r_action r) (Some p) ?d))"
    using assms(1-3,5) by (simp add: evaluate_def decide_def Let_def hit_action_def)
  have "d_verdict (mark_usage req (grant_quota req (Some s) (r_action r) (Some p) ?d)) \<noteq> verdict_u8 kDeny"
    using assms(6) unfolding d by (simp add: policy_simps)
  then have d: "d = mark_usage req (grant_quota req (Some s) (r_action r) (Some p) ?d)"
    using d by (simp add: strip_deny_def)
  let ?u = "current_usage req s" and ?q = "p_quota_bytes p"
  have "reported_usage req (Some s) = ?u" by (simp add: reported_usage_def current_usage_def)
  then have g: "d_quota_bytes d = (if ?q > ?u then ?q - ?u else 0)" "d_quota_validity_s d = p_quota_validity_s p"
    unfolding d by (simp_all add: mark_usage_def grant_quota_def inh Let_def)
  moreover have "?q > ?u \<Longrightarrow> unat (?q - ?u) = unat ?q - unat ?u"
    by (simp add: unat_sub word_less_nat_alt word_le_nat_alt)
  ultimately show ?thesis
    by (auto simp: word_le_nat_alt word_less_nat_alt not_less)
qed


theorem inherited_quota_is_remaining_witness:
  "\<exists>d. evaluate sample_rs zero_request (Some sample_sub) 0 = Some d \<and> unat (d_quota_bytes d) = 600"
proof -
  have e: "build_features sample_rs zero_request (Some sample_sub) 0 = Some 285212929"
    by code_simp
  have hit: "find_hit 285212929 (plan_bit_for (Some sample_sub)) (rs_rules sample_rs) = Some sample_rule"
    "bit (a_inherit_mask (r_action sample_rule)) 2"
    "rs_plan sample_rs (sr_plan_id sample_sub) = Some (default_plan\<lparr> p_quota_bytes := 1000, p_ambr_dl_kbps := 50 \<rparr>)"
    "map_option d_verdict (evaluate sample_rs zero_request (Some sample_sub) 0) = Some (verdict_u8 kAllow)"
    "verdict_u8 kAllow \<noteq> verdict_u8 kDeny" "unat (current_usage zero_request sample_sub) = 400"
    by code_simp+
  then obtain d where d: "evaluate sample_rs zero_request (Some sample_sub) 0 = Some d" "d_verdict d \<noteq> verdict_u8 kDeny"
    by auto
  from inherited_quota_is_remaining [OF d(1) e hit(1-3) d(2)] show ?thesis
    using d(1) hit(6) by simp
qed

end
