(* ===== verification/Subscriber_Csv.thy ===== *)
theory Subscriber_Csv
  imports Subscriber_Store
begin

text \<open>
  The CSV loader of the subscriber roster (\<^verbatim>\<open>SubscriberStore::load_csv\<close> in \<^verbatim>\<open>src/subscriber_store.cpp\<close>).
  The file is a parameter: its contents, or \<^const>\<open>None\<close> when it cannot be opened.
\<close>

unbundle bit_operations_syntax

section \<open>Fields\<close>

definition csv_trim :: "string \<Rightarrow> string" where
  "csv_trim = trim_by (\<lambda>c. c = CHR '' '' \<or> c = CHR 0x09 \<or> c = CHR 0x0D)"

fun split_fields :: "nat \<Rightarrow> string \<Rightarrow> string list" where
  "split_fields 0 line = []"
| "split_fields (Suc n) line =
     (case split_at_char (CHR '','') line of
        (a, None) \<Rightarrow> [a]
      | (a, Some rest) \<Rightarrow> a # split_fields n rest)"

definition parse_u64 :: "string \<Rightarrow> u64 option" where
  "parse_u64 s = (let s = csv_trim s in if s = [] then None else parse_digits_loop 0 s)"

definition parse_status :: "string \<Rightarrow> SubscriberStatus option" where
  "parse_status s =
     (let s = csv_trim s in
      if s = ''ACTIVE'' \<or> s = ''active'' \<or> s = ''0'' then Some kActive
      else if s = ''SUSPENDED'' \<or> s = ''suspended'' \<or> s = ''1'' then Some kSuspended
      else if s = ''BARRED'' \<or> s = ''barred'' \<or> s = ''2'' then Some kBarred
      else None)"

definition sub_flag :: "string \<Rightarrow> u32" where
  "sub_flag tok =
     (if tok = ''roaming'' then kSubRoamingAllowed
      else if tok = ''tethering'' then kSubTetheringAllowed
      else if tok = ''volte'' then kSubVolteEnabled
      else if tok = ''test'' then kSubTestSubscriber
      else 0)"

definition parse_sub_flags :: "string \<Rightarrow> u32" where
  "parse_sub_flags s = foldl (\<lambda>flags tok. flags OR sub_flag (csv_trim tok)) 0 (split_all (CHR ''|'') s)"

text \<open>One data row: the record, or the message \<^verbatim>\<open>note\<close> is given.\<close>

definition parse_row :: "string list \<Rightarrow> string \<Rightarrow> string + SubscriberRecord" where
  "parse_row plan_names sv =
     (let f = split_fields 8 sv; n = length f in
      if n < 7 then Inl (''expected at least 7 comma-separated fields, got '' @ dec_of_nat n)
      else case parse_imsi (csv_trim (f ! 0)) of
        None \<Rightarrow> Inl (''invalid IMSI '' @ quoted (csv_trim (f ! 0)))
      | Some imsi \<Rightarrow>
        if imsi = 0 then Inl (''invalid IMSI '' @ quoted (csv_trim (f ! 0)))
        else case parse_imei (csv_trim (f ! 1)) of
          None \<Rightarrow> Inl (''invalid IMEI '' @ quoted (csv_trim (f ! 1)))
        | Some imei \<Rightarrow>
          (case index_of (csv_trim (f ! 2)) plan_names of
            None \<Rightarrow> Inl (''unknown plan '' @ quoted (csv_trim (f ! 2)))
          | Some plan \<Rightarrow>
            (case parse_status (f ! 3) of
              None \<Rightarrow> Inl (''invalid status '' @ quoted (csv_trim (f ! 3)))
            | Some status \<Rightarrow>
              (case (parse_u64 (f ! 4), parse_u64 (f ! 5), parse_plmn (csv_trim (f ! 6))) of
                (Some used, Some reset_ts, Some plmn) \<Rightarrow>
                  Inr \<lparr> sr_imsi = imsi, sr_imei = imei, sr_plan_id = of_nat plan,
                        sr_status = status_u32 status, sr_bytes_used_period = used,
                        sr_period_reset_ts = reset_ts, sr_home_plmn = plmn,
                        sr_flags = (if n \<ge> 8 then parse_sub_flags (f ! 7) else 0) \<rparr>
              | _ \<Rightarrow> Inl ''invalid usage/reset/plmn field''))))"

section \<open>The loader\<close>

record LoadResult =
  lr_loaded :: nat
  lr_skipped :: nat
  lr_errors :: "string list"

definition kMaxReportedErrors :: nat where "kMaxReportedErrors = 32"

definition lr_ok :: "LoadResult \<Rightarrow> bool" where "lr_ok res \<longleftrightarrow> lr_errors res = []"

definition csv_note :: "string \<Rightarrow> nat \<Rightarrow> string \<Rightarrow> LoadResult \<Rightarrow> LoadResult" where
  "csv_note path line_no msg res =
     (let res = res\<lparr> lr_skipped := lr_skipped res + 1 \<rparr> in
      if length (lr_errors res) < kMaxReportedErrors
      then res\<lparr> lr_errors := lr_errors res @ [path @ '':'' @ dec_of_nat line_no @ '': '' @ msg] \<rparr>
      else if length (lr_errors res) = kMaxReportedErrors
      then res\<lparr> lr_errors := lr_errors res @ [''... further errors suppressed''] \<rparr>
      else res)"

fun load_lines ::
    "string \<Rightarrow> string list \<Rightarrow> nat \<Rightarrow> bool \<Rightarrow> string list \<Rightarrow> SubscriberStore \<times> LoadResult \<Rightarrow>
     (SubscriberStore \<times> LoadResult) option" where
  "load_lines path plan_names line_no header_seen [] st = Some st"
| "load_lines path plan_names line_no header_seen (line # ls) (s, res) =
     (let line_no = line_no + 1; sv = csv_trim line in
      if sv = [] \<or> hd sv = CHR ''#'' then load_lines path plan_names line_no header_seen ls (s, res)
      else if \<not> header_seen \<and> take 4 sv = ''imsi'' then load_lines path plan_names line_no True ls (s, res)
      else case parse_row plan_names sv of
        Inl msg \<Rightarrow> load_lines path plan_names line_no True ls (s, csv_note path line_no msg res)
      | Inr rec \<Rightarrow> do {
          (s', _) \<leftarrow> upsert s rec;
          load_lines path plan_names line_no True ls (s', res\<lparr> lr_loaded := lr_loaded res + 1 \<rparr>) })"

definition load_csv ::
    "string \<Rightarrow> string option \<Rightarrow> string list \<Rightarrow> SubscriberStore \<Rightarrow> (SubscriberStore \<times> LoadResult) option" where
  "load_csv path file plan_names s =
     (let res = \<lparr> lr_loaded = 0, lr_skipped = 0, lr_errors = [] \<rparr> in
      case file of
        None \<Rightarrow> Some (s, res\<lparr> lr_errors := [''cannot open subscriber file: '' @ path] \<rparr>)
      | Some text \<Rightarrow> load_lines path plan_names 0 False (getlines text) (s, res))"

section \<open>What a file holds\<close>

text \<open>The data rows of a file: trimmed lines without blanks and comments, less a header row.\<close>

definition content_lines :: "string list \<Rightarrow> string list" where
  "content_lines ls = filter (\<lambda>sv. sv \<noteq> [] \<and> hd sv \<noteq> CHR ''#'') (map csv_trim ls)"

definition data_rows :: "string list \<Rightarrow> string list" where
  "data_rows ls =
     (let cs = content_lines ls in if cs \<noteq> [] \<and> take 4 (hd cs) = ''imsi'' then tl cs else cs)"

definition accepted_rows :: "string list \<Rightarrow> string list \<Rightarrow> SubscriberRecord list" where
  "accepted_rows plan_names rows = List.map_filter
     (\<lambda>sv. case parse_row plan_names sv of Inl _ \<Rightarrow> None | Inr r \<Rightarrow> Some r) rows"

lemma accepted_rows_simps [simp]:
  "accepted_rows ps [] = []"
  "accepted_rows ps (sv # rows) =
     (case parse_row ps sv of Inl _ \<Rightarrow> accepted_rows ps rows | Inr r \<Rightarrow> r # accepted_rows ps rows)"
  by (simp_all add: accepted_rows_def map_filter_simps split: sum.splits)

lemma parse_row_imsi_ok:
  assumes "parse_row ps sv = Inr r"
  shows "imsi_ok (sr_imsi r)"
proof -
  obtain s where "parse_imsi s = Some (sr_imsi r)" "sr_imsi r \<noteq> 0"
    using assms by (auto simp: parse_row_def Let_def split: if_splits option.splits)
  then show ?thesis
    using parse_imsi_bound [of s "sr_imsi r"] by (simp add: imsi_ok_def)
qed


lemma accepted_rows_imsi_ok: "\<forall>r \<in> set (accepted_rows ps rows). imsi_ok (sr_imsi r)"
  by (induction rows) (auto split: sum.splits dest: parse_row_imsi_ok)

lemma length_accepted_rows: "length (accepted_rows ps rows) \<le> length rows"
  by (induction rows) (auto split: sum.splits)

definition errors_ok :: "LoadResult \<Rightarrow> bool" where
  "errors_ok res \<longleftrightarrow> length (lr_errors res) = min (lr_skipped res) (kMaxReportedErrors + 1)"

lemma csv_note_errors_ok:
  "errors_ok res \<Longrightarrow> errors_ok (csv_note path n msg res)"
  "lr_skipped (csv_note path n msg res) = lr_skipped res + 1"
  "lr_loaded (csv_note path n msg res) = lr_loaded res"
  by (auto simp: errors_ok_def csv_note_def Let_def min_def kMaxReportedErrors_def)

lemma load_lines_ok:
  assumes "store_inv s" "errors_ok res" "rows = (if header_seen then content_lines ls else data_rows ls)"
  shows "\<exists>s' res'. load_lines path ps n header_seen ls (s, res) = Some (s', res') \<and>
           upsert_all upsert (accepted_rows ps rows) s = Some s' \<and> store_inv s' \<and> errors_ok res' \<and>
           lr_loaded res' = lr_loaded res + length (accepted_rows ps rows) \<and>
           lr_skipped res' = lr_skipped res + (length rows - length (accepted_rows ps rows))"
  using assms
proof (induction ls arbitrary: n header_seen s res rows)
  case Nil
  then show ?case by (simp add: content_lines_def data_rows_def)
next
  case (Cons line ls)
  let ?sv = "csv_trim line"
  consider (blank) "?sv = [] \<or> hd ?sv = CHR ''#''"
    | (header) "?sv \<noteq> []" "hd ?sv \<noteq> CHR ''#''" "\<not> header_seen" "take 4 ?sv = ''imsi''"
    | (row) "?sv \<noteq> []" "hd ?sv \<noteq> CHR ''#''" "header_seen \<or> take 4 ?sv \<noteq> ''imsi''"
    by blast
  then show ?case
  proof cases
    case blank
    then show ?thesis
      using Cons.IH [OF Cons.prems(1,2), of rows header_seen "Suc n"] Cons.prems(3)
      by (auto simp: content_lines_def data_rows_def)
  next
    case header
    then have "rows = content_lines ls" using Cons.prems(3) by (simp add: content_lines_def data_rows_def)
    then show ?thesis
      using header Cons.IH [OF Cons.prems(1,2), of rows True "Suc n"] by simp
  next
    case row
    then have rows: "rows = ?sv # content_lines ls"
      using Cons.prems(3) by (auto simp: content_lines_def data_rows_def Let_def)
    have le: "length (accepted_rows ps (content_lines ls)) \<le> length (content_lines ls)"
      by (rule length_accepted_rows)
    show ?thesis
    proof (cases "parse_row ps ?sv")
      case (Inl msg)
      then show ?thesis
        using row rows le Cons.IH [OF Cons.prems(1) csv_note_errors_ok(1) [OF Cons.prems(2)], of "content_lines ls" True]
        by (auto simp: csv_note_errors_ok Suc_diff_le)
    next
      case (Inr r)
      obtain s1 where s1: "upsert s r = Some (s1, True)" "store_inv s1"
        using upsert_map [OF Cons.prems(1) parse_row_imsi_ok [OF Inr]] by blast
      have "errors_ok (res\<lparr> lr_loaded := lr_loaded res + 1 \<rparr>)"
        using Cons.prems(2) by (simp add: errors_ok_def)
      then show ?thesis
        using row rows s1(1) Inr Cons.IH [OF s1(2), of _ "content_lines ls" True "Suc n"] by fastforce
    qed
  qed
qed

text \<open>
  C23: loading a roster loads exactly its well-formed data rows: the load returns, every accepted row
  has a valid IMSI and a known plan, find afterwards returns the last accepted row of each IMSI (or
  what the store held before), every data row is counted as loaded or skipped, and errors are
  reported exactly when rows were skipped, at most 33 of them.
\<close>

theorem load_csv_correct:
  assumes "store_inv s" "rows = data_rows (getlines contents)" "recs = accepted_rows ps rows"
  shows "\<exists>s' res. load_csv path (Some contents) ps s = Some (s', res) \<and> store_inv s' \<and>
           (\<forall>x. st_find s' x = Some (case map_of (rev (map (\<lambda>r. (sr_imsi r, r)) recs)) x of
                  None \<Rightarrow> store_map s x | Some r \<Rightarrow> Some r)) \<and>
           lr_loaded res = length recs \<and> lr_loaded res + lr_skipped res = length rows \<and>
           lr_ok res = (lr_skipped res = 0) \<and> length (lr_errors res) \<le> 33"
proof -
  let ?res = "\<lparr> lr_loaded = 0, lr_skipped = 0, lr_errors = [] \<rparr>"
  have "errors_ok ?res" by (simp add: errors_ok_def)
  then obtain s' res where r: "load_lines path ps 0 False (getlines contents) (s, ?res) = Some (s', res)"
    "upsert_all upsert recs s = Some s'" "store_inv s'" "errors_ok res"
    "lr_loaded res = length recs" "lr_skipped res = length rows - length recs"
    using load_lines_ok [OF assms(1), of ?res rows False "getlines contents" path ps 0] assms(2,3) by auto
  have "st_find s' x = Some (case map_of (rev (map (\<lambda>r. (sr_imsi r, r)) recs)) x of
      None \<Rightarrow> store_map s x | Some r \<Rightarrow> Some r)" for x
    using subs.lookup_last [OF assms(1) _ r(2)] accepted_rows_imsi_ok assms(3) by blast
  moreover have "lr_loaded res + lr_skipped res = length rows"
    using r(5,6) length_accepted_rows [of ps rows] assms(3) by simp
  moreover have "lr_ok res = (lr_skipped res = 0)" "length (lr_errors res) \<le> 33"
    using r(4) by (auto simp: errors_ok_def lr_ok_def kMaxReportedErrors_def)
  ultimately show ?thesis
    using r(1,3,5) by (intro exI [of _ s'] exI [of _ res]) (simp add: load_csv_def)
qed


definition sample_roster :: string where
  "sample_roster = ''imsi,imei,plan'' @ [CHR 0x0A] @
     ''310260000000001,,gold,ACTIVE,5,0,310-260,roaming|volte'' @ [CHR 0x0A] @
     ''310260000000002,,lead,ACTIVE,5,0,310-260'' @ [CHR 0x0A]"

definition sample_record :: SubscriberRecord where
  "sample_record = \<lparr> sr_imsi = 310260000000001, sr_imei = 0, sr_plan_id = 0, sr_status = 0,
     sr_bytes_used_period = 5, sr_period_reset_ts = 0, sr_home_plmn = 310260, sr_flags = 5 \<rparr>"

lemma sample_accepted:
  "length (data_rows (getlines sample_roster)) = 2"
  "accepted_rows [''gold''] (data_rows (getlines sample_roster)) = [sample_record]"
  by code_simp+

theorem load_csv_correct_witness:
  "\<exists>s s' res. new_store 1024 (1 / 2) = Some s \<and>
     load_csv ''subs.csv'' (Some sample_roster) [''gold''] s = Some (s', res) \<and>
     st_find s' 310260000000001 = Some (Some sample_record) \<and>
     lr_loaded res = 1 \<and> lr_skipped res = 1 \<and> \<not> lr_ok res"
proof -
  obtain s where s: "new_store 1024 (1 / 2) = Some s" "store_inv s"
    using default_store_inv by blast
  obtain s' res where
    "load_csv ''subs.csv'' (Some sample_roster) [''gold''] s = Some (s', res)"
    "\<forall>x. st_find s' x = Some (case map_of (rev (map (\<lambda>r. (sr_imsi r, r)) [sample_record])) x of
        None \<Rightarrow> store_map s x | Some r \<Rightarrow> Some r)"
    "lr_loaded res = 1" "lr_loaded res + lr_skipped res = 2" "lr_ok res = (lr_skipped res = 0)"
    using load_csv_correct [OF s(2), where contents = sample_roster and ps = "[''gold'']"
        and path = "''subs.csv''", OF refl refl]
    by (auto simp: sample_accepted)
  then show ?thesis
    using s(1) by (intro exI [of _ s] exI [of _ s'] exI [of _ res]) (simp add: sample_record_def)
qed

end
