(* ===== verification/Yaml_Parser.thy ===== *)
theory Yaml_Parser
  imports Prelude
begin

text \<open>
  The YAML-subset parser (\<^verbatim>\<open>include/policy/yaml.hpp\<close>, \<^verbatim>\<open>class Parser\<close> in \<^verbatim>\<open>src/yaml.cpp\<close>). The parser's cursor
  into \<^verbatim>\<open>lines_\<close> (or into the text of a flow collection) is the list of what is left; its error state
  is the first message with its line. The mutual recursion of the block and flow functions is bounded
  by fuel, which \<^verbatim>\<open>yaml_parse\<close> provides in proportion to the input; it is shown to be enough.
\<close>

section \<open>Nodes\<close>

datatype Node =
    NullNode nat
  | ScalarNode string nat
  | MapNode "(string \<times> Node) list" nat
  | SeqNode "Node list" nat

fun node_line :: "Node \<Rightarrow> nat" where
  "node_line (NullNode l) = l"
| "node_line (ScalarNode _ l) = l"
| "node_line (MapNode _ l) = l"
| "node_line (SeqNode _ l) = l"

definition is_null :: "Node \<Rightarrow> bool" where "is_null n = (case n of NullNode _ \<Rightarrow> True | _ \<Rightarrow> False)"
definition is_scalar :: "Node \<Rightarrow> bool" where "is_scalar n = (case n of ScalarNode _ _ \<Rightarrow> True | _ \<Rightarrow> False)"
definition is_map :: "Node \<Rightarrow> bool" where "is_map n = (case n of MapNode _ _ \<Rightarrow> True | _ \<Rightarrow> False)"
definition is_seq :: "Node \<Rightarrow> bool" where "is_seq n = (case n of SeqNode _ _ \<Rightarrow> True | _ \<Rightarrow> False)"

definition node_scalar :: "Node \<Rightarrow> string" where
  "node_scalar n = (case n of ScalarNode s _ \<Rightarrow> s | _ \<Rightarrow> [])"
definition node_items :: "Node \<Rightarrow> Node list" where
  "node_items n = (case n of SeqNode ns _ \<Rightarrow> ns | _ \<Rightarrow> [])"
definition node_fields :: "Node \<Rightarrow> (string \<times> Node) list" where
  "node_fields n = (case n of MapNode fs _ \<Rightarrow> fs | _ \<Rightarrow> [])"

definition node_find :: "Node \<Rightarrow> string \<Rightarrow> Node option" where
  "node_find n key = map_of (node_fields n) key"

definition node_has :: "Node \<Rightarrow> string \<Rightarrow> bool" where
  "node_has n key \<longleftrightarrow> node_find n key \<noteq> None"

section \<open>Text helpers\<close>

definition yaml_rtrim :: "string \<Rightarrow> string" where
  "yaml_rtrim s = rev (dropWhile (\<lambda>c. c = CHR '' '' \<or> c = CHR 0x09 \<or> c = CHR 0x0D) (rev s))"

definition is_blank :: "char \<Rightarrow> bool" where "is_blank c \<longleftrightarrow> c = CHR '' '' \<or> c = CHR 0x09"

definition yaml_trim :: "string \<Rightarrow> string" where
  "yaml_trim s = yaml_rtrim (dropWhile is_blank s)"

abbreviation squote :: char where "squote \<equiv> CHR 0x27"
abbreviation dquote :: char where "dquote \<equiv> CHR 0x22"

text \<open>The comment scan; the third argument is the character before.\<close>

fun strip_comment_loop :: "bool \<Rightarrow> bool \<Rightarrow> char option \<Rightarrow> string \<Rightarrow> string" where
  "strip_comment_loop in_single in_double prev [] = []"
| "strip_comment_loop in_single in_double prev (c # cs) =
     (if c = squote \<and> \<not> in_double then c # strip_comment_loop (\<not> in_single) in_double (Some c) cs
      else if c = dquote \<and> \<not> in_single then c # strip_comment_loop in_single (\<not> in_double) (Some c) cs
      else if c = CHR ''#'' \<and> \<not> in_single \<and> \<not> in_double \<and>
           (case prev of None \<Rightarrow> True | Some p \<Rightarrow> is_blank p) then []
      else c # strip_comment_loop in_single in_double (Some c) cs)"

definition strip_comment :: "string \<Rightarrow> string" where
  "strip_comment line = strip_comment_loop False False None line"

text \<open>The bodies of the two quoting styles: everything between the outer quotes.\<close>

fun unquote_single :: "string \<Rightarrow> string" where
  "unquote_single (a # b # cs) =
     (if a = squote \<and> b = squote then b # unquote_single cs else a # unquote_single (b # cs))"
| "unquote_single cs = cs"

definition unescape :: "char \<Rightarrow> char" where
  "unescape c =
     (if c = CHR ''n'' then CHR 0x0A
      else if c = CHR ''t'' then CHR 0x09
      else if c = CHR ''r'' then CHR 0x0D
      else if c = CHR ''0'' then CHR 0x00
      else c)"

fun unquote_double :: "string \<Rightarrow> string" where
  "unquote_double (a # b # cs) =
     (if a = CHR 0x5C then unescape b # unquote_double cs else a # unquote_double (b # cs))"
| "unquote_double cs = cs"

definition unquote :: "string \<Rightarrow> string" where
  "unquote s0 =
     (let s = yaml_trim s0 in
      if length s \<ge> 2 \<and> hd s = squote \<and> last s = squote then unquote_single (butlast (tl s))
      else if length s \<ge> 2 \<and> hd s = dquote \<and> last s = dquote then unquote_double (butlast (tl s))
      else s)"

section \<open>Lines\<close>

record Line =
  ln_indent :: nat
  ln_number :: nat
  ln_text :: string

type_synonym yaml_error = "(string \<times> nat) option"

definition fail :: "string \<Rightarrow> nat \<Rightarrow> yaml_error \<Rightarrow> yaml_error" where
  "fail msg line err = (case err of None \<Rightarrow> Some (msg, line) | Some e \<Rightarrow> Some e)"

text \<open>One raw line: \<^verbatim>\<open>Inl\<close> for a tab in the indentation, else the line or nothing.\<close>

definition scan_line :: "nat \<Rightarrow> string \<Rightarrow> unit + Line option" where
  "scan_line number raw =
     (let ind = takeWhile (\<lambda>c. c = CHR '' '') raw; rest = dropWhile (\<lambda>c. c = CHR '' '') raw in
      if rest \<noteq> [] \<and> hd rest = CHR 0x09 then Inl ()
      else let body = yaml_rtrim (strip_comment rest) in
           Inr (if body \<noteq> [] \<and> body \<noteq> ''---'' \<and> body \<noteq> ''...''
                then Some \<lparr> ln_indent = length ind, ln_number = number, ln_text = body \<rparr> else None))"

fun split_lines_loop :: "nat \<Rightarrow> string list \<Rightarrow> Line list \<times> yaml_error" where
  "split_lines_loop number [] = ([], None)"
| "split_lines_loop number (raw # raws) =
     (case scan_line (number + 1) raw of
        Inl _ \<Rightarrow> ([], fail ''tab used for indentation; YAML requires spaces'' (number + 1) None)
      | Inr None \<Rightarrow> split_lines_loop (number + 1) raws
      | Inr (Some l) \<Rightarrow> (case split_lines_loop (number + 1) raws of (ls, err) \<Rightarrow> (l # ls, err)))"

definition split_lines :: "string \<Rightarrow> Line list \<times> yaml_error" where
  "split_lines input = split_lines_loop 0 (split_all (CHR 0x0A) input)"

definition is_seq_item :: "string \<Rightarrow> bool" where
  "is_seq_item t \<longleftrightarrow>
     t = ''-'' \<or> (length t \<ge> 2 \<and> t ! 0 = CHR ''-'' \<and> (t ! 1 = CHR '' '' \<or> t ! 1 = CHR 0x09))"

text \<open>
  The separating colon: the text before it and after it, or \<^const>\<open>None\<close>. The depth is an \<^verbatim>\<open>int\<close> that may
  go negative.
\<close>

fun key_split_loop :: "bool \<Rightarrow> bool \<Rightarrow> int \<Rightarrow> string \<Rightarrow> (string \<times> string) option" where
  "key_split_loop in_single in_double depth [] = None"
| "key_split_loop in_single in_double depth (c # cs) =
     (let go = (\<lambda>s d k. map_option (\<lambda>(a, b). (c # a, b)) (key_split_loop s d k cs)) in
      if c = squote \<and> \<not> in_double then go (\<not> in_single) in_double depth
      else if c = dquote \<and> \<not> in_single then go in_single (\<not> in_double) depth
      else if in_single \<or> in_double then go in_single in_double depth
      else if c = CHR ''['' \<or> c = CHR ''{'' then go in_single in_double (depth + 1)
      else if c = CHR '']'' \<or> c = CHR ''}'' then go in_single in_double (depth - 1)
      else if c = CHR '':'' \<and> depth = 0 \<and> (cs = [] \<or> hd cs = CHR '' '') then Some ([], cs)
      else go in_single in_double depth)"

definition key_split :: "string \<Rightarrow> (string \<times> string) option" where
  "key_split s = key_split_loop False False 0 s"

section \<open>Scalars and flow collections\<close>

definition make_scalar :: "string \<Rightarrow> nat \<Rightarrow> yaml_error \<Rightarrow> Node \<times> yaml_error" where
  "make_scalar s0 line err =
     (let s = yaml_trim s0 in
      if s = [] \<or> s = ''~'' \<or> s = ''null'' \<or> s = ''Null'' \<or> s = ''NULL'' then (NullNode line, err)
      else if hd s = CHR ''|'' \<or> hd s = CHR ''>''
      then (NullNode line, fail ''block scalars (| and >) are not supported'' line err)
      else if hd s = CHR ''&'' \<or> hd s = CHR ''*'' \<or> hd s = CHR ''!''
      then (NullNode line, fail ''anchors, aliases and tags are not supported'' line err)
      else (ScalarNode (unquote s) line, err))"

fun read_flow_scalar_loop :: "bool \<Rightarrow> bool \<Rightarrow> string \<Rightarrow> string \<times> string" where
  "read_flow_scalar_loop in_single in_double [] = ([], [])"
| "read_flow_scalar_loop in_single in_double (c # cs) =
     (let go = (\<lambda>s d. case read_flow_scalar_loop s d cs of (a, b) \<Rightarrow> (c # a, b)) in
      if c = squote \<and> \<not> in_double then go (\<not> in_single) in_double
      else if c = dquote \<and> \<not> in_single then go in_single (\<not> in_double)
      else if \<not> in_single \<and> \<not> in_double \<and> (c = CHR '','' \<or> c = CHR '']'' \<or> c = CHR ''}'' \<or> c = CHR '':'')
      then ([], c # cs)
      else go in_single in_double)"

definition read_flow_scalar :: "string \<Rightarrow> string \<times> string" where
  "read_flow_scalar s = (case read_flow_scalar_loop False False s of (a, b) \<Rightarrow> (yaml_rtrim a, b))"

type_synonym flow_result = "(Node \<times> string \<times> yaml_error) option"

text \<open>
  The three mutually recursive flow functions; the loops of the two collections carry what they have
  collected. Each is written over the recursive call \<^verbatim>\<open>rec\<close>, and \<^verbatim>\<open>flow\<close> ties the knot.
\<close>

datatype flow_mode = FlowValue | FlowSeq "Node list" | FlowMap "(string \<times> Node) list"

definition parse_flow_value ::
    "(flow_mode \<Rightarrow> string \<Rightarrow> yaml_error \<Rightarrow> flow_result) \<Rightarrow> nat \<Rightarrow> string \<Rightarrow> yaml_error \<Rightarrow> flow_result" where
  "parse_flow_value rec line s err =
     (case dropWhile is_blank s of
        [] \<Rightarrow> Some (NullNode line, [], fail ''unexpected end of flow collection'' line err)
      | c # cs \<Rightarrow>
          if c = CHR ''['' then rec (FlowSeq []) cs err
          else if c = CHR ''{'' then rec (FlowMap []) cs err
          else (let (a, rest) = read_flow_scalar (c # cs); (nd, err) = make_scalar a line err
                in Some (nd, rest, err)))"

definition parse_flow_seq ::
    "(flow_mode \<Rightarrow> string \<Rightarrow> yaml_error \<Rightarrow> flow_result) \<Rightarrow> nat \<Rightarrow> Node list \<Rightarrow> string \<Rightarrow> yaml_error \<Rightarrow> flow_result" where
  "parse_flow_seq rec line acc s err =
     (case dropWhile is_blank s of
        [] \<Rightarrow> Some (SeqNode acc line, [], fail ''unterminated flow sequence'' line err)
      | c # cs \<Rightarrow>
          if c = CHR '']'' then Some (SeqNode acc line, cs, err)
          else (case rec FlowValue (c # cs) err of
                  None \<Rightarrow> None
                | Some (nd, rest, err) \<Rightarrow>
                    (let acc = acc @ [nd]; rest' = dropWhile is_blank rest in
                     if err \<noteq> None then Some (SeqNode acc line, rest, err)
                     else if rest' \<noteq> [] \<and> hd rest' = CHR '','' then rec (FlowSeq acc) (tl rest') err
                     else if rest' \<noteq> [] \<and> hd rest' = CHR '']'' then Some (SeqNode acc line, tl rest', err)
                     else Some (SeqNode acc line, rest',
                            fail (''expected '' @ quoted '','' @ '' or '' @ quoted '']'' @ '' in flow sequence'') line err))))"

definition parse_flow_map ::
    "(flow_mode \<Rightarrow> string \<Rightarrow> yaml_error \<Rightarrow> flow_result) \<Rightarrow> nat \<Rightarrow> (string \<times> Node) list \<Rightarrow> string \<Rightarrow> yaml_error \<Rightarrow> flow_result" where
  "parse_flow_map rec line acc s err =
     (case dropWhile is_blank s of
        [] \<Rightarrow> Some (MapNode acc line, [], fail ''unterminated flow mapping'' line err)
      | c # cs \<Rightarrow>
          if c = CHR ''}'' then Some (MapNode acc line, cs, err)
          else (let (k, rest) = read_flow_scalar (c # cs); rest' = dropWhile is_blank rest in
                if rest' = [] \<or> hd rest' \<noteq> CHR '':''
                then Some (MapNode acc line, rest', fail (''expected '' @ quoted '':'' @ '' in flow mapping'') line err)
                else (case rec FlowValue (tl rest') err of
                        None \<Rightarrow> None
                      | Some (nd, rest, err) \<Rightarrow>
                          (let acc = acc @ [(unquote k, nd)]; rest' = dropWhile is_blank rest in
                           if err \<noteq> None then Some (MapNode acc line, rest, err)
                           else if rest' \<noteq> [] \<and> hd rest' = CHR '','' then rec (FlowMap acc) (tl rest') err
                           else if rest' \<noteq> [] \<and> hd rest' = CHR ''}'' then Some (MapNode acc line, tl rest', err)
                           else Some (MapNode acc line, rest',
                                  fail (''expected '' @ quoted '','' @ '' or '' @ quoted ''}'' @ '' in flow mapping'') line err)))))"

primrec flow :: "nat \<Rightarrow> nat \<Rightarrow> flow_mode \<Rightarrow> string \<Rightarrow> yaml_error \<Rightarrow> flow_result" where
  "flow 0 line m s err = None"
| "flow (Suc n) line m s err =
     (case m of
        FlowValue \<Rightarrow> parse_flow_value (flow n line) line s err
      | FlowSeq acc \<Rightarrow> parse_flow_seq (flow n line) line acc s err
      | FlowMap acc \<Rightarrow> parse_flow_map (flow n line) line acc s err)"

definition parse_flow :: "string \<Rightarrow> nat \<Rightarrow> yaml_error \<Rightarrow> (Node \<times> yaml_error) option" where
  "parse_flow s line err =
     (case flow (2 * length s + 1) line FlowValue s err of
        None \<Rightarrow> None
      | Some (n, rest, err) \<Rightarrow>
          Some (n, if dropWhile is_blank rest \<noteq> []
                   then fail ''trailing characters after flow collection'' line err else err))"

section \<open>Blocks\<close>

type_synonym block_result = "(Node \<times> Line list \<times> yaml_error) option"

datatype block_mode = Block | BlockSeq nat "Node list" | BlockMap nat "(string \<times> Node) list"

text \<open>
  The cursor is the list of lines left; \<^verbatim>\<open>- key: value\<close> rewrites the line under the cursor. The modes
  of the loops carry the line number of the node and what they have collected.
\<close>

definition parse_block ::
    "(block_mode \<Rightarrow> nat \<Rightarrow> Line list \<Rightarrow> yaml_error \<Rightarrow> block_result) \<Rightarrow> nat \<Rightarrow> Line list \<Rightarrow> yaml_error \<Rightarrow> block_result" where
  "parse_block rec indent ls err =
     (case ls of
        [] \<Rightarrow> Some (NullNode 0, [], err)
      | ln # _ \<Rightarrow>
          if is_seq_item (ln_text ln) then rec (BlockSeq (ln_number ln) []) indent ls err
          else rec (BlockMap (ln_number ln) []) indent ls err)"

definition parse_seq ::
    "(block_mode \<Rightarrow> nat \<Rightarrow> Line list \<Rightarrow> yaml_error \<Rightarrow> block_result) \<Rightarrow>
     nat \<Rightarrow> Node list \<Rightarrow> nat \<Rightarrow> Line list \<Rightarrow> yaml_error \<Rightarrow> block_result" where
  "parse_seq rec number acc indent ls err =
     (case ls of
        [] \<Rightarrow> Some (SeqNode acc number, ls, err)
      | ln # ls' \<Rightarrow>
          if err \<noteq> None \<or> ln_indent ln \<noteq> indent \<or> \<not> is_seq_item (ln_text ln)
          then Some (SeqNode acc number, ls, err)
          else
            (let rest = yaml_trim (tl (ln_text ln)) in
             if rest = [] then
               (if ls' \<noteq> [] \<and> ln_indent (hd ls') > indent
                then (case rec Block (ln_indent (hd ls')) ls' err of
                        None \<Rightarrow> None
                      | Some (nd, ls'', err) \<Rightarrow> rec (BlockSeq number (acc @ [nd])) indent ls'' err)
                else rec (BlockSeq number (acc @ [NullNode (ln_number ln)])) indent ls' err)
             else if hd rest = CHR ''['' \<or> hd rest = CHR ''{'' then
               (case parse_flow rest (ln_number ln) err of
                  None \<Rightarrow> None
                | Some (nd, err) \<Rightarrow> rec (BlockSeq number (acc @ [nd])) indent ls' err)
             else if key_split rest \<noteq> None then
               (case rec (BlockMap (ln_number ln) []) (indent + 2)
                       (ln\<lparr> ln_indent := indent + 2, ln_text := rest \<rparr> # ls') err of
                  None \<Rightarrow> None
                | Some (nd, ls'', err) \<Rightarrow> rec (BlockSeq number (acc @ [nd])) indent ls'' err)
             else
               (let (nd, err) = make_scalar rest (ln_number ln) err
                in rec (BlockSeq number (acc @ [nd])) indent ls' err)))"

definition parse_map ::
    "(block_mode \<Rightarrow> nat \<Rightarrow> Line list \<Rightarrow> yaml_error \<Rightarrow> block_result) \<Rightarrow>
     nat \<Rightarrow> (string \<times> Node) list \<Rightarrow> nat \<Rightarrow> Line list \<Rightarrow> yaml_error \<Rightarrow> block_result" where
  "parse_map rec number acc indent ls err =
     (let stop = (\<lambda>err. Some (MapNode acc number, ls, err)) in
      case ls of
        [] \<Rightarrow> stop err
      | ln # ls' \<Rightarrow>
          if ln_indent ln < indent then stop err
          else if ln_indent ln \<noteq> indent then stop (fail ''unexpected indentation'' (ln_number ln) err)
          else if is_seq_item (ln_text ln) then stop err
          else (case key_split (ln_text ln) of
            None \<Rightarrow> stop (fail (''expected '' @ quoted ''key: value'') (ln_number ln) err)
          | Some (before, after) \<Rightarrow>
            (let key = unquote before; val = yaml_trim after; line_no = ln_number ln in
             if key = [] then stop (fail ''empty key'' line_no err)
             else if val \<noteq> [] then
               (if hd val = CHR ''['' \<or> hd val = CHR ''{'' then
                  (case parse_flow val line_no err of
                     None \<Rightarrow> None
                   | Some (nd, err) \<Rightarrow> rec (BlockMap number (acc @ [(key, nd)])) indent ls' err)
                else
                  (let (nd, err) = make_scalar val line_no err
                   in rec (BlockMap number (acc @ [(key, nd)])) indent ls' err))
             else if ls' \<noteq> [] \<and> ln_indent (hd ls') > indent then
               (case rec Block (ln_indent (hd ls')) ls' err of
                  None \<Rightarrow> None
                | Some (nd, ls'', err) \<Rightarrow> rec (BlockMap number (acc @ [(key, nd)])) indent ls'' err)
             else if ls' \<noteq> [] \<and> ln_indent (hd ls') = indent \<and> is_seq_item (ln_text (hd ls')) then
               (case rec (BlockSeq (ln_number (hd ls')) []) indent ls' err of
                  None \<Rightarrow> None
                | Some (nd, ls'', err) \<Rightarrow> rec (BlockMap number (acc @ [(key, nd)])) indent ls'' err)
             else rec (BlockMap number (acc @ [(key, NullNode line_no)])) indent ls' err)))"

primrec block :: "nat \<Rightarrow> block_mode \<Rightarrow> nat \<Rightarrow> Line list \<Rightarrow> yaml_error \<Rightarrow> block_result" where
  "block 0 m indent ls err = None"
| "block (Suc n) m indent ls err =
     (case m of
        Block \<Rightarrow> parse_block (block n) indent ls err
      | BlockSeq number acc \<Rightarrow> parse_seq (block n) number acc indent ls err
      | BlockMap number acc \<Rightarrow> parse_map (block n) number acc indent ls err)"

section \<open>The parser\<close>

record ParseResult =
  pr_root :: Node
  pr_error :: string
  pr_error_line :: nat

definition pr_ok :: "ParseResult \<Rightarrow> bool" where
  "pr_ok res \<longleftrightarrow> pr_error res = []"

definition run :: "Line list \<Rightarrow> yaml_error \<Rightarrow> ParseResult option" where
  "run ls err0 =
     (if ls = [] then Some \<lparr> pr_root = NullNode 1, pr_error = [], pr_error_line = 0 \<rparr>
      else case block (3 * length ls + 3) Block (ln_indent (hd ls)) ls err0 of
        None \<Rightarrow> None
      | Some (root, rest, err) \<Rightarrow>
          Some (case err of
                  Some (msg, line) \<Rightarrow> \<lparr> pr_root = NullNode 0, pr_error = msg, pr_error_line = line \<rparr>
                | None \<Rightarrow>
                    (case rest of
                       ln # _ \<Rightarrow> \<lparr> pr_root = NullNode 0, pr_error = ''unexpected content (check indentation)'',
                                   pr_error_line = ln_number ln \<rparr>
                     | [] \<Rightarrow> \<lparr> pr_root = root, pr_error = [], pr_error_line = 0 \<rparr>)))"

definition yaml_parse :: "string \<Rightarrow> ParseResult option" where
  "yaml_parse input = (case split_lines input of (ls, err) \<Rightarrow> run ls err)"


section \<open>The parser returns on every input\<close>

lemma length_yaml_rtrim: "length (yaml_rtrim s) \<le> length s"
  unfolding yaml_rtrim_def by (metis length_dropWhile_le length_rev)

lemma read_flow_scalar_loop_append:
  "read_flow_scalar_loop i d s = (a, b) \<Longrightarrow> s = a @ b"
  by (induction i d s arbitrary: a rule: read_flow_scalar_loop.induct)
     (auto simp: Let_def split: if_splits prod.splits)

lemma read_flow_scalar_length: "read_flow_scalar s = (a, b) \<Longrightarrow> length b \<le> length s"
  by (auto simp: read_flow_scalar_def split: prod.splits dest!: read_flow_scalar_loop_append)

definition flow_need :: "flow_mode \<Rightarrow> string \<Rightarrow> nat" where
  "flow_need m s = (case m of FlowValue \<Rightarrow> 2 * length s + 1 | _ \<Rightarrow> 2 * length s + 2)"

text \<open>A recursive call that returns, and has not moved the cursor back, on every input within the fuel.\<close>

definition flow_total :: "nat \<Rightarrow> (flow_mode \<Rightarrow> string \<Rightarrow> yaml_error \<Rightarrow> flow_result) \<Rightarrow> bool" where
  "flow_total n rec \<longleftrightarrow> (\<forall>m s err. flow_need m s \<le> n \<longrightarrow>
     (\<exists>nd rest err'. rec m s err = Some (nd, rest, err') \<and> length rest \<le> length s))"

lemma flow_totalD:
  "flow_total n rec \<Longrightarrow> flow_need m s \<le> n \<Longrightarrow>
     \<exists>nd rest err'. rec m s err = Some (nd, rest, err') \<and> length rest \<le> length s"
  by (auto simp: flow_total_def)

lemma dropWhile_Cons_length: "dropWhile P s = c # cs \<Longrightarrow> Suc (length cs) \<le> length s"
  by (metis length_Cons length_dropWhile_le)

lemma parse_flow_value_returns:
  assumes "flow_total n rec" "2 * length s \<le> n"
  shows "\<exists>nd rest err'. parse_flow_value rec line s err = Some (nd, rest, err') \<and> length rest \<le> length s"
proof (cases "dropWhile is_blank s")
  case Nil
  show ?thesis unfolding parse_flow_value_def Nil by simp
next
  case (Cons c cs)
  then have len: "Suc (length cs) \<le> length s" by (rule dropWhile_Cons_length)
  then have need: "flow_need (FlowSeq []) cs \<le> n" "flow_need (FlowMap []) cs \<le> n"
    using assms(2) by (auto simp: flow_need_def)
  show ?thesis
    using flow_totalD [OF assms(1) need(1), of err] flow_totalD [OF assms(1) need(2), of err] len
    by (auto simp: parse_flow_value_def Cons split: prod.splits dest!: read_flow_scalar_length intro: le_trans)
qed

lemma parse_flow_seq_returns:
  assumes "flow_total n rec" "2 * length s + 1 \<le> n"
  shows "\<exists>nd rest err'. parse_flow_seq rec line acc s err = Some (nd, rest, err') \<and> length rest \<le> length s"
proof (cases "dropWhile is_blank s")
  case Nil
  show ?thesis unfolding parse_flow_seq_def Nil by simp
next
  case (Cons c cs)
  then have len: "Suc (length cs) \<le> length s" by (rule dropWhile_Cons_length)
  then have "flow_need FlowValue (c # cs) \<le> n"
    using assms(2) by (auto simp: flow_need_def)
  from flow_totalD [OF assms(1) this, of err] obtain nd rest err' where
    v: "rec FlowValue (c # cs) err = Some (nd, rest, err')" "length rest \<le> length (c # cs)" by blast
  define r where "r = dropWhile is_blank rest"
  have r: "length r \<le> length s"
    using v(2) len length_dropWhile_le [of is_blank rest] by (simp add: r_def)
  have next_item: "\<exists>nd rest' e. rec (FlowSeq (acc @ [nd'])) (tl r) e' = Some (nd, rest', e) \<and> length rest' \<le> length s"
    if "r \<noteq> []" for nd' e'
  proof -
    have "flow_need (FlowSeq (acc @ [nd'])) (tl r) \<le> n"
      using that r assms(2) by (cases r) (auto simp: flow_need_def)
    from flow_totalD [OF assms(1) this, of e'] show ?thesis
      using r by (fastforce intro: le_trans)
  qed
  show ?thesis
    using v len r next_item [of nd err']
    by (auto simp: parse_flow_seq_def Cons Let_def r_def [symmetric])
qed

lemma parse_flow_map_returns:
  assumes "flow_total n rec" "2 * length s + 1 \<le> n"
  shows "\<exists>nd rest err'. parse_flow_map rec line acc s err = Some (nd, rest, err') \<and> length rest \<le> length s"
proof (cases "dropWhile is_blank s")
  case Nil
  show ?thesis unfolding parse_flow_map_def Nil by simp
next
  case (Cons c cs)
  then have len: "Suc (length cs) \<le> length s" by (rule dropWhile_Cons_length)
  obtain k rest0 where k: "read_flow_scalar (c # cs) = (k, rest0)" by fastforce
  define r0 where "r0 = dropWhile is_blank rest0"
  have r0: "length r0 \<le> length s"
    using read_flow_scalar_length [OF k] len length_dropWhile_le [of is_blank rest0] by (simp add: r0_def)
  show ?thesis
  proof (cases "r0 = [] \<or> hd r0 \<noteq> CHR '':''")
    case True
    then show ?thesis
      using r0 len by (auto simp: parse_flow_map_def Cons Let_def k r0_def [symmetric] simp del: dropWhile_eq_Nil_conv)
  next
    case False
    then have tl0: "Suc (length (tl r0)) \<le> length s" using r0 by (cases r0) auto
    then have "flow_need FlowValue (tl r0) \<le> n" using assms(2) by (auto simp: flow_need_def)
    from flow_totalD [OF assms(1) this, of err] obtain nd rest err' where
      v: "rec FlowValue (tl r0) err = Some (nd, rest, err')" "length rest \<le> length (tl r0)" by blast
    define r where "r = dropWhile is_blank rest"
    have r: "length r \<le> length s"
      using v(2) tl0 length_dropWhile_le [of is_blank rest] by (simp add: r_def)
    have next_item: "\<exists>nd rest' e. rec (FlowMap acc') (tl r) e' = Some (nd, rest', e) \<and> length rest' \<le> length s"
      if "r \<noteq> []" for acc' e'
    proof -
      have "flow_need (FlowMap acc') (tl r) \<le> n"
        using that r assms(2) by (cases r) (auto simp: flow_need_def)
      from flow_totalD [OF assms(1) this, of e'] show ?thesis
        using r by (fastforce intro: le_trans)
    qed
    show ?thesis
      using False v len tl0 r next_item [of "acc @ [(unquote k, nd)]" err']
      by (auto simp: parse_flow_map_def Cons Let_def k r0_def [symmetric] r_def [symmetric] simp del: dropWhile_eq_Nil_conv)
  qed
qed

lemma flow_total_flow: "flow_total n (flow n line)"
proof (induction n)
  case 0
  show ?case by (auto simp: flow_total_def flow_need_def split: flow_mode.splits)
next
  case (Suc n)
  show ?case
    unfolding flow_total_def
  proof (intro allI impI)
    fix m s err
    assume "flow_need m s \<le> Suc n"
    then show "\<exists>nd rest err'. flow (Suc n) line m s err = Some (nd, rest, err') \<and> length rest \<le> length s"
      using parse_flow_value_returns [OF Suc, of s line err]
        parse_flow_seq_returns [OF Suc, of s line _ err] parse_flow_map_returns [OF Suc, of s line _ err]
      by (cases m) (auto simp: flow_need_def)
  qed
qed

lemma parse_flow_returns: "\<exists>nd err'. parse_flow s line err = Some (nd, err')"
proof -
  have "flow_need FlowValue s \<le> 2 * length s + 1" by (simp add: flow_need_def)
  from flow_totalD [OF flow_total_flow this, of line err] show ?thesis
    by (auto simp: parse_flow_def)
qed

text \<open>
  The block functions. A mapping that has not consumed a line leaves the lines as they were, so a
  sequence whose rewritten item is not a mapping after all stops at it.
\<close>

definition block_need :: "block_mode \<Rightarrow> Line list \<Rightarrow> nat" where
  "block_need m ls =
     (case m of Block \<Rightarrow> 3 * length ls + 3 | BlockSeq _ _ \<Rightarrow> 3 * length ls + 2 | BlockMap _ _ \<Rightarrow> 3 * length ls + 1)"

text \<open>The result leaves at most \<^term>\<open>k\<close> lines, or exactly the lines \<^term>\<open>ls\<close>.\<close>

definition ends :: "Line list \<Rightarrow> nat \<Rightarrow> block_result \<Rightarrow> bool" where
  "ends ls k r \<longleftrightarrow> (\<exists>nd ls' err. r = Some (nd, ls', err) \<and> (length ls' \<le> k \<or> ls' = ls))"

definition block_total :: "nat \<Rightarrow> (block_mode \<Rightarrow> nat \<Rightarrow> Line list \<Rightarrow> yaml_error \<Rightarrow> block_result) \<Rightarrow> bool" where
  "block_total n rec \<longleftrightarrow>
     (\<forall>m indent ls err. block_need m ls \<le> n \<longrightarrow> ends ls (length ls) (rec m indent ls err)) \<and>
     (\<forall>number acc indent ls err. 3 * length ls + 1 \<le> n \<longrightarrow>
        ends ls (length ls - 1) (rec (BlockMap number acc) indent ls err)) \<and>
     (\<forall>number acc indent ls err. 0 < n \<longrightarrow> ls \<noteq> [] \<longrightarrow> ln_indent (hd ls) \<noteq> indent \<longrightarrow>
        rec (BlockSeq number acc) indent ls err = Some (SeqNode acc number, ls, err))"

lemma ends_stop: "ends ls k (Some (nd, ls, err))"
  by (simp add: ends_def)

lemma ends_if: "(c \<Longrightarrow> ends ls k a) \<Longrightarrow> (\<not> c \<Longrightarrow> ends ls k b) \<Longrightarrow> ends ls k (if c then a else b)"
  by simp

lemma ends_key:
  "ends ls k a \<Longrightarrow> (\<And>x y. ends ls k (f x y)) \<Longrightarrow>
     ends ls k (case ks of None \<Rightarrow> a | Some (x, y) \<Rightarrow> f x y)"
  by (simp split: option.splits prod.splits)

lemma ends_flow:
  "(\<And>nd e. ends ls k (f nd e)) \<Longrightarrow>
     ends ls k (case parse_flow s line err of None \<Rightarrow> None | Some (nd, e) \<Rightarrow> f nd e)"
  using parse_flow_returns [of s line err] by auto

lemma ends_scalar:
  "(\<And>nd e. ends ls k (f nd e)) \<Longrightarrow> ends ls k (case make_scalar s line err of (nd, e) \<Rightarrow> f nd e)"
  by (simp split: prod.splits)

lemma ends_call:
  assumes "block_total n rec" "3 * Suc (length l) \<le> n" "length l \<le> k"
  shows "ends ls k (rec m indent l err)"
proof -
  have "block_need m l \<le> n" using assms(2) by (cases m) (auto simp: block_need_def)
  then have "ends l (length l) (rec m indent l err)" using assms(1) by (simp add: block_total_def)
  then show ?thesis using assms(3) by (auto simp: ends_def)
qed

lemma ends_bind:
  assumes "block_total n rec" "3 * Suc (length l) \<le> n" "length l \<le> k"
  shows "ends ls k (case rec m indent l err of None \<Rightarrow> None | Some (nd, l', e) \<Rightarrow> rec (m2 nd) indent2 l' e)"
proof -
  obtain nd l' e where 1: "rec m indent l err = Some (nd, l', e)" "length l' \<le> length l"
    using ends_call [OF assms(1,2) order.refl, of l m indent err] by (auto simp: ends_def)
  have "ends ls k (rec (m2 nd) indent2 l' e)"
    using 1(2) assms by (intro ends_call [OF assms(1)]) auto
  then show ?thesis using 1(1) by simp
qed

lemma parse_map_returns:
  assumes "block_total n rec" "3 * length ls \<le> n"
  shows "ends ls (length ls - 1) (parse_map rec number acc indent ls err)"
proof (cases ls)
  case Nil
  then show ?thesis by (simp add: parse_map_def ends_def)
next
  case (Cons ln ls')
  then have len: "3 * Suc (length ls') \<le> n" "length ls' \<le> length ls - 1" using assms(2) by auto
  show ?thesis
    unfolding parse_map_def Let_def Cons list.case
    unfolding Cons [symmetric]
    by (intro ends_if ends_key ends_flow ends_scalar ends_stop
          ends_bind [OF assms(1) len] ends_call [OF assms(1) len])
qed

lemma parse_seq_returns:
  assumes "block_total n rec" "3 * length ls + 1 \<le> n"
  shows "ends ls (length ls) (parse_seq rec number acc indent ls err)"
proof (cases ls)
  case Nil
  then show ?thesis by (simp add: parse_seq_def ends_def)
next
  case (Cons ln ls')
  then have len: "3 * Suc (length ls') \<le> n" "length ls' \<le> length ls" using assms(2) by auto
  have rewritten: "ends ls (length ls)
      (case rec (BlockMap no []) (indent + 2) (l # ls') err of None \<Rightarrow> None
       | Some (nd, l', e) \<Rightarrow> rec (BlockSeq number (acc @ [nd])) indent l' e)"
    if "ln_indent l = indent + 2" for l no
  proof -
    have "ends (l # ls') (length ls') (rec (BlockMap no []) (indent + 2) (l # ls') err)"
      using assms Cons unfolding block_total_def by (metis diff_Suc_1 length_Cons)
    then obtain nd l' e where 1: "rec (BlockMap no []) (indent + 2) (l # ls') err = Some (nd, l', e)"
      and 2: "length l' \<le> length ls' \<or> l' = l # ls'" by (auto simp: ends_def)
    show ?thesis
    proof (cases "l' = l # ls'")
      case True
      then have "rec (BlockSeq number (acc @ [nd])) indent l' e = Some (SeqNode (acc @ [nd]) number, l', e)"
        using assms that unfolding block_total_def by auto
      then show ?thesis using 1 True Cons by (auto simp: ends_def)
    next
      case False
      then have "ends ls (length ls) (rec (BlockSeq number (acc @ [nd])) indent l' e)"
        using 2 len by (intro ends_call [OF assms(1)]) auto
      then show ?thesis using 1 by simp
    qed
  qed
  show ?thesis
    unfolding parse_seq_def Let_def Cons list.case
    unfolding Cons [symmetric]
    by (intro ends_if ends_flow ends_scalar ends_stop
          ends_bind [OF assms(1) len] rewritten ends_call [OF assms(1) len]) simp_all
qed

lemma parse_block_returns:
  assumes "block_total n rec" "3 * length ls + 2 \<le> n"
  shows "ends ls (length ls) (parse_block rec indent ls err)"
proof (cases ls)
  case Nil
  then show ?thesis by (simp add: parse_block_def ends_def)
next
  case (Cons ln ls')
  have "ends ls (length ls) (rec (BlockSeq (ln_number ln) []) indent ls err)"
    "ends ls (length ls) (rec (BlockMap (ln_number ln) []) indent ls err)"
    using assms by (simp_all add: block_total_def block_need_def)
  then show ?thesis by (simp add: parse_block_def Cons)
qed

lemma ends_mono: "ends ls k r \<Longrightarrow> k \<le> k' \<Longrightarrow> ends ls k' r"
  by (auto simp: ends_def)

lemma block_total_block: "block_total n (block n)"
proof (induction n)
  case 0
  show ?case by (auto simp: block_total_def block_need_def split: block_mode.splits)
next
  case (Suc n)
  have 1: "ends ls (length ls) (block (Suc n) m indent ls err)" if "block_need m ls \<le> Suc n" for m indent ls err
    using that parse_block_returns [OF Suc, of ls indent err] parse_seq_returns [OF Suc, of ls _ _ indent err]
      ends_mono [OF parse_map_returns [OF Suc, of ls _ _ indent err], of "length ls"]
    by (cases m) (auto simp: block_need_def)
  have 2: "ends ls (length ls - 1) (block (Suc n) (BlockMap number acc) indent ls err)"
    if "3 * length ls + 1 \<le> Suc n" for number acc indent ls err
    using that parse_map_returns [OF Suc, of ls number acc indent err] by simp
  have 3: "block (Suc n) (BlockSeq number acc) indent ls err = Some (SeqNode acc number, ls, err)"
    if "ls \<noteq> []" "ln_indent (hd ls) \<noteq> indent" for number acc indent ls err
    using that by (cases ls) (auto simp: parse_seq_def)
  show ?case using 1 2 3 unfolding block_total_def by blast
qed

lemma run_returns: "\<exists>res. run ls err = Some res"
proof -
  have "block_need Block ls \<le> 3 * length ls + 3" by (simp add: block_need_def)
  then have "ends ls (length ls) (block (3 * length ls + 3) Block (ln_indent (hd ls)) ls err)"
    using block_total_block [of "3 * length ls + 3"] unfolding block_total_def by blast
  then show ?thesis unfolding run_def ends_def by auto
qed

lemma yaml_parse_returns: "\<exists>res. yaml_parse input = Some res"
  by (simp add: yaml_parse_def run_returns split: prod.split)

end
