(* ===== verification/Yaml_Print.thy ===== *)
theory Yaml_Print
  imports Yaml_Parser
begin

text \<open>
  A printer for the documents the YAML subset can express, in block style down to a chosen depth and
  in flow style below it, and the proof that \<^verbatim>\<open>yaml::parse\<close> reads every printed document back.
\<close>

section \<open>Printing\<close>

definition sq_body :: "string \<Rightarrow> string" where
  "sq_body s = concat (map (\<lambda>c. if c = squote then [squote, squote] else [c]) s)"

definition sq_text :: "string \<Rightarrow> string" where
  "sq_text s = squote # sq_body s @ [squote]"

fun join :: "string \<Rightarrow> string list \<Rightarrow> string" where
  "join sep [] = []"
| "join sep [x] = x"
| "join sep (x # y # xs) = x @ sep @ join sep (y # xs)"

primrec flow_text :: "Node \<Rightarrow> string" where
  "flow_text (NullNode l) = ''~''"
| "flow_text (ScalarNode s l) = sq_text s"
| "flow_text (SeqNode ns l) = ''['' @ join '','' (map flow_text ns) @ '']''"
| "flow_text (MapNode fs l) =
     ''{'' @ join '','' (map (\<lambda>(k, t). sq_text k @ '': '' @ t) (map (map_prod id flow_text) fs)) @ ''}''"

text \<open>Forgetting line numbers.\<close>

primrec erase :: "Node \<Rightarrow> Node" where
  "erase (NullNode l) = NullNode 0"
| "erase (ScalarNode s l) = ScalarNode s 0"
| "erase (SeqNode ns l) = SeqNode (map erase ns) 0"
| "erase (MapNode fs l) = MapNode (map (map_prod id erase) fs) 0"

definition erase_fields :: "(string \<times> Node) list \<Rightarrow> (string \<times> Node) list" where
  "erase_fields fs = map (\<lambda>(k, v). (k, erase v)) fs"

lemma erase_fields_simps [simp]:
  "erase_fields [] = []" "erase_fields ((k, v) # fs) = (k, erase v) # erase_fields fs"
  "erase_fields (fs @ gs) = erase_fields fs @ erase_fields gs"
  by (simp_all add: erase_fields_def)

declare erase.simps(4) [simp del]

lemma erase_MapNode [simp]: "erase (MapNode fs l) = MapNode (erase_fields fs) 0"
  by (simp add: erase.simps(4) erase_fields_def case_prod_unfold map_prod_def)

definition in_flow :: "Node \<Rightarrow> bool" where
  "in_flow v = (case v of SeqNode ns _ \<Rightarrow> ns = [] | MapNode fs _ \<Rightarrow> fs = [] | _ \<Rightarrow> True)"

text \<open>Block lines as (indentation, text); nested maps in sequences use the compact form \<^verbatim>\<open>- key: value\<close>.\<close>

fun compact :: "nat \<Rightarrow> (nat \<times> string) list \<Rightarrow> (nat \<times> string) list" where
  "compact i [] = []"
| "compact i ((_, t) # ls) = (i, ''- '' @ t) # ls"

fun block_lines :: "nat \<Rightarrow> nat \<Rightarrow> Node \<Rightarrow> (nat \<times> string) list"
and field_lines :: "nat \<Rightarrow> nat \<Rightarrow> string \<times> Node \<Rightarrow> (nat \<times> string) list"
and item_lines :: "nat \<Rightarrow> nat \<Rightarrow> Node \<Rightarrow> (nat \<times> string) list" where
  "block_lines d i (MapNode fs l) = concat (map (field_lines d i) fs)"
| "block_lines d i (SeqNode ns l) = concat (map (item_lines d i) ns)"
| "block_lines d i _ = []"
| "field_lines d i (k, v) =
     (if d = 0 \<or> in_flow v then [(i, sq_text k @ '': '' @ flow_text v)]
      else (i, sq_text k @ '':'') # block_lines (d - 1) (i + 2) v)"
| "item_lines d i v =
     (if d = 0 \<or> in_flow v then [(i, ''- '' @ flow_text v)]
      else case v of MapNode _ _ \<Rightarrow> compact i (block_lines (d - 1) (i + 2) v)
                   | _ \<Rightarrow> (i, ''-'') # block_lines (d - 1) (i + 2) v)"


definition line_text :: "nat \<times> string \<Rightarrow> string" where
  "line_text = (\<lambda>(i, t). replicate i (CHR '' '') @ t)"

definition print_doc :: "nat \<Rightarrow> Node \<Rightarrow> string" where
  "print_doc d v = join [CHR 0x0A] (map line_text (block_lines d 0 v))"

text \<open>Strings without line breaks, and named keys.\<close>

primrec doc_ok :: "Node \<Rightarrow> bool" where
  "doc_ok (NullNode l) = True"
| "doc_ok (ScalarNode s l) = (CHR 0x0A \<notin> set s)"
| "doc_ok (SeqNode ns l) = list_all (\<lambda>x. x) (map doc_ok ns)"
| "doc_ok (MapNode fs l) =
     list_all (\<lambda>(k, ok). k \<noteq> [] \<and> CHR 0x0A \<notin> set k \<and> ok) (map (map_prod id doc_ok) fs)"

lemma doc_ok_field:
  assumes "doc_ok (MapNode fs l)" "(k, v) \<in> set fs"
  shows "k \<noteq> [] \<and> CHR 0x0A \<notin> set k \<and> doc_ok v"
  using bspec [OF assms(1) [simplified list_all_iff doc_ok.simps, simplified] assms(2)] by simp

section \<open>Quoted text\<close>

lemma sq_body_simps [simp]:
  "sq_body [] = []"
  "sq_body (c # s) = (if c = squote then [squote, squote] else [c]) @ sq_body s"
  by (simp_all add: sq_body_def)

lemma unquote_single_cons: "a \<noteq> squote \<Longrightarrow> unquote_single (a # cs) = a # unquote_single cs"
  by (cases cs) auto

lemma unquote_sq_body [simp]: "unquote_single (sq_body s) = s"
  by (induction s) (auto simp: unquote_single_cons)

lemma rtrim_id: "s \<noteq> [] \<Longrightarrow> last s \<noteq> CHR '' '' \<Longrightarrow> last s \<noteq> CHR 0x09 \<Longrightarrow> last s \<noteq> CHR 0x0D \<Longrightarrow> yaml_rtrim s = s"
  unfolding yaml_rtrim_def by (cases s rule: rev_cases) auto

lemma trim_id:
  "s \<noteq> [] \<Longrightarrow> \<not> is_blank (hd s) \<Longrightarrow> last s \<noteq> CHR '' '' \<Longrightarrow> last s \<noteq> CHR 0x09 \<Longrightarrow> last s \<noteq> CHR 0x0D \<Longrightarrow> yaml_trim s = s"
  unfolding yaml_trim_def by (cases s) (auto simp: rtrim_id)

lemma trim_blank: "yaml_trim (CHR '' '' # s) = yaml_trim s"
  by (simp add: yaml_trim_def is_blank_def)

lemma sq_text_ends [simp]: "sq_text s \<noteq> []" "hd (sq_text s) = squote" "last (sq_text s) = squote"
  by (simp_all add: sq_text_def)

lemma trim_sq_text [simp]: "yaml_trim (sq_text s) = sq_text s" "yaml_rtrim (sq_text s) = sq_text s"
  by (auto intro!: trim_id rtrim_id simp: is_blank_def)

lemma unquote_sq_text [simp]: "unquote (sq_text s) = s"
  unfolding unquote_def trim_sq_text by (simp add: sq_text_def)

lemma make_scalar_sq_text [simp]: "make_scalar (sq_text s) line err = (ScalarNode s line, err)"
proof -
  have "sq_text s \<notin> {''~'', ''null'', ''Null'', ''NULL''}" by (auto simp: sq_text_def)
  then show ?thesis by (simp add: make_scalar_def)
qed

lemma make_scalar_null [simp]: "make_scalar ''~'' line err = (NullNode line, err)"
  by (simp add: make_scalar_def yaml_trim_def yaml_rtrim_def is_blank_def)

lemma read_flow_body:
  "read_flow_scalar_loop True False (sq_body s @ squote # rest) =
     (case read_flow_scalar_loop False False rest of (a, b) \<Rightarrow> (sq_body s @ squote # a, b))"
  by (induction s) (auto split: prod.splits)

definition flow_stop :: "string \<Rightarrow> bool" where
  "flow_stop rest \<longleftrightarrow> rest = [] \<or> hd rest \<in> {CHR '','', CHR '']'', CHR ''}'', CHR '':''}"

lemma read_flow_stop: "flow_stop rest \<Longrightarrow> read_flow_scalar_loop False False rest = ([], rest)"
  by (cases rest) (auto simp: flow_stop_def)

lemma read_flow_sq_text [simp]: "flow_stop rest \<Longrightarrow> read_flow_scalar (sq_text s @ rest) = (sq_text s, rest)"
  by (simp add: read_flow_scalar_def sq_text_def read_flow_body read_flow_stop flip: sq_text_def [simplified])
     (simp add: yaml_rtrim_def)

lemma key_split_body:
  "key_split_loop True False k (sq_body s @ squote # rest) =
     map_option (\<lambda>(a, b). (sq_body s @ squote # a, b)) (key_split_loop False False k rest)"
  by (induction s; cases "key_split_loop False False k rest") (auto simp: Let_def)

lemma key_split_sq_text:
  "key_split (sq_text s @ rest) = map_option (\<lambda>(a, b). (sq_text s @ a, b)) (key_split rest)"
  by (cases "key_split_loop False False 0 rest") (auto simp: key_split_def sq_text_def key_split_body)

lemma key_split_field [simp]:
  "rest = [] \<or> hd rest = CHR '' '' \<Longrightarrow> key_split (sq_text s @ CHR '':'' # rest) = Some (sq_text s, rest)"
  by (simp add: key_split_sq_text) (simp add: key_split_def)

lemma key_split_scalar [simp]: "key_split (sq_text s) = None" "key_split ''~'' = None"
  using key_split_sq_text [of s "[]"] by (simp_all add: key_split_def)

section \<open>Comments\<close>

definition neutral :: "string \<Rightarrow> bool" where
  "neutral t \<longleftrightarrow> (\<forall>p rest. \<exists>p'. strip_comment_loop False False p (t @ rest) = t @ strip_comment_loop False False p' rest)"

lemma neutral_Nil [intro, simp]: "neutral []"
  by (auto simp: neutral_def)

lemma neutral_append [intro]: "neutral a \<Longrightarrow> neutral b \<Longrightarrow> neutral (a @ b)"
  unfolding neutral_def append_assoc by metis

lemma neutral_char [intro]: "c \<notin> {squote, dquote, CHR ''#''} \<Longrightarrow> neutral t \<Longrightarrow> neutral (c # t)"
  unfolding neutral_def by (metis (no_types, lifting) append_Cons insertCI strip_comment_loop.simps(2))

lemma strip_body:
  "\<exists>p'. strip_comment_loop True False p (sq_body s @ squote # rest) = sq_body s @ squote # strip_comment_loop False False p' rest"
  by (induction s arbitrary: p) auto

lemma neutral_sq_text [intro, simp]: "neutral (sq_text s)"
  unfolding neutral_def sq_text_def by (simp add: strip_body)

lemma neutral_join: "(\<And>x. x \<in> set xs \<Longrightarrow> neutral x) \<Longrightarrow> neutral sep \<Longrightarrow> neutral (join sep xs)"
  by (induction sep xs rule: join.induct) auto

lemma strip_neutral: "neutral t \<Longrightarrow> strip_comment t = t"
  unfolding neutral_def strip_comment_def by (metis append_Nil2 strip_comment_loop.simps(1))

lemma neutral_flow_text [intro, simp]: "neutral (flow_text v)"
proof (induction v)
  case (MapNode fs l)
  then show ?case by (force intro!: neutral_char neutral_append neutral_join)
qed (auto intro!: neutral_char neutral_append neutral_join)


section \<open>Flow collections\<close>

text \<open>More fuel only turns no result into a result.\<close>

definition le_opt :: "'a option \<Rightarrow> 'a option \<Rightarrow> bool" where
  "le_opt a b \<longleftrightarrow> a = None \<or> a = b"

lemma le_opt_refl: "le_opt a a"
  by (simp add: le_opt_def)

lemma le_opt_if: "(c \<Longrightarrow> le_opt a a') \<Longrightarrow> (\<not> c \<Longrightarrow> le_opt b b') \<Longrightarrow> le_opt (if c then a else b) (if c then a' else b')"
  by simp

lemma le_opt_prod: "(\<And>x y. le_opt (f x y) (g x y)) \<Longrightarrow> le_opt (case p of (x, y) \<Rightarrow> f x y) (case p of (x, y) \<Rightarrow> g x y)"
  by (simp split: prod.splits)

lemma le_opt_list:
  "le_opt a a' \<Longrightarrow> (\<And>x xs. le_opt (f x xs) (g x xs)) \<Longrightarrow>
     le_opt (case l of [] \<Rightarrow> a | x # xs \<Rightarrow> f x xs) (case l of [] \<Rightarrow> a' | x # xs \<Rightarrow> g x xs)"
  by (simp split: list.splits)

lemma le_opt_bind:
  "le_opt r r' \<Longrightarrow> (\<And>x. le_opt (f x) (g x)) \<Longrightarrow>
     le_opt (case r of None \<Rightarrow> None | Some x \<Rightarrow> f x) (case r' of None \<Rightarrow> None | Some x \<Rightarrow> g x)"
  by (auto simp: le_opt_def split: option.splits)

lemma le_opt_key:
  "le_opt a a' \<Longrightarrow> (\<And>x. le_opt (f x) (g x)) \<Longrightarrow>
     le_opt (case r of None \<Rightarrow> a | Some x \<Rightarrow> f x) (case r of None \<Rightarrow> a' | Some x \<Rightarrow> g x)"
  by (auto simp: le_opt_def split: option.splits)

lemma le_optD: "le_opt a b \<Longrightarrow> a = Some r \<Longrightarrow> b = Some r"
  by (auto simp: le_opt_def)

lemma flow_step_mono:
  assumes "\<And>m s e. le_opt (rec m s e) (rec' m s e)"
  shows "le_opt (parse_flow_value rec line s e) (parse_flow_value rec' line s e)"
    "le_opt (parse_flow_seq rec line ns s e) (parse_flow_seq rec' line ns s e)"
    "le_opt (parse_flow_map rec line fs s e) (parse_flow_map rec' line fs s e)"
  unfolding parse_flow_value_def parse_flow_seq_def parse_flow_map_def Let_def
  by (intro le_opt_list le_opt_if le_opt_prod le_opt_bind assms le_opt_refl)+

lemma flow_mono_Suc: "le_opt (flow n line m s e) (flow (Suc n) line m s e)"
proof (induction n arbitrary: m s e)
  case (Suc n)
  then show ?case
    using flow_step_mono [of "flow n line" "flow (Suc n) line"] by (cases m) auto
qed (simp add: le_opt_def)

lemma flow_mono:
  assumes "flow n line m s e = Some r" "n \<le> n'"
  shows "flow n' line m s e = Some r"
  using assms(2,1) by (induction n' rule: dec_induct) (auto dest: le_optD [OF flow_mono_Suc] simp del: flow.simps)

lemma block_step_mono:
  assumes "\<And>m i ls e. le_opt (rec m i ls e) (rec' m i ls e)"
  shows "le_opt (parse_block rec i ls e) (parse_block rec' i ls e)"
    "le_opt (parse_seq rec number ns i ls e) (parse_seq rec' number ns i ls e)"
    "le_opt (parse_map rec number fs i ls e) (parse_map rec' number fs i ls e)"
  unfolding parse_block_def parse_seq_def parse_map_def Let_def
  by (intro le_opt_list le_opt_if le_opt_prod le_opt_key le_opt_bind assms le_opt_refl)+

lemma block_mono_Suc: "le_opt (block n m i ls e) (block (Suc n) m i ls e)"
proof (induction n arbitrary: m i ls e)
  case (Suc n)
  then show ?case
    using block_step_mono [of "block n" "block (Suc n)"] by (cases m) auto
qed (simp add: le_opt_def)

lemma block_mono:
  assumes "block n m i ls e = Some r" "n \<le> n'"
  shows "block n' m i ls e = Some r"
  using assms(2,1) by (induction n' rule: dec_induct) (auto dest: le_optD [OF block_mono_Suc] simp del: block.simps)


definition flows :: "nat \<Rightarrow> flow_mode \<Rightarrow> string \<Rightarrow> string \<Rightarrow> Node \<Rightarrow> bool" where
  "flows line m s rest nd \<longleftrightarrow> (\<exists>n. flow n line m s None = Some (nd, rest, None))"

lemma flowsI: "flow (Suc n) line m s None = Some (nd, rest, None) \<Longrightarrow> flows line m s rest nd"
  unfolding flows_def by blast

lemma flows_upto: "flows line m s rest nd \<Longrightarrow> \<exists>n. \<forall>n' \<ge> n. flow n' line m s None = Some (nd, rest, None)"
  unfolding flows_def using flow_mono by blast

lemma flows_null: "flow_stop rest \<Longrightarrow> flows line FlowValue (''~'' @ rest) rest (NullNode line)"
  by (rule flowsI [of 0])
     (auto simp: parse_flow_value_def is_blank_def read_flow_scalar_def read_flow_stop yaml_rtrim_def)

lemma sq_text_Cons: "sq_text s = squote # sq_body s @ [squote]"
  by (simp add: sq_text_def)

lemma flows_scalar: "flow_stop rest \<Longrightarrow> flows line FlowValue (sq_text s @ rest) rest (ScalarNode s line)"
proof (rule flowsI [of 0])
  define t where "t = sq_body s @ [squote]"
  have sq: "sq_text s = squote # t" by (simp add: sq_text_def t_def)
  assume "flow_stop rest"
  then have "read_flow_scalar (squote # t @ rest) = (squote # t, rest)"
    using read_flow_sq_text [of rest s] by (simp add: sq)
  then show "flow (Suc 0) line FlowValue (sq_text s @ rest) None = Some (ScalarNode s line, rest, None)"
    using make_scalar_sq_text [of s line None] by (simp add: parse_flow_value_def sq is_blank_def)
qed

lemma flows_open:
  "flows line (FlowSeq []) s rest nd \<Longrightarrow> flows line FlowValue (CHR ''['' # s) rest nd"
  "flows line (FlowMap []) s rest nd \<Longrightarrow> flows line FlowValue (CHR ''{'' # s) rest nd"
  unfolding flows_def by (elim exE, rule exI [of _ "Suc n" for n], simp add: parse_flow_value_def is_blank_def)+

lemma flows_close:
  "flows line (FlowSeq acc) (CHR '']'' # rest) rest (SeqNode acc line)"
  "flows line (FlowMap facc) (CHR ''}'' # rest) rest (MapNode facc line)"
  by (rule flowsI [of 0], simp add: parse_flow_seq_def parse_flow_map_def is_blank_def)+

lemma flows_seq_item:
  assumes "s \<noteq> []" "\<not> is_blank (hd s)" "hd s \<noteq> CHR '']''"
  shows "flows line FlowValue s (CHR '','' # s') nd \<Longrightarrow> flows line (FlowSeq (acc @ [nd])) s' rest nd' \<Longrightarrow>
           flows line (FlowSeq acc) s rest nd'"
    "flows line FlowValue s (CHR '']'' # rest) nd \<Longrightarrow>
           flows line (FlowSeq acc) s rest (SeqNode (acc @ [nd]) line)"
proof -
  obtain c cs where s: "s = c # cs" using assms(1) by (cases s) auto
  show "flows line (FlowSeq acc) s rest nd'"
    if 1: "flows line FlowValue s (CHR '','' # s') nd" and 2: "flows line (FlowSeq (acc @ [nd])) s' rest nd'"
  proof -
    obtain n1 n2 where "\<forall>n' \<ge> n1. flow n' line FlowValue s None = Some (nd, CHR '','' # s', None)"
      "\<forall>n' \<ge> n2. flow n' line (FlowSeq (acc @ [nd])) s' None = Some (nd', rest, None)"
      using flows_upto [OF 1] flows_upto [OF 2] by blast
    then show ?thesis
      using assms by (intro flowsI [of "max n1 n2"]) (simp add: parse_flow_seq_def s is_blank_def Let_def)
  qed
  show "flows line (FlowSeq acc) s rest (SeqNode (acc @ [nd]) line)"
    if 1: "flows line FlowValue s (CHR '']'' # rest) nd"
  proof -
    obtain n1 where "flow n1 line FlowValue s None = Some (nd, CHR '']'' # rest, None)"
      using 1 by (auto simp: flows_def)
    then show ?thesis
      using assms by (intro flowsI [of n1]) (simp add: parse_flow_seq_def s is_blank_def Let_def)
  qed
qed

lemma flows_map_item:
  shows "flows line FlowValue (CHR '' '' # s) (CHR '','' # s') nd \<Longrightarrow> flows line (FlowMap (acc @ [(k, nd)])) s' rest nd' \<Longrightarrow>
           flows line (FlowMap acc) (sq_text k @ '': '' @ s) rest nd'"
    "flows line FlowValue (CHR '' '' # s) (CHR ''}'' # rest) nd \<Longrightarrow>
           flows line (FlowMap acc) (sq_text k @ '': '' @ s) rest (MapNode (acc @ [(k, nd)]) line)"
proof -
  define t where "t = sq_body k @ [squote]"
  have sq: "sq_text k = squote # t" by (simp add: sq_text_def t_def)
  have r: "read_flow_scalar (squote # t @ CHR '':'' # CHR '' '' # s) = (squote # t, CHR '':'' # CHR '' '' # s)"
    using read_flow_sq_text [of "'': '' @ s" k] by (simp add: flow_stop_def sq)
  have u: "unquote (squote # t) = k" using unquote_sq_text [of k] by (simp add: sq)
  show "flows line (FlowMap acc) (sq_text k @ '': '' @ s) rest nd'"
    if 1: "flows line FlowValue (CHR '' '' # s) (CHR '','' # s') nd" and 2: "flows line (FlowMap (acc @ [(k, nd)])) s' rest nd'"
  proof -
    obtain n1 n2 where "\<forall>n' \<ge> n1. flow n' line FlowValue (CHR '' '' # s) None = Some (nd, CHR '','' # s', None)"
      "\<forall>n' \<ge> n2. flow n' line (FlowMap (acc @ [(k, nd)])) s' None = Some (nd', rest, None)"
      using flows_upto [OF 1] flows_upto [OF 2] by blast
    then show ?thesis
      by (intro flowsI [of "max n1 n2"]) (simp add: parse_flow_map_def sq r u is_blank_def Let_def)
  qed
  show "flows line (FlowMap acc) (sq_text k @ '': '' @ s) rest (MapNode (acc @ [(k, nd)]) line)"
    if 1: "flows line FlowValue (CHR '' '' # s) (CHR ''}'' # rest) nd"
  proof -
    obtain n1 where "flow n1 line FlowValue (CHR '' '' # s) None = Some (nd, CHR ''}'' # rest, None)"
      using 1 by (auto simp: flows_def)
    then show ?thesis
      by (intro flowsI [of n1]) (simp add: parse_flow_map_def sq r u is_blank_def Let_def)
  qed
qed

lemma flows_blank: "flows line FlowValue s rest nd \<Longrightarrow> flows line FlowValue (CHR '' '' # s) rest nd"
proof -
  assume "flows line FlowValue s rest nd"
  then obtain n where "flow n line FlowValue s None = Some (nd, rest, None)" by (auto simp: flows_def)
  then have "flow n line FlowValue (CHR '' '' # s) None = Some (nd, rest, None)"
    by (cases n) (simp_all add: parse_flow_value_def is_blank_def)
  then show ?thesis by (auto simp: flows_def)
qed


lemma flow_text_ends:
  "flow_text v \<noteq> []" "hd (flow_text v) \<in> {CHR ''~'', squote, CHR ''['', CHR ''{''}"
  "last (flow_text v) \<in> {CHR ''~'', squote, CHR '']'', CHR ''}''}"
  by (cases v; simp)+

lemma flows_items:
  assumes "\<And>v rest. v \<in> set ns \<Longrightarrow> flow_stop rest \<Longrightarrow> \<exists>nd. flows line FlowValue (flow_text v @ rest) rest nd \<and> erase nd = erase v"
  shows "\<exists>ns'. flows line (FlowSeq acc) (join '','' (map flow_text ns) @ CHR '']'' # rest) rest (SeqNode (acc @ ns') line) \<and>
           map erase ns' = map erase ns"
  using assms
proof (induction ns arbitrary: acc)
  case Nil
  show ?case using flows_close(1) [of line acc rest] by auto
next
  case (Cons v ns)
  have h: "\<not> is_blank (hd (flow_text v @ s))" "hd (flow_text v @ s) \<noteq> CHR '']''" "flow_text v @ s \<noteq> []" for s
    using flow_text_ends [of v] by (auto simp: is_blank_def hd_append)
  show ?case
  proof (cases ns)
    case Nil
    obtain nd where "flows line FlowValue (flow_text v @ CHR '']'' # rest) (CHR '']'' # rest) nd" "erase nd = erase v"
      using Cons.prems [of v "CHR '']'' # rest"] by (auto simp: flow_stop_def)
    then show ?thesis
      using Nil by (intro exI [of _ "[nd]"]) (auto dest: flows_seq_item(2) [OF h(3) h(1) h(2)])
  next
    case (Cons w ns')
    define s where "s = join '','' (map flow_text ns) @ CHR '']'' # rest"
    obtain nd where nd: "flows line FlowValue (flow_text v @ CHR '','' # s) (CHR '','' # s) nd" "erase nd = erase v"
      using Cons.prems [of v "CHR '','' # s"] by (auto simp: flow_stop_def)
    obtain ns2 where "flows line (FlowSeq (acc @ [nd])) s rest (SeqNode ((acc @ [nd]) @ ns2) line)"
      "map erase ns2 = map erase ns"
      using Cons.IH [of "acc @ [nd]"] Cons.prems by (auto simp: s_def)
    then show ?thesis
      using flows_seq_item(1) [OF h(3) h(1) h(2) nd(1)] nd(2) Cons
      by (intro exI [of _ "nd # ns2"]) (auto simp: s_def)
  qed
qed

definition field_text :: "string \<times> Node \<Rightarrow> string" where
  "field_text = (\<lambda>(k, v). sq_text k @ '': '' @ flow_text v)"

lemma flow_text_MapNode:
  "flow_text (MapNode fs l) = ''{'' @ join '','' (map field_text fs) @ ''}''"
  by (simp add: field_text_def comp_def case_prod_unfold)

lemma flows_fields:
  assumes "\<And>k v rest. (k, v) \<in> set fs \<Longrightarrow> flow_stop rest \<Longrightarrow> \<exists>nd. flows line FlowValue (flow_text v @ rest) rest nd \<and> erase nd = erase v"
  shows "\<exists>fs'. flows line (FlowMap acc) (join '','' (map field_text fs) @ CHR ''}'' # rest) rest (MapNode (acc @ fs') line) \<and>
           erase_fields fs' = erase_fields fs"
  using assms
proof (induction fs arbitrary: acc)
  case Nil
  show ?case using flows_close(2) [of line acc rest] by (intro exI [of _ "[]"]) simp
next
  case (Cons kv fs)
  obtain k v where kv: "kv = (k, v)" by fastforce
  show ?case
  proof (cases fs)
    case Nil
    obtain nd where "flows line FlowValue (flow_text v @ CHR ''}'' # rest) (CHR ''}'' # rest) nd" "erase nd = erase v"
      using Cons.prems [of k v "CHR ''}'' # rest"] kv by (auto simp: flow_stop_def)
    then show ?thesis
      using flows_map_item(2) [OF flows_blank, of line "flow_text v @ CHR ''}'' # rest" rest nd acc k] Nil kv
      by (intro exI [of _ "[(k, nd)]"]) (auto simp: field_text_def)
  next
    case (Cons w fs')
    define s where "s = join '','' (map field_text fs) @ CHR ''}'' # rest"
    obtain nd where nd: "flows line FlowValue (flow_text v @ CHR '','' # s) (CHR '','' # s) nd" "erase nd = erase v"
      using Cons.prems [of k v "CHR '','' # s"] kv by (auto simp: flow_stop_def)
    obtain fs2 where "flows line (FlowMap (acc @ [(k, nd)])) s rest (MapNode ((acc @ [(k, nd)]) @ fs2) line)"
      "erase_fields fs2 = erase_fields fs"
      using Cons.IH [of "acc @ [(k, nd)]"] Cons.prems unfolding s_def by (meson list.set_intros(2))
    then show ?thesis
      using flows_map_item(1) [OF flows_blank [OF nd(1)]] nd(2) Cons kv
      by (intro exI [of _ "(k, nd) # fs2"]) (auto simp: s_def field_text_def)
  qed
qed

lemma flows_text: "flow_stop rest \<Longrightarrow> \<exists>nd. flows line FlowValue (flow_text v @ rest) rest nd \<and> erase nd = erase v"
proof (induction v arbitrary: rest)
  case (NullNode l)
  then show ?case using flows_null [of rest line] by (intro exI [of _ "NullNode line"]) simp
next
  case (ScalarNode s l)
  then show ?case using flows_scalar [of rest line s] by (intro exI [of _ "ScalarNode s line"]) simp
next
  case (SeqNode ns l)
  obtain ns' where "flows line (FlowSeq []) (join '','' (map flow_text ns) @ CHR '']'' # rest) rest (SeqNode ([] @ ns') line)"
    "map erase ns' = map erase ns"
    using flows_items [of ns line "[]" rest] SeqNode.IH by blast
  then show ?case using flows_open(1) by (intro exI [of _ "SeqNode ns' line"]) simp
next
  case (MapNode fs l)
  obtain fs' where "flows line (FlowMap []) (join '','' (map field_text fs) @ CHR ''}'' # rest) rest (MapNode ([] @ fs') line)"
    "erase_fields fs' = erase_fields fs"
    using flows_fields [of fs line "[]" rest] MapNode.IH by (metis snds.intros snd_conv)
  then show ?case
    using flows_open(2) unfolding flow_text_MapNode by (intro exI [of _ "MapNode fs' line"]) simp
qed

lemma parse_flow_text: "\<exists>nd. parse_flow (flow_text v) line None = Some (nd, None) \<and> erase nd = erase v"
proof -
  obtain nd n where n: "flow n line FlowValue (flow_text v) None = Some (nd, [], None)" "erase nd = erase v"
    using flows_text [of "[]" line v] by (auto simp: flows_def flow_stop_def)
  define N where "N = 2 * length (flow_text v) + 1"
  have "flow_need FlowValue (flow_text v) \<le> N" by (simp add: flow_need_def N_def)
  then obtain r where r: "flow N line FlowValue (flow_text v) None = Some r"
    using flow_totalD [OF flow_total_flow] by blast
  have "r = (nd, [], None)"
    using flow_mono [OF r, of "max n N"] flow_mono [OF n(1), of "max n N"] by simp
  then show ?thesis using r n(2) by (auto simp: parse_flow_def N_def)
qed

text \<open>A value in flow style on its own line, as the block functions read it.\<close>

lemma value_text:
  "\<exists>nd. erase nd = erase v \<and>
     (if hd (flow_text v) = CHR ''['' \<or> hd (flow_text v) = CHR ''{''
      then parse_flow (flow_text v) line None = Some (nd, None)
      else make_scalar (flow_text v) line None = (nd, None))"
  using parse_flow_text [of v line] by (cases v) (auto simp: sq_text_def [symmetric])


section \<open>Blocks\<close>

definition blocks :: "block_mode \<Rightarrow> nat \<Rightarrow> Line list \<Rightarrow> Line list \<Rightarrow> Node \<Rightarrow> bool" where
  "blocks m i ls rest nd \<longleftrightarrow> (\<exists>n. block n m i ls None = Some (nd, rest, None))"

definition lower :: "nat \<Rightarrow> Line list \<Rightarrow> bool" where
  "lower i ls \<longleftrightarrow> ls = [] \<or> ln_indent (hd ls) < i"

definition shape :: "Line list \<Rightarrow> (nat \<times> string) list" where
  "shape ls = map (\<lambda>l. (ln_indent l, ln_text l)) ls"

lemma blocksI: "block (Suc n) m i ls None = Some (nd, rest, None) \<Longrightarrow> blocks m i ls rest nd"
  unfolding blocks_def by blast

lemma blocks_upto: "blocks m i ls rest nd \<Longrightarrow> \<exists>n. \<forall>n' \<ge> n. block n' m i ls None = Some (nd, rest, None)"
  unfolding blocks_def using block_mono by blast

lemma blocks_two:
  assumes "blocks m i ls rest nd" "blocks m' i' ls' rest' nd'"
  shows "\<exists>n. block n m i ls None = Some (nd, rest, None) \<and> block n m' i' ls' None = Some (nd', rest', None)"
proof -
  obtain n1 n2 where "\<forall>n' \<ge> n1. block n' m i ls None = Some (nd, rest, None)"
    "\<forall>n' \<ge> n2. block n' m' i' ls' None = Some (nd', rest', None)"
    using blocks_upto [OF assms(1)] blocks_upto [OF assms(2)] by blast
  then show ?thesis by (intro exI [of _ "max n1 n2"]) simp
qed

lemma blocks_end:
  assumes "lower i ls"
  shows "blocks (BlockMap no fs) i ls ls (MapNode fs no)" "blocks (BlockSeq no ns) i ls ls (SeqNode ns no)"
  using assms by (auto intro!: blocksI [of 0] simp: parse_map_def parse_seq_def lower_def split: list.splits)

lemma blocks_Block:
  "is_seq_item (ln_text l) \<Longrightarrow> blocks Block i (l # ls) rest nd \<longleftrightarrow> blocks (BlockSeq (ln_number l) []) i (l # ls) rest nd"
  "\<not> is_seq_item (ln_text l) \<Longrightarrow> blocks Block i (l # ls) rest nd \<longleftrightarrow> blocks (BlockMap (ln_number l) []) i (l # ls) rest nd"
proof -
  have "blocks Block i (l # ls) rest nd \<longleftrightarrow> (\<exists>n. block (Suc n) Block i (l # ls) None = Some (nd, rest, None))"
    unfolding blocks_def by (metis block.simps(1) not0_implies_Suc option.distinct(1))
  then show "is_seq_item (ln_text l) \<Longrightarrow> blocks Block i (l # ls) rest nd \<longleftrightarrow> blocks (BlockSeq (ln_number l) []) i (l # ls) rest nd"
    "\<not> is_seq_item (ln_text l) \<Longrightarrow> blocks Block i (l # ls) rest nd \<longleftrightarrow> blocks (BlockMap (ln_number l) []) i (l # ls) rest nd"
    by (simp_all add: parse_block_def blocks_def)
qed

lemma not_seq_item [simp]: "\<not> is_seq_item (sq_text k @ t)" "\<not> is_seq_item (sq_text k)"
  by (auto simp: is_seq_item_def sq_text_def)

lemma trim_flow_text [simp]: "yaml_trim (flow_text v) = flow_text v"
  using flow_text_ends [of v] by (intro trim_id) (auto simp: is_blank_def)

lemma blocks_field_flow:
  assumes "ln_indent l = i" "ln_text l = sq_text k @ '': '' @ flow_text v" "k \<noteq> []"
  shows "\<exists>nd. erase nd = erase v \<and>
           (\<forall>r. blocks (BlockMap no (fs @ [(k, nd)])) i ls rest r \<longrightarrow> blocks (BlockMap no fs) i (l # ls) rest r)"
proof -
  obtain nd where nd: "erase nd = erase v"
    "if hd (flow_text v) = CHR ''['' \<or> hd (flow_text v) = CHR ''{''
      then parse_flow (flow_text v) (ln_number l) None = Some (nd, None)
      else make_scalar (flow_text v) (ln_number l) None = (nd, None)"
    using value_text by blast
  have "blocks (BlockMap no fs) i (l # ls) rest r" if more: "blocks (BlockMap no (fs @ [(k, nd)])) i ls rest r" for r
  proof -
    obtain n where "block n (BlockMap no (fs @ [(k, nd)])) i ls None = Some (r, rest, None)"
      using more by (auto simp: blocks_def)
    then show ?thesis
      using nd(2) flow_text_ends(1) [of v] assms
      by (intro blocksI [of n]) (simp add: parse_map_def trim_blank Let_def split: if_splits)
  qed
  then show ?thesis using nd(1) by blast
qed

lemma blocks_field_nest:
  assumes "ln_indent l = i" "ln_text l = sq_text k @ '':''" "k \<noteq> []"
    and "ls \<noteq> []" "ln_indent (hd ls) = i + 2" "blocks Block (i + 2) ls ls' nd"
    and "blocks (BlockMap no (fs @ [(k, nd)])) i ls' rest r"
  shows "blocks (BlockMap no fs) i (l # ls) rest r"
proof -
  obtain n where "block n Block (i + 2) ls None = Some (nd, ls', None)"
    "block n (BlockMap no (fs @ [(k, nd)])) i ls' None = Some (r, rest, None)"
    using blocks_two [OF assms(6,7)] by blast
  then show ?thesis
    using assms(1-5)
    by (intro blocksI [of n]) (simp add: parse_map_def Let_def yaml_trim_def yaml_rtrim_def)
qed

lemma seq_item [simp]: "is_seq_item (CHR ''-'' # CHR '' '' # t)" "is_seq_item ''-''"
  by (simp_all add: is_seq_item_def)

lemma blocks_item_flow:
  assumes "ln_indent l = i" "ln_text l = ''- '' @ flow_text v"
  shows "\<exists>nd. erase nd = erase v \<and>
           (\<forall>r. blocks (BlockSeq no (ns @ [nd])) i ls rest r \<longrightarrow> blocks (BlockSeq no ns) i (l # ls) rest r)"
proof -
  obtain nd where nd: "erase nd = erase v"
    "if hd (flow_text v) = CHR ''['' \<or> hd (flow_text v) = CHR ''{''
      then parse_flow (flow_text v) (ln_number l) None = Some (nd, None)
      else make_scalar (flow_text v) (ln_number l) None = (nd, None)"
    using value_text by blast
  have ks: "hd (flow_text v) \<noteq> CHR ''['' \<Longrightarrow> hd (flow_text v) \<noteq> CHR ''{'' \<Longrightarrow> key_split (flow_text v) = None"
    by (cases v) auto
  have "blocks (BlockSeq no ns) i (l # ls) rest r" if more: "blocks (BlockSeq no (ns @ [nd])) i ls rest r" for r
  proof -
    obtain n where "block n (BlockSeq no (ns @ [nd])) i ls None = Some (r, rest, None)"
      using more by (auto simp: blocks_def)
    then show ?thesis
      using nd(2) ks flow_text_ends(1) [of v] assms
      by (intro blocksI [of n]) (simp add: parse_seq_def trim_blank Let_def split: if_splits)
  qed
  then show ?thesis using nd(1) by blast
qed

lemma blocks_item_nest:
  assumes "ln_indent l = i" "ln_text l = ''-''"
    and "ls \<noteq> []" "ln_indent (hd ls) = i + 2" "blocks Block (i + 2) ls ls' nd"
    and "blocks (BlockSeq no (ns @ [nd])) i ls' rest r"
  shows "blocks (BlockSeq no ns) i (l # ls) rest r"
proof -
  obtain n where "block n Block (i + 2) ls None = Some (nd, ls', None)"
    "block n (BlockSeq no (ns @ [nd])) i ls' None = Some (r, rest, None)"
    using blocks_two [OF assms(5,6)] by blast
  then show ?thesis
    using assms(1-4)
    by (intro blocksI [of n]) (simp add: parse_seq_def Let_def yaml_trim_def yaml_rtrim_def)
qed

lemma blocks_item_compact:
  assumes "ln_indent l = i" "ln_text l = ''- '' @ t" "t = sq_text k @ CHR '':'' # u" "u = [] \<or> hd u = CHR '' ''"
    and "yaml_trim t = t"
    and "blocks Block (i + 2) (l\<lparr> ln_indent := i + 2, ln_text := t \<rparr> # ls) ls' nd"
    and "blocks (BlockSeq no (ns @ [nd])) i ls' rest r"
  shows "blocks (BlockSeq no ns) i (l # ls) rest r"
proof -
  have "blocks (BlockMap (ln_number l) []) (i + 2) (l\<lparr> ln_indent := i + 2, ln_text := t \<rparr> # ls) ls' nd"
    using assms(6) by (subst (asm) blocks_Block(2)) (simp_all add: assms(3))
  from blocks_two [OF this assms(7)] obtain n where
    "block n (BlockMap (ln_number l) []) (i + 2) (l\<lparr> ln_indent := i + 2, ln_text := t \<rparr> # ls) None = Some (nd, ls', None)"
    "block n (BlockSeq no (ns @ [nd])) i ls' None = Some (r, rest, None)" by blast
  moreover have "t \<noteq> []" "hd t = squote" "key_split t \<noteq> None"
    using assms(3,4) by (auto simp: sq_text_def [symmetric] hd_append)
  ultimately show ?thesis
    using assms(1,2,5)
    by (intro blocksI [of n]) (simp add: parse_seq_def Let_def trim_blank)
qed


text \<open>The first line of a printed block, and the lines of its entries.\<close>

declare field_lines.simps [simp del] item_lines.simps [simp del]

lemma field_lines_head:
  "\<exists>u ls. field_lines d i (k, v) = (i, sq_text k @ CHR '':'' # u) # ls \<and> (u = [] \<or> hd u = CHR '' '') \<and>
     yaml_trim (sq_text k @ CHR '':'' # u) = sq_text k @ CHR '':'' # u"
proof -
  have "yaml_trim (sq_text k @ '': '' @ flow_text v) = sq_text k @ '': '' @ flow_text v"
    using flow_text_ends [of v] by (intro trim_id) (auto simp: is_blank_def hd_append)
  moreover have "yaml_trim (sq_text k @ '':'') = sq_text k @ '':''"
    by (intro trim_id) (auto simp: is_blank_def hd_append)
  ultimately show ?thesis by (auto simp: field_lines.simps)
qed

lemma field_head: "\<exists>t ls. field_lines d i kv = (i, t) # ls"
  using field_lines_head by (cases kv) blast

lemma item_lines_head:
  assumes "d \<noteq> 0 \<Longrightarrow> \<not> in_flow v \<Longrightarrow> \<exists>t sh. block_lines (d - 1) (i + 2) v = (i + 2, t) # sh"
  shows "\<exists>t ls. item_lines d i v = (i, t) # ls \<and> is_seq_item t"
proof (cases "d = 0 \<or> in_flow v")
  case False
  then obtain t sh where "block_lines (d - 1) (i + 2) v = (i + 2, t) # sh" using assms by blast
  with False show ?thesis by (cases v) (auto simp: item_lines.simps)
qed (auto simp: item_lines.simps)

lemma block_lines_head: "\<not> in_flow v \<Longrightarrow> \<exists>t sh. block_lines d i v = (i, t) # sh"
proof (induction d arbitrary: i v rule: less_induct)
  case (less d)
  show ?case
  proof (cases v)
    case (MapNode fs l)
    then obtain kv fs' where "fs = kv # fs'" using less.prems by (cases fs) (auto simp: in_flow_def)
    then show ?thesis using field_head [of d i kv] MapNode by auto
  next
    case (SeqNode ns l)
    then obtain w ns' where ns: "ns = w # ns'" using less.prems by (cases ns) (auto simp: in_flow_def)
    have "\<exists>t ls. item_lines d i w = (i, t) # ls \<and> is_seq_item t"
      by (intro item_lines_head less.IH) auto
    then show ?thesis using SeqNode ns by auto
  qed (use less.prems in \<open>auto simp: in_flow_def\<close>)
qed

lemma item_head: "\<exists>t ls. item_lines d i v = (i, t) # ls"
  using item_lines_head [of d v i, OF block_lines_head] by fast

lemma lower_entries:
  assumes "\<And>x. \<exists>t sh. f x = (i, t) # sh" "shape ls = concat (map f xs)" "lower i tail"
  shows "lower (i + 2) (ls @ tail)"
proof (cases xs)
  case Nil
  then show ?thesis using assms by (auto simp: shape_def lower_def)
next
  case (Cons x xs')
  obtain t sh where "f x = (i, t) # sh" using assms(1) by blast
  then show ?thesis using assms(2) Cons by (cases ls) (auto simp: shape_def lower_def)
qed

text \<open>Reading back one level, given that nested blocks are read back.\<close>

definition nested_ok :: "nat \<Rightarrow> bool" where
  "nested_ok d \<longleftrightarrow> (\<forall>v i ls tail. \<not> in_flow v \<longrightarrow> doc_ok v \<longrightarrow> shape ls = block_lines d i v \<longrightarrow> lower i tail \<longrightarrow>
     (\<exists>nd. blocks Block i (ls @ tail) tail nd \<and> erase nd = erase v))"

lemma shape_append: "shape ls = a @ b \<Longrightarrow> \<exists>la lb. ls = la @ lb \<and> shape la = a \<and> shape lb = b"
  unfolding shape_def by (auto simp: map_eq_append_conv)

lemma shape_Cons: "shape ls = (i, t) # sh \<Longrightarrow> \<exists>l ls'. ls = l # ls' \<and> ln_indent l = i \<and> ln_text l = t \<and> shape ls' = sh"
  unfolding shape_def by (cases ls) auto

lemma nested_call:
  assumes "nested_ok d" "\<not> in_flow v" "doc_ok v" "shape ls = block_lines d (i + 2) v" "lower (i + 2) tail"
  shows "\<exists>nd. blocks Block (i + 2) (ls @ tail) tail nd \<and> erase nd = erase v \<and> ls \<noteq> [] \<and> ln_indent (hd ls) = i + 2"
proof -
  have "\<exists>t sh. block_lines d (i + 2) v = (i + 2, t) # sh" by (rule block_lines_head [OF assms(2)])
  then have "ls \<noteq> []" "ln_indent (hd ls) = i + 2" using assms(4) by (auto dest!: shape_Cons)
  then show ?thesis using assms unfolding nested_ok_def by blast
qed

lemma fields_read:
  assumes "d \<noteq> 0 \<Longrightarrow> nested_ok (d - 1)" "shape ls = concat (map (field_lines d i) fs)" "lower i tail"
    and "\<forall>(k, v) \<in> set fs. k \<noteq> [] \<and> doc_ok v"
  shows "\<exists>fs'. blocks (BlockMap no acc) i (ls @ tail) tail (MapNode (acc @ fs') no) \<and> erase_fields fs' = erase_fields fs"
  using assms(2,4)
proof (induction fs arbitrary: ls acc)
  case Nil
  then show ?case using blocks_end(1) [OF assms(3), of no acc] by (intro exI [of _ "[]"]) (simp add: shape_def)
next
  case (Cons kv fs)
  obtain k v where kv: "kv = (k, v)" by fastforce
  obtain l1 l2 where ls: "ls = l1 @ l2" "shape l1 = field_lines d i (k, v)" "shape l2 = concat (map (field_lines d i) fs)"
    using shape_append [of ls "field_lines d i kv" "concat (map (field_lines d i) fs)"] Cons.prems(1) kv by auto
  have ok: "k \<noteq> []" "doc_ok v" "\<forall>(k, v) \<in> set fs. k \<noteq> [] \<and> doc_ok v" using Cons.prems(2) kv by auto
  have "\<exists>nd. erase nd = erase v \<and> (\<forall>r. blocks (BlockMap no (acc @ [(k, nd)])) i (l2 @ tail) tail r \<longrightarrow>
      blocks (BlockMap no acc) i (ls @ tail) tail r)"
  proof (cases "d = 0 \<or> in_flow v")
    case True
    then obtain l where "l1 = [l]" "ln_indent l = i" "ln_text l = sq_text k @ '': '' @ flow_text v"
      using ls(2) by (auto dest!: shape_Cons simp: shape_def field_lines.simps)
    then show ?thesis using blocks_field_flow [of l i k v no acc "l2 @ tail" tail] ok(1) ls(1) by simp
  next
    case False
    then obtain l l1' where l: "l1 = l # l1'" "ln_indent l = i" "ln_text l = sq_text k @ '':''"
      "shape l1' = block_lines (d - 1) (i + 2) v"
      using ls(2) by (auto dest!: shape_Cons simp: field_lines.simps)
    have "lower (i + 2) (l2 @ tail)"
      by (rule lower_entries [OF field_head ls(3) assms(3)])
    then obtain nd where "blocks Block (i + 2) (l1' @ l2 @ tail) (l2 @ tail) nd" "erase nd = erase v"
      "l1' \<noteq> []" "ln_indent (hd l1') = i + 2"
      using nested_call [of "d - 1" v l1' i "l2 @ tail"] False assms(1) ok(2) l(4) by auto
    then show ?thesis
      using blocks_field_nest [OF l(2,3) ok(1), of "l1' @ l2 @ tail"] l(1) ls(1) by (intro exI [of _ nd]) auto
  qed
  then obtain nd where nd: "erase nd = erase v" "\<forall>r. blocks (BlockMap no (acc @ [(k, nd)])) i (l2 @ tail) tail r \<longrightarrow>
      blocks (BlockMap no acc) i (ls @ tail) tail r" by blast
  from Cons.IH [OF ls(3) ok(3), of "acc @ [(k, nd)]"] obtain fs' where
    "blocks (BlockMap no (acc @ [(k, nd)])) i (l2 @ tail) tail (MapNode ((acc @ [(k, nd)]) @ fs') no)"
    "erase_fields fs' = erase_fields fs" by blast
  then show ?case using nd kv by (intro exI [of _ "(k, nd) # fs'"]) (simp del: split_paired_All)
qed


lemma compact_read:
  assumes "nested_ok (d - 1)" "d \<noteq> 0" "\<not> in_flow v" "doc_ok v" "v = MapNode fs j"
    and "shape l1 = item_lines d i v" "lower (i + 2) tail"
  shows "\<exists>nd. erase nd = erase v \<and> (\<forall>r. blocks (BlockSeq no (acc @ [nd])) i tail rest r \<longrightarrow>
      blocks (BlockSeq no acc) i (l1 @ tail) rest r)"
proof -
  obtain k w fs' where v: "v = MapNode ((k, w) # fs') j"
    using assms(3,5) by (auto simp: in_flow_def neq_Nil_conv)
  obtain u sh where u: "field_lines (d - 1) (i + 2) (k, w) = (i + 2, sq_text k @ CHR '':'' # u) # sh"
    "u = [] \<or> hd u = CHR '' ''" "yaml_trim (sq_text k @ CHR '':'' # u) = sq_text k @ CHR '':'' # u"
    using field_lines_head [of "d - 1" "i + 2" k w] by blast
  define t where "t = sq_text k @ CHR '':'' # u"
  define sh' where "sh' = sh @ concat (map (field_lines (d - 1) (i + 2)) fs')"
  have bl: "block_lines (d - 1) (i + 2) v = (i + 2, t) # sh'" using u(1) by (simp add: v t_def sh'_def)
  then have "shape l1 = (i, ''- '' @ t) # sh'" using assms(2,3,6) by (simp add: item_lines.simps v)
  then obtain l l1' where l: "l1 = l # l1'" "ln_indent l = i" "ln_text l = ''- '' @ t" "shape l1' = sh'"
    by (blast dest: shape_Cons)
  have "shape (l\<lparr> ln_indent := i + 2, ln_text := t \<rparr> # l1') = block_lines (d - 1) (i + 2) v"
    using bl l(4) by (simp add: shape_def)
  then obtain nd where nd: "blocks Block (i + 2) (l\<lparr> ln_indent := i + 2, ln_text := t \<rparr> # l1' @ tail) tail nd"
    "erase nd = erase v"
    using nested_call [OF assms(1,3,4) _ assms(7), of "l\<lparr> ln_indent := i + 2, ln_text := t \<rparr> # l1'"] by auto
  have "blocks (BlockSeq no acc) i (l # l1' @ tail) rest r"
    if "blocks (BlockSeq no (acc @ [nd])) i tail rest r" for r
    using blocks_item_compact [OF l(2,3) t_def u(2) _ nd(1) that] u(3) t_def by simp
  then show ?thesis using nd(2) l(1) by (intro exI [of _ nd]) auto
qed

lemma item_read:
  assumes "d \<noteq> 0 \<Longrightarrow> nested_ok (d - 1)" "doc_ok v" "shape l1 = item_lines d i v" "lower (i + 2) tail"
  shows "\<exists>nd. erase nd = erase v \<and> (\<forall>r. blocks (BlockSeq no (acc @ [nd])) i tail rest r \<longrightarrow>
      blocks (BlockSeq no acc) i (l1 @ tail) rest r)"
proof (cases "d = 0 \<or> in_flow v")
  case True
  then obtain l where "l1 = [l]" "ln_indent l = i" "ln_text l = ''- '' @ flow_text v"
    using assms(3) by (auto dest!: shape_Cons simp: shape_def item_lines.simps)
  then show ?thesis using blocks_item_flow [of l i v no acc tail rest] by simp
next
  case nested: False
  show ?thesis
  proof (cases "\<exists>fs k. v = MapNode fs k")
    case False
    then obtain l l1' where l: "l1 = l # l1'" "ln_indent l = i" "ln_text l = ''-''"
      "shape l1' = block_lines (d - 1) (i + 2) v"
      using assms(3) nested by (cases v) (auto dest!: shape_Cons simp: item_lines.simps)
    obtain nd where "blocks Block (i + 2) (l1' @ tail) tail nd" "erase nd = erase v"
      "l1' \<noteq> []" "ln_indent (hd l1') = i + 2"
      using nested_call [of "d - 1" v l1' i tail] nested assms l(4) by auto
    then show ?thesis
      using blocks_item_nest [OF l(2,3), of "l1' @ tail"] l(1) by (intro exI [of _ nd]) auto
  next
    case True
    then show ?thesis using compact_read assms nested by blast
  qed
qed

lemma items_read:
  assumes "d \<noteq> 0 \<Longrightarrow> nested_ok (d - 1)" "shape ls = concat (map (item_lines d i) ns)" "lower i tail"
    and "\<forall>v \<in> set ns. doc_ok v"
  shows "\<exists>ns'. blocks (BlockSeq no acc) i (ls @ tail) tail (SeqNode (acc @ ns') no) \<and> map erase ns' = map erase ns"
  using assms(2,4)
proof (induction ns arbitrary: ls acc)
  case Nil
  then show ?case using blocks_end(2) [OF assms(3), of no acc] by (intro exI [of _ "[]"]) (simp add: shape_def)
next
  case (Cons v ns)
  obtain l1 l2 where ls: "ls = l1 @ l2" "shape l1 = item_lines d i v" "shape l2 = concat (map (item_lines d i) ns)"
    using shape_append [of ls "item_lines d i v" "concat (map (item_lines d i) ns)"] Cons.prems(1) by auto
  have ok: "doc_ok v" "\<forall>v \<in> set ns. doc_ok v" using Cons.prems(2) by auto
  have low: "lower (i + 2) (l2 @ tail)" by (rule lower_entries [OF item_head ls(3) assms(3)])
  obtain nd where nd: "erase nd = erase v" "\<forall>r. blocks (BlockSeq no (acc @ [nd])) i (l2 @ tail) tail r \<longrightarrow>
      blocks (BlockSeq no acc) i (ls @ tail) tail r"
    using item_read [OF assms(1) ok(1) ls(2) low, of no acc tail] ls(1) by auto
  from Cons.IH [OF ls(3) ok(2), of "acc @ [nd]"] obtain ns' where
    "blocks (BlockSeq no (acc @ [nd])) i (l2 @ tail) tail (SeqNode ((acc @ [nd]) @ ns') no)"
    "map erase ns' = map erase ns" by blast
  then show ?case using nd by (intro exI [of _ "nd # ns'"]) simp
qed

lemma nested_ok_step:
  assumes "d \<noteq> 0 \<Longrightarrow> nested_ok (d - 1)"
  shows "nested_ok d"
  unfolding nested_ok_def
proof (intro allI impI)
  fix v i ls tail
  assume v: "\<not> in_flow v" "doc_ok v" and sh: "shape ls = block_lines d i v" and low: "lower i tail"
  show "\<exists>nd. blocks Block i (ls @ tail) tail nd \<and> erase nd = erase v"
  proof (cases v)
    case (MapNode fs j)
    then obtain k w fs' where fs: "fs = (k, w) # fs'" using v by (auto simp: in_flow_def neq_Nil_conv)
    obtain l ls' where l: "ls = l # ls'" "\<not> is_seq_item (ln_text l)"
      using field_lines_head [of d i k w] sh by (auto simp: MapNode fs dest!: shape_Cons)
    have "\<forall>(k, v) \<in> set fs. k \<noteq> [] \<and> doc_ok v" using v(2) by (auto simp: MapNode list_all_iff)
    then show ?thesis
      using fields_read [where ls = ls and i = i and d = d and fs = fs and no = "ln_number l" and acc = "[]", OF assms _ low] sh l
      by (auto simp: MapNode blocks_Block)
  next
    case (SeqNode ns j)
    then obtain w ns' where ns: "ns = w # ns'" using v by (auto simp: in_flow_def neq_Nil_conv)
    obtain l ls' where l: "ls = l # ls'" "is_seq_item (ln_text l)"
      using item_lines_head [of d w i, OF block_lines_head] sh by (auto simp: SeqNode ns dest!: shape_Cons)
    have "\<forall>v \<in> set ns. doc_ok v" using v(2) by (auto simp: SeqNode list_all_iff)
    then show ?thesis
      using items_read [where ls = ls and i = i and d = d and ns = ns and no = "ln_number l" and acc = "[]", OF assms _ low] sh l
      by (auto simp: SeqNode blocks_Block)
  qed (use v in \<open>auto simp: in_flow_def\<close>)
qed

lemma nested_ok: "nested_ok d"
  by (induction d) (auto intro: nested_ok_step)


section \<open>Documents\<close>

lemma newline_free_flow_text: "doc_ok v \<Longrightarrow> CHR 0x0A \<notin> set (flow_text v)"
proof -
  have sq: "CHR 0x0A \<notin> set s \<Longrightarrow> CHR 0x0A \<notin> set (sq_text s)" for s
    by (auto simp: sq_text_def sq_body_def split: if_splits)
  have join: "CHR 0x0A \<in> set (join '','' xs) \<Longrightarrow> \<exists>x \<in> set xs. CHR 0x0A \<in> set x" for xs
    by (induction "'',''" xs rule: join.induct) auto
  show "doc_ok v \<Longrightarrow> CHR 0x0A \<notin> set (flow_text v)"
  proof (induction v)
    case (MapNode fs l)
    show ?case
      unfolding flow_text_MapNode using MapNode
      by (fastforce dest!: join simp: field_text_def list_all_iff dest: sq)
  qed (auto dest!: join simp: list_all_iff dest: sq)
qed

text \<open>A text that the line scanner returns as it stands.\<close>

definition plain_line :: "string \<Rightarrow> bool" where
  "plain_line t \<longleftrightarrow> neutral t \<and> CHR 0x0A \<notin> set t \<and> t \<noteq> [] \<and> \<not> is_blank (hd t) \<and>
     last t \<notin> {CHR '' '', CHR 0x09, CHR 0x0D} \<and> t \<noteq> ''---'' \<and> t \<noteq> ''...''"

lemma scan_plain: "plain_line t \<Longrightarrow>
  scan_line n (line_text (i, t)) = Inr (Some \<lparr> ln_indent = i, ln_number = n, ln_text = t \<rparr>)"
proof -
  assume t: "plain_line t"
  then obtain c cs where c: "t = c # cs" "\<not> is_blank c" by (cases t) (auto simp: plain_line_def)
  have "takeWhile (\<lambda>c. c = CHR '' '') (replicate i (CHR '' '') @ t) = replicate i (CHR '' '')"
    "dropWhile (\<lambda>c. c = CHR '' '') (replicate i (CHR '' '') @ t) = t"
    using c by (induction i) (auto simp: is_blank_def)
  moreover have "yaml_rtrim (strip_comment t) = t"
    using t by (auto simp: plain_line_def strip_neutral intro!: rtrim_id)
  ultimately show ?thesis
    using t c by (simp add: scan_line_def line_text_def plain_line_def is_blank_def)
qed

lemma split_lines_plain:
  "\<forall>(i, t) \<in> set sh. plain_line t \<Longrightarrow>
     \<exists>ls. split_lines_loop n (map line_text sh) = (ls, None) \<and> shape ls = sh"
proof (induction sh arbitrary: n)
  case (Cons it sh)
  obtain i t where it: "it = (i, t)" by fastforce
  obtain ls where "split_lines_loop (n + 1) (map line_text sh) = (ls, None)" "shape ls = sh"
    using Cons by fastforce
  then show ?case using Cons.prems it scan_plain [of t "n + 1" i] by (simp add: shape_def)
qed (simp add: shape_def)

lemma split_all_join:
  "ls \<noteq> [] \<Longrightarrow> \<forall>l \<in> set ls. c \<notin> set l \<Longrightarrow> split_all c (join [c] ls) = ls"
  by (induction "[c]" ls rule: join.induct) (auto simp: split_all_absent split_all_append)


lemma plain_sq_text:
  assumes "CHR 0x0A \<notin> set k" "CHR 0x0A \<notin> set u" "neutral u" "u \<noteq> []" "last u \<notin> {CHR '' '', CHR 0x09, CHR 0x0D}"
  shows "plain_line (sq_text k @ u)"
proof -
  have "CHR 0x0A \<notin> set (sq_text k)" using assms(1) by (auto simp: sq_text_def sq_body_def split: if_splits)
  moreover have "hd (sq_text k @ u) = squote" by (simp add: sq_text_def)
  moreover have "sq_text k @ u \<noteq> ''---''" "sq_text k @ u \<noteq> ''...''" by (auto simp: sq_text_def)
  moreover have "neutral (sq_text k @ u)" using assms(3) by (intro neutral_append) simp_all
  ultimately show ?thesis using assms by (simp add: plain_line_def is_blank_def)
qed

lemma plain_item: "neutral t \<Longrightarrow> CHR 0x0A \<notin> set t \<Longrightarrow> t \<noteq> [] \<Longrightarrow>
  last t \<notin> {CHR '' '', CHR 0x09, CHR 0x0D} \<Longrightarrow> plain_line (''- '' @ t)"
  by (auto simp: plain_line_def is_blank_def intro!: neutral_char)

lemma plain_dash: "plain_line ''-''"
  by (auto simp: plain_line_def is_blank_def intro!: neutral_char)

lemma compact_plain:
  "\<forall>(i, t) \<in> set sh. plain_line t \<Longrightarrow> \<forall>(i, t) \<in> set (compact j sh). plain_line t"
  by (cases sh) (auto simp: plain_line_def is_blank_def intro!: neutral_char)

lemma block_lines_plain: "doc_ok v \<Longrightarrow> \<forall>(j, t) \<in> set (block_lines d i v). plain_line t"
proof (induction d arbitrary: i v rule: less_induct)
  case (less d)
  have flow: "last (flow_text w) \<notin> {CHR '' '', CHR 0x09, CHR 0x0D}" "flow_text w \<noteq> []" for w
    using flow_text_ends [of w] by auto
  have nest: "\<forall>(j, t) \<in> set (block_lines (d - 1) (i + 2) w). plain_line t" if "doc_ok w" "d \<noteq> 0" for w
    using less.IH [of "d - 1" w "i + 2"] that by simp
  have field: "\<forall>(j, t) \<in> set (field_lines d i (k, w)). plain_line t" if "doc_ok w" "CHR 0x0A \<notin> set k" for k w
  proof -
    have "plain_line (sq_text k @ '': '' @ flow_text w)" "plain_line (sq_text k @ '':'')"
      using that flow [of w] newline_free_flow_text [of w]
      by (intro plain_sq_text; auto intro!: neutral_char)+
    then show ?thesis using nest [OF that(1)] by (auto simp: field_lines.simps)
  qed
  have item: "\<forall>(j, t) \<in> set (item_lines d i w). plain_line t" if "doc_ok w" for w
  proof -
    have "plain_line (''- '' @ flow_text w)"
      using that flow [of w] newline_free_flow_text [of w] by (intro plain_item) auto
    then show ?thesis
      using nest [OF that] compact_plain [of "block_lines (d - 1) (i + 2) w" i] plain_dash
      unfolding item_lines.simps by (simp split: Node.split)
  qed
  show ?case
  proof (cases v)
    case (MapNode fs l)
    have "\<forall>(j, t) \<in> set (field_lines d i kw). plain_line t" if "kw \<in> set fs" for kw
      using field [of "snd kw" "fst kw"] less.prems that doc_ok_field [of fs l "fst kw" "snd kw"] by (simp add: MapNode)
    then show ?thesis by (auto simp: MapNode)
  next
    case (SeqNode ns l)
    have "\<forall>(j, t) \<in> set (item_lines d i w). plain_line t" if "w \<in> set ns" for w
      using item [of w] less.prems that by (auto simp: SeqNode list_all_iff)
    then show ?thesis by (auto simp: SeqNode)
  qed simp_all
qed

text \<open>
  C13: the YAML reader reads back every document the subset can express: a tree of mappings,
  sequences, strings and nulls, printed in block style down to any depth (with the compact form of
  mappings in sequences) and in flow style below, parses without error to the same tree. Strings are
  any text without line breaks, quotes and comment signs included; keys are not empty.
\<close>

theorem yaml_round_trip:
  assumes "doc_ok v" "\<not> in_flow v"
  shows "\<exists>res. yaml_parse (print_doc d v) = Some res \<and> pr_ok res \<and> erase (pr_root res) = erase v"
proof -
  define sh where "sh = block_lines d 0 v"
  have plain: "\<forall>(i, t) \<in> set sh. plain_line t" unfolding sh_def by (rule block_lines_plain [OF assms(1)])
  obtain t sh' where head: "sh = (0, t) # sh'" using block_lines_head [OF assms(2), of d 0] by (auto simp: sh_def)
  obtain ls where ls: "split_lines_loop 0 (map line_text sh) = (ls, None)" "shape ls = sh"
    using split_lines_plain [OF plain] by blast
  have "split_lines (print_doc d v) = (ls, None)"
    using ls(1) head plain unfolding split_lines_def print_doc_def sh_def [symmetric]
    by (subst split_all_join) (auto simp: line_text_def plain_line_def)
  moreover have l0: "ls \<noteq> []" "ln_indent (hd ls) = 0" using ls(2) head by (auto simp: shape_def)
  have "lower 0 []" by (simp add: lower_def)
  with nested_ok [of d] assms ls(2) obtain nd where "blocks Block 0 (ls @ []) [] nd" and same: "erase nd = erase v"
    unfolding nested_ok_def sh_def by blast
  then obtain n where nd: "block n Block 0 ls None = Some (nd, [], None)" by (auto simp: blocks_def)
  define N where "N = 3 * length ls + 3"
  have "block_need Block ls \<le> N" by (simp add: block_need_def N_def)
  then obtain r where r: "block N Block 0 ls None = Some r"
    using block_total_block [of N] unfolding block_total_def ends_def by blast
  have "r = (nd, [], None)"
    using block_mono [OF r, of "max n N"] block_mono [OF nd, of "max n N"] by simp
  ultimately show ?thesis
    using r l0 same by (simp add: yaml_parse_def run_def N_def pr_ok_def)
qed

definition sample_doc :: Node where
  "sample_doc = MapNode [(''it: is # key'', SeqNode [MapNode [(''a'', ScalarNode ''x'' 0), (''b'', NullNode 0)] 0,
       SeqNode [ScalarNode ''1'' 0, MapNode [] 0] 0] 0)] 0"

theorem yaml_round_trip_witness:
  "doc_ok sample_doc \<and> \<not> in_flow sample_doc \<and>
   (\<exists>res. yaml_parse (print_doc 2 sample_doc) = Some res \<and> pr_ok res \<and> erase (pr_root res) = erase sample_doc)"
proof -
  have "doc_ok sample_doc" "\<not> in_flow sample_doc" by (simp_all add: sample_doc_def in_flow_def)
  then show ?thesis using yaml_round_trip [of sample_doc 2] by blast
qed


end
