(* ===== verification/Yaml_Values.thy ===== *)
theory Yaml_Values
  imports Yaml_Parser Float64
begin

text \<open>
  The typed accessors of a YAML node (\<^verbatim>\<open>Node::as_int\<close> to \<^verbatim>\<open>Node::as_permille\<close> in \<^verbatim>\<open>src/yaml.cpp\<close>) with the
  C library conversions they call: \<^verbatim>\<open>strtol\<close>/\<^verbatim>\<open>strtoll\<close> (saturating, C17 syntax) and \<^verbatim>\<open>strtod\<close> (correctly
  rounded, "C" locale). A conversion returns \<^const>\<open>None\<close> when no character is consumed, else the value and
  the text left.
\<close>

section \<open>The C library\<close>

definition c_str :: "string \<Rightarrow> string" where
  "c_str s = takeWhile (\<lambda>c. c \<noteq> CHR 0x00) s"

definition c_isspace :: "char \<Rightarrow> bool" where
  "c_isspace c \<longleftrightarrow> c = CHR '' '' \<or> (9 \<le> (of_char c :: nat) \<and> (of_char c :: nat) \<le> 13)"

text \<open>The value of a character as a digit of base up to 16, and 16 for other characters.\<close>

definition base_digit :: "char \<Rightarrow> nat" where
  "base_digit c =
     (let n = of_char c :: nat in
      if 48 \<le> n \<and> n \<le> 57 then n - 48
      else if 65 \<le> n \<and> n \<le> 70 then n - 55
      else if 97 \<le> n \<and> n \<le> 102 then n - 87
      else 16)"

definition base_val :: "nat \<Rightarrow> string \<Rightarrow> nat" where
  "base_val b s = foldl (\<lambda>v c. v * b + base_digit c) 0 s"

definition take_sign :: "string \<Rightarrow> bool \<times> string" where
  "take_sign s =
     (if s \<noteq> [] \<and> hd s = CHR ''-'' then (True, tl s)
      else if s \<noteq> [] \<and> hd s = CHR ''+'' then (False, tl s) else (False, s))"

definition is_hex_prefix :: "string \<Rightarrow> bool" where
  "is_hex_prefix s \<longleftrightarrow> length s \<ge> 2 \<and> s ! 0 = CHR ''0'' \<and> (s ! 1 = CHR ''x'' \<or> s ! 1 = CHR ''X'')"

definition saturate_ll :: "int \<Rightarrow> int" where
  "saturate_ll v = (if v > 2 ^ 63 - 1 then 2 ^ 63 - 1 else if v < - (2 ^ 63) then - (2 ^ 63) else v)"

definition strto_digits :: "nat \<Rightarrow> bool \<Rightarrow> string \<Rightarrow> (int \<times> string) option" where
  "strto_digits b neg s =
     (let ds = takeWhile (\<lambda>c. base_digit c < b) s; v = int (base_val b ds) in
      if ds = [] then None
      else Some (saturate_ll (if neg then - v else v), dropWhile (\<lambda>c. base_digit c < b) s))"

definition strtol10 :: "string \<Rightarrow> (int \<times> string) option" where
  "strtol10 s = (let (neg, s) = take_sign (dropWhile c_isspace s) in strto_digits 10 neg s)"

definition strtoll0 :: "string \<Rightarrow> (int \<times> string) option" where
  "strtoll0 s =
     (let (neg, s) = take_sign (dropWhile c_isspace s) in
      if is_hex_prefix s \<and> drop 2 s \<noteq> [] \<and> base_digit (hd (drop 2 s)) < 16 then strto_digits 16 neg (drop 2 s)
      else if s \<noteq> [] \<and> hd s = CHR ''0'' then strto_digits 8 neg s
      else strto_digits 10 neg s)"

text \<open>Doubles: \<^verbatim>\<open>NotFinite\<close> stands for the infinities and the NaNs.\<close>

datatype cdouble = Finite rat | NotFinite

definition to_double :: "rat \<Rightarrow> cdouble" where
  "to_double x = (let r = rnd64 x in if \<bar>r\<bar> \<ge> 2 ^ 1024 then NotFinite else Finite r)"

definition lower_string :: "string \<Rightarrow> string" where "lower_string s = map to_lower_char s"

text \<open>An exponent part (\<^verbatim>\<open>e\<close> or \<^verbatim>\<open>p\<close>): consumed only when it has a digit.\<close>

definition take_exponent :: "char \<Rightarrow> string \<Rightarrow> int \<times> string" where
  "take_exponent mark s =
     (if s \<noteq> [] \<and> to_lower_char (hd s) = mark then
        (let (neg, t) = take_sign (tl s); ds = takeWhile is_digit t in
         if ds = [] then (0, s)
         else (if neg then - int (digits_val ds) else int (digits_val ds), dropWhile is_digit t))
      else (0, s))"

text \<open>Digits with an optional point: the digits, how many follow the point, and the rest.\<close>

definition take_mantissa :: "nat \<Rightarrow> string \<Rightarrow> string \<times> nat \<times> string" where
  "take_mantissa b s =
     (let P = (\<lambda>c. base_digit c < b); ip = takeWhile P s; s1 = dropWhile P s in
      if s1 \<noteq> [] \<and> hd s1 = CHR ''.'' then
        (let fp = takeWhile P (tl s1) in (ip @ fp, length fp, dropWhile P (tl s1)))
      else (ip, 0, s1))"

definition strtod_hex :: "string \<Rightarrow> (rat \<times> string) option" where
  "strtod_hex s =
     (let (ds, k, s1) = take_mantissa 16 s in
      if ds = [] then None
      else let (e, s2) = take_exponent (CHR ''p'') s1
           in Some (of_nat (base_val 16 ds) / 16 ^ k * 2 powi e, s2))"

definition strtod_dec :: "string \<Rightarrow> (rat \<times> string) option" where
  "strtod_dec s =
     (let (ds, k, s1) = take_mantissa 10 s in
      if ds = [] then None
      else let (e, s2) = take_exponent (CHR ''e'') s1
           in Some (of_nat (base_val 10 ds) / 10 ^ k * 10 powi e, s2))"

definition is_nan_char :: "char \<Rightarrow> bool" where
  "is_nan_char c \<longleftrightarrow> is_digit c \<or> c = CHR ''_'' \<or>
     (97 \<le> (of_char (to_lower_char c) :: nat) \<and> (of_char (to_lower_char c) :: nat) \<le> 122)"

definition strtod :: "string \<Rightarrow> (cdouble \<times> string) option" where
  "strtod s0 =
     (let (neg, s) = take_sign (dropWhile c_isspace s0);
          value = (\<lambda>(x, rest). (to_double (if neg then - x else x), rest)) in
      if lower_string (take 8 s) = ''infinity'' then Some (NotFinite, drop 8 s)
      else if lower_string (take 3 s) = ''inf'' then Some (NotFinite, drop 3 s)
      else if lower_string (take 3 s) = ''nan'' then
        (let s1 = drop 3 s; t = dropWhile is_nan_char (tl s1) in
         Some (NotFinite, if s1 \<noteq> [] \<and> hd s1 = CHR ''('' \<and> t \<noteq> [] \<and> hd t = CHR '')'' then tl t else s1))
      else case (if is_hex_prefix s then strtod_hex (drop 2 s) else None) of
        Some r \<Rightarrow> Some (value r)
      | None \<Rightarrow> map_option value (strtod_dec s))"

section \<open>Accessors\<close>

definition iequals :: "string \<Rightarrow> string \<Rightarrow> bool" where
  "iequals a b \<longleftrightarrow> length a = length b \<and> list_all2 (\<lambda>x y. to_lower_char x = to_lower_char y) a b"

definition despace :: "string \<Rightarrow> string" where
  "despace s = filter (\<lambda>c. c \<noteq> CHR ''_'' \<and> c \<noteq> CHR '' '') s"

text \<open>The value and the suf; a value that is not finite is no number.\<close>

definition parse_number :: "string \<Rightarrow> (rat \<times> string) option" where
  "parse_number s =
     (case strtod (c_str (despace s)) of
        Some (Finite v, suf) \<Rightarrow> Some (v, suf)
      | _ \<Rightarrow> None)"

definition as_int :: "Node \<Rightarrow> int option" where
  "as_int n =
     (if \<not> is_scalar n then None
      else case strtoll0 (c_str (despace (node_scalar n))) of
        Some (v, []) \<Rightarrow> Some v
      | _ \<Rightarrow> None)"

definition as_uint :: "Node \<Rightarrow> u64 option" where
  "as_uint n = (case as_int n of Some v \<Rightarrow> if v < 0 then None else Some (word_of_int v) | None \<Rightarrow> None)"

definition as_double :: "Node \<Rightarrow> rat option" where
  "as_double n =
     (if \<not> is_scalar n then None
      else case parse_number (node_scalar n) of Some (v, []) \<Rightarrow> Some v | _ \<Rightarrow> None)"

definition as_bool :: "Node \<Rightarrow> bool option" where
  "as_bool n =
     (if \<not> is_scalar n then None
      else let s = node_scalar n in
        if iequals s ''true'' \<or> iequals s ''yes'' \<or> iequals s ''on'' \<or> s = ''1'' then Some True
        else if iequals s ''false'' \<or> iequals s ''no'' \<or> iequals s ''off'' \<or> s = ''0'' then Some False
        else None)"

text \<open>Conversion of a non-negative double to an unsigned integer type truncates.\<close>

definition trunc_u64 :: "rat \<Rightarrow> u64" where "trunc_u64 x = word_of_int \<lfloor>x\<rfloor>"
definition trunc_u32 :: "rat \<Rightarrow> u32" where "trunc_u32 x = word_of_int \<lfloor>x\<rfloor>"

definition byte_mult :: "string \<Rightarrow> rat option" where
  "byte_mult suf =
     (if suf = [] \<or> iequals suf ''B'' then Some 1
      else if iequals suf ''KB'' then Some (10 ^ 3)
      else if iequals suf ''MB'' then Some (10 ^ 6)
      else if iequals suf ''GB'' then Some (10 ^ 9)
      else if iequals suf ''TB'' then Some (10 ^ 12)
      else if iequals suf ''KiB'' then Some 1024
      else if iequals suf ''MiB'' then Some (1024 * 1024)
      else if iequals suf ''GiB'' then Some (1024 * 1024 * 1024)
      else if iequals suf ''TiB'' then Some (1024 * 1024 * 1024 * 1024)
      else None)"

definition as_bytes :: "Node \<Rightarrow> u64 option" where
  "as_bytes n =
     (if \<not> is_scalar n then None
      else case parse_number (node_scalar n) of
        None \<Rightarrow> None
      | Some (v, suf) \<Rightarrow>
          if v < 0 then None
          else (case byte_mult suf of
            None \<Rightarrow> None
          | Some mult \<Rightarrow>
              (let bytes = rnd64 (v * mult) in
               if bytes > 18 * 10 ^ 18 then None else Some (trunc_u64 bytes))))"

definition scale_kbps :: "rat \<Rightarrow> string \<Rightarrow> rat option" where
  "scale_kbps v suf =
     (if suf = [] \<or> iequals suf ''kbps'' \<or> iequals suf ''kb/s'' then Some v
      else if iequals suf ''bps'' then Some (rnd64 (v / 1000))
      else if iequals suf ''Mbps'' \<or> iequals suf ''Mb/s'' then Some (rnd64 (v * 1000))
      else if iequals suf ''Gbps'' \<or> iequals suf ''Gb/s'' then Some (rnd64 (v * 10 ^ 6))
      else None)"

definition as_kbps :: "Node \<Rightarrow> u32 option" where
  "as_kbps n =
     (if \<not> is_scalar n then None
      else case parse_number (node_scalar n) of
        None \<Rightarrow> None
      | Some (v, suf) \<Rightarrow>
          if v < 0 then None
          else (case scale_kbps v suf of
            None \<Rightarrow> None
          | Some kbps \<Rightarrow> if kbps > 429 * 10 ^ 7 then None else Some (trunc_u32 kbps)))"

definition scale_seconds :: "rat \<Rightarrow> string \<Rightarrow> rat option" where
  "scale_seconds v suf =
     (if suf = [] \<or> suf = ''s'' \<or> iequals suf ''sec'' then Some v
      else if suf = ''m'' \<or> iequals suf ''min'' then Some (rnd64 (v * 60))
      else if suf = ''h'' \<or> iequals suf ''hr'' then Some (rnd64 (v * 3600))
      else if suf = ''d'' \<or> iequals suf ''day'' then Some (rnd64 (v * 86400))
      else None)"

definition as_seconds :: "Node \<Rightarrow> u32 option" where
  "as_seconds n =
     (if \<not> is_scalar n then None
      else case parse_number (node_scalar n) of
        None \<Rightarrow> None
      | Some (v, suf) \<Rightarrow>
          if v < 0 then None
          else (case scale_seconds v suf of
            None \<Rightarrow> None
          | Some secs \<Rightarrow> if secs > 429 * 10 ^ 7 then None else Some (trunc_u32 secs)))"

definition strtol_or_zero :: "string \<Rightarrow> int" where
  "strtol_or_zero s = (case strtol10 (c_str s) of None \<Rightarrow> 0 | Some (v, _) \<Rightarrow> v)"

definition minute_of_day :: "int \<Rightarrow> int \<Rightarrow> u16 option" where
  "minute_of_day h m =
     (if h < 0 \<or> h > 23 \<or> m < 0 \<or> m > 59 then None else Some (word_of_int (h * 60 + m)))"

definition as_time_of_day :: "Node \<Rightarrow> u16 option" where
  "as_time_of_day n =
     (if \<not> is_scalar n then None
      else case split_at_char (CHR '':'') (node_scalar n) of
        (_, None) \<Rightarrow> None
      | (before, Some after) \<Rightarrow>
          minute_of_day (strtol_or_zero before) (strtol_or_zero after))"

definition scale_permille :: "rat \<Rightarrow> string \<Rightarrow> rat option" where
  "scale_permille v suf =
     (if suf = ''%'' then Some (rnd64 (v * 10))
      else if suf = [] \<and> v \<le> 1 then Some (rnd64 (v * 1000))
      else if suf = [] then Some (rnd64 (v * 10))
      else None)"

definition as_permille :: "Node \<Rightarrow> u32 option" where
  "as_permille n =
     (if \<not> is_scalar n then None
      else case parse_number (node_scalar n) of
        None \<Rightarrow> None
      | Some (v, suf) \<Rightarrow>
          if v < 0 then None
          else (case scale_permille v suf of
            None \<Rightarrow> None
          | Some permille \<Rightarrow>
              if permille > 100000 then None else Some (trunc_u32 (rnd64 (permille + 1 / 2)))))"

section \<open>Whole numbers\<close>

text \<open>A suffix that does not continue the number before it.\<close>

definition unit_suffix :: "string \<Rightarrow> bool" where
  "unit_suffix suf \<longleftrightarrow> (\<forall>c \<in> set suf. c \<notin> {CHR ''_'', CHR '' '', CHR 0x00}) \<and>
     (suf = [] \<or> (\<not> is_digit (hd suf) \<and> hd suf \<notin> {CHR ''.'', CHR ''e'', CHR ''E'', CHR ''x'', CHR ''X''}))"

lemma base_digit_digit: "is_digit c \<Longrightarrow> base_digit c = digit_val c"
  by (auto simp: is_digit_def base_digit_def digit_val_def)

lemma base_digit_less_10: "base_digit c < 10 \<longleftrightarrow> is_digit c"
  by (auto simp: is_digit_def base_digit_def Let_def)

lemma base_val_digits: "(\<And>c. c \<in> set ds \<Longrightarrow> is_digit c) \<Longrightarrow> base_val 10 ds = digits_val ds"
  by (induction ds rule: rev_induct) (auto simp: base_val_def digits_val_def base_digit_digit)

lemma takeWhile_digits:
  "(\<And>c. c \<in> set ds \<Longrightarrow> is_digit c) \<Longrightarrow> suf = [] \<or> \<not> is_digit (hd suf) \<Longrightarrow>
     takeWhile is_digit (ds @ suf) = ds \<and> dropWhile is_digit (ds @ suf) = suf"
  by (cases suf) (auto simp: takeWhile_append2 dropWhile_append2)

lemma take_mantissa_digits:
  assumes "\<And>c. c \<in> set ds \<Longrightarrow> is_digit c" "unit_suffix suf"
  shows "take_mantissa 10 (ds @ suf) = (ds, 0, suf)"
proof -
  have "suf = [] \<or> \<not> is_digit (hd suf)" "suf = [] \<or> hd suf \<noteq> CHR ''.''"
    using assms(2) by (auto simp: unit_suffix_def)
  moreover from this have "takeWhile is_digit (ds @ suf) = ds" "dropWhile is_digit (ds @ suf) = suf"
    using takeWhile_digits [of ds suf] assms(1) by blast+
  ultimately show ?thesis unfolding take_mantissa_def base_digit_less_10 Let_def by auto
qed

lemma to_lower_char_eq_e: "to_lower_char c = CHR ''e'' \<Longrightarrow> c = CHR ''e'' \<or> c = CHR ''E''"
proof -
  assume a: "to_lower_char c = CHR ''e''"
  show ?thesis
  proof (cases "65 \<le> (of_char c :: nat) \<and> (of_char c :: nat) \<le> 90")
    case True
    then have "char_of ((of_char c :: nat) + 32) = CHR ''e''" using a by (simp add: to_lower_char_def)
    then have "of_char (char_of ((of_char c :: nat) + 32)) = (of_char (CHR ''e'') :: nat)" by simp
    then have "(of_char c :: nat) = of_char (CHR ''E'')" using True by simp
    then show ?thesis by (simp only: of_char_eq_iff simp_thms)
  qed (use a in \<open>auto simp: to_lower_char_def\<close>)
qed

lemma take_exponent_suffix: "unit_suffix suf \<Longrightarrow> take_exponent (CHR ''e'') suf = (0, suf)"
  by (auto simp: take_exponent_def unit_suffix_def dest!: to_lower_char_eq_e)

lemma strtod_digits:
  assumes "ds \<noteq> []" "\<And>c. c \<in> set ds \<Longrightarrow> is_digit c" "unit_suffix suf"
  shows "strtod (ds @ suf) = Some (to_double (of_nat (digits_val ds)), suf)"
proof -
  obtain d ds' where ds: "ds = d # ds'" using assms(1) by (cases ds) auto
  then have d: "is_digit d" using assms(2) by simp
  then have 1: "\<not> c_isspace d" "d \<noteq> CHR ''-''" "d \<noteq> CHR ''+''" "to_lower_char d = d"
    "d \<noteq> CHR ''i''" "d \<noteq> CHR ''n''"
    by (auto simp: is_digit_def c_isspace_def to_lower_char_def)
  have 2: "\<not> is_hex_prefix (d # ds' @ suf)"
  proof (cases ds')
    case Nil
    then show ?thesis using assms(3) by (cases suf) (auto simp: is_hex_prefix_def unit_suffix_def)
  next
    case (Cons e es)
    then have "is_digit e" using assms(2) ds by simp
    then have "e \<noteq> CHR ''x''" "e \<noteq> CHR ''X''" by (auto simp: is_digit_def)
    then show ?thesis by (simp add: is_hex_prefix_def Cons)
  qed
  have 3: "strtod_dec (d # ds' @ suf) = Some (of_nat (digits_val ds), suf)"
    using take_mantissa_digits [of ds suf, OF assms(2,3)] take_exponent_suffix [OF assms(3)]
      base_val_digits [of ds, OF assms(2)] by (simp add: strtod_dec_def ds)
  show ?thesis
    using 1 2 3 by (simp add: strtod_def ds take_sign_def lower_string_def)
qed

lemma to_double_of_nat: "n \<le> 2 ^ 53 \<Longrightarrow> to_double (of_nat n) = Finite (of_nat n)"
proof -
  assume n: "n \<le> 2 ^ 53"
  have "(of_nat n :: rat) \<le> of_nat (2 ^ 53)" using n by (simp only: of_nat_le_iff)
  also have "\<dots> < 2 ^ 1024" by simp
  finally show ?thesis using rnd64_of_nat [OF n] by (simp add: to_double_def)
qed

lemma despace_unit: "unit_suffix suf \<Longrightarrow> c_str (despace (dec_of_nat n @ suf)) = dec_of_nat n @ suf"
proof -
  assume suf: "unit_suffix suf"
  have "\<not> is_digit (CHR ''_'')" "\<not> is_digit (CHR '' '')" "\<not> is_digit (CHR 0x00)" by (simp_all add: is_digit_def)
  then have ok: "c \<notin> {CHR ''_'', CHR '' '', CHR 0x00}" if "c \<in> set (dec_of_nat n @ suf)" for c
    using that suf dec_of_nat_digits [of c n] unfolding unit_suffix_def by (metis Un_iff empty_iff insert_iff set_append)
  have "despace (dec_of_nat n @ suf) = dec_of_nat n @ suf"
    unfolding despace_def by (rule filter_True) (use ok in blast)
  moreover have "c_str (dec_of_nat n @ suf) = dec_of_nat n @ suf"
    unfolding c_str_def takeWhile_eq_all_conv using ok by blast
  ultimately show ?thesis by simp
qed

lemma parse_number_nat:
  assumes "unit_suffix suf" "n \<le> 2 ^ 53"
  shows "parse_number (dec_of_nat n @ suf) = Some (of_nat n, suf)"
  using strtod_digits [OF dec_of_nat_nonempty dec_of_nat_digits assms(1), of n] despace_unit [OF assms(1), of n]
    to_double_of_nat [OF assms(2)] by (simp add: parse_number_def)

section \<open>Units\<close>

definition byte_units :: "(string \<times> nat) list" where
  "byte_units = [([], 1), (''B'', 1), (''KB'', 10 ^ 3), (''MB'', 10 ^ 6), (''GB'', 10 ^ 9), (''TB'', 10 ^ 12),
     (''KiB'', 2 ^ 10), (''MiB'', 2 ^ 20), (''GiB'', 2 ^ 30), (''TiB'', 2 ^ 40), (''gb'', 10 ^ 9), (''gib'', 2 ^ 30)]"

definition rate_units :: "(string \<times> nat) list" where
  "rate_units = [([], 1), (''kbps'', 1), (''kb/s'', 1), (''Mbps'', 10 ^ 3), (''Mb/s'', 10 ^ 3), (''Gbps'', 10 ^ 6), (''Gb/s'', 10 ^ 6)]"

definition time_units :: "(string \<times> nat) list" where
  "time_units = [([], 1), (''s'', 1), (''sec'', 1), (''m'', 60), (''min'', 60), (''h'', 3600), (''hr'', 3600),
     (''d'', 86400), (''day'', 86400)]"

lemma rnd64_product: "n * k \<le> 2 ^ 53 \<Longrightarrow> rnd64 (of_nat n * of_nat k) = of_nat (n * k)"
  using rnd64_of_nat [of "n * k"] by simp

lemma factor_le: "n * k \<le> m \<Longrightarrow> 0 < k \<Longrightarrow> n \<le> m" for n k m :: nat
  by (metis le_trans mult_le_mono2 Suc_leI One_nat_def mult.right_neutral)

lemma unit_suffixes:
  "\<forall>(u, k) \<in> set (byte_units @ rate_units @ time_units @ [(''%'', 10)]). unit_suffix u \<and> 0 < k"
  by (simp add: byte_units_def rate_units_def time_units_def unit_suffix_def is_digit_def)

lemma to_lower_letters:
  "to_lower_char (CHR ''K'') = CHR ''k''" "to_lower_char (CHR ''M'') = CHR ''m''"
  "to_lower_char (CHR ''G'') = CHR ''g''" "to_lower_char (CHR ''T'') = CHR ''t''"
  "to_lower_char (CHR ''B'') = CHR ''b''" "to_lower_char (CHR ''k'') = CHR ''k''"
  "to_lower_char (CHR ''m'') = CHR ''m''" "to_lower_char (CHR ''g'') = CHR ''g''"
  "to_lower_char (CHR ''t'') = CHR ''t''" "to_lower_char (CHR ''b'') = CHR ''b''"
  "to_lower_char (CHR ''i'') = CHR ''i''" "to_lower_char (CHR ''p'') = CHR ''p''"
  "to_lower_char (CHR ''s'') = CHR ''s''" "to_lower_char (CHR ''e'') = CHR ''e''"
  "to_lower_char (CHR ''c'') = CHR ''c''" "to_lower_char (CHR ''h'') = CHR ''h''"
  "to_lower_char (CHR ''r'') = CHR ''r''" "to_lower_char (CHR ''d'') = CHR ''d''"
  "to_lower_char (CHR ''a'') = CHR ''a''" "to_lower_char (CHR ''n'') = CHR ''n''"
  "to_lower_char (CHR ''y'') = CHR ''y''" "to_lower_char (CHR ''/'') = CHR ''/''"
  by code_simp+

lemma byte_mult_units: "\<forall>(u, k) \<in> set byte_units. byte_mult u = Some (of_nat k)"
  by (simp add: byte_units_def byte_mult_def iequals_def to_lower_letters)

lemma as_bytes_unit:
  assumes "(u, k) \<in> set byte_units" "n * k \<le> 2 ^ 53"
  shows "as_bytes (ScalarNode (dec_of_nat n @ u) l) = Some (of_nat (n * k))"
proof -
  have u: "unit_suffix u" "0 < k" "byte_mult u = Some (of_nat k)"
    using unit_suffixes byte_mult_units assms(1) by auto
  have "(of_nat (n * k) :: rat) \<le> of_nat (2 ^ 53)" using assms(2) by (simp only: of_nat_le_iff)
  also have "\<dots> \<le> 18 * 10 ^ 18" by simp
  finally have "\<not> rnd64 (of_nat n * of_nat k) > 18 * 10 ^ 18"
    unfolding rnd64_product [OF assms(2)] by simp
  then show ?thesis
    using parse_number_nat [OF u(1) factor_le [OF assms(2) u(2)]] u(3) rnd64_product [OF assms(2)]
    by (simp add: as_bytes_def is_scalar_def node_scalar_def trunc_u64_def Let_def del: of_nat_mult)
qed

lemma check_u32:
  assumes "n * k \<le> 429 * 10 ^ 7" "c = of_nat n * of_nat k \<or> c = rnd64 (of_nat n * of_nat k)"
  shows "\<not> c > 429 * 10 ^ 7" "trunc_u32 c = of_nat (n * k)"
proof -
  have "n * k \<le> 2 ^ 53" using assms(1) by simp
  then have c: "c = of_nat (n * k)" using rnd64_product assms(2) by auto
  have "(of_nat (n * k) :: rat) \<le> of_nat (429 * 10 ^ 7)" using assms(1) by (simp only: of_nat_le_iff)
  then show "\<not> c > 429 * 10 ^ 7" unfolding c by simp
  show "trunc_u32 c = of_nat (n * k)" unfolding c trunc_u32_def by (simp del: of_nat_mult)
qed

lemma scale_units:
  "\<forall>(u, k) \<in> set rate_units. scale_kbps v u = Some (if k = 1 then v else rnd64 (v * of_nat k))"
  "\<forall>(u, k) \<in> set time_units. scale_seconds v u = Some (if k = 1 then v else rnd64 (v * of_nat k))"
  by (simp_all add: rate_units_def time_units_def scale_kbps_def scale_seconds_def iequals_def to_lower_letters)

lemma as_kbps_unit:
  assumes "(u, k) \<in> set rate_units" "n * k \<le> 429 * 10 ^ 7"
  shows "as_kbps (ScalarNode (dec_of_nat n @ u) l) = Some (of_nat (n * k))"
proof -
  have u: "unit_suffix u" "0 < k" using unit_suffixes assms(1) by auto
  have "n \<le> 2 ^ 53" using factor_le [OF assms(2) u(2)] by simp
  then have p: "parse_number (dec_of_nat n @ u) = Some (of_nat n, u)" using parse_number_nat u(1) by blast
  obtain c where c: "scale_kbps (of_nat n) u = Some c" "c = of_nat n * of_nat k \<or> c = rnd64 (of_nat n * of_nat k)"
    using scale_units(1) [of "of_nat n"] assms(1) by fastforce
  show ?thesis
    using p c(1) check_u32 [OF assms(2) c(2)]
    by (simp add: as_kbps_def is_scalar_def node_scalar_def del: of_nat_mult)
qed

lemma as_seconds_unit:
  assumes "(u, k) \<in> set time_units" "n * k \<le> 429 * 10 ^ 7"
  shows "as_seconds (ScalarNode (dec_of_nat n @ u) l) = Some (of_nat (n * k))"
proof -
  have u: "unit_suffix u" "0 < k" using unit_suffixes assms(1) by auto
  have "n \<le> 2 ^ 53" using factor_le [OF assms(2) u(2)] by simp
  then have p: "parse_number (dec_of_nat n @ u) = Some (of_nat n, u)" using parse_number_nat u(1) by blast
  obtain c where c: "scale_seconds (of_nat n) u = Some c" "c = of_nat n * of_nat k \<or> c = rnd64 (of_nat n * of_nat k)"
    using scale_units(2) [of "of_nat n"] assms(1) by fastforce
  show ?thesis
    using p c(1) check_u32 [OF assms(2) c(2)]
    by (simp add: as_seconds_def is_scalar_def node_scalar_def del: of_nat_mult)
qed

lemma rnd64_half:
  assumes "0 < m" "m \<le> 2 ^ 53"
  shows "rnd64 (of_nat m / 2) = of_nat m / 2"
proof -
  have "(2 :: rat) powi (- 1022) \<le> 2 powi (- 1)" by (simp only: powi_le_iff)
  also have "\<dots> \<le> of_nat m / 2" using assms(1) by simp
  finally have "rnd64 (2 powi 1 * (of_nat m / 2)) = 2 powi 1 * rnd64 (of_nat m / 2)"
    by (rule rnd64_scale) simp
  then show ?thesis using rnd64_of_nat [OF assms(2)] by simp
qed

lemma as_permille_percent:
  assumes "n \<le> 10000"
  shows "as_permille (ScalarNode (dec_of_nat n @ ''%'') l) = Some (of_nat (10 * n))"
proof -
  have p: "parse_number (dec_of_nat n @ ''%'') = Some (of_nat n, ''%'')"
    using parse_number_nat [of "''%''" n] unit_suffixes assms by simp
  have v: "rnd64 (of_nat n * 10) = of_nat (10 * n)" using rnd64_product [of n 10] assms by simp
  have h: "(of_nat (20 * n + 1) :: rat) / 2 = of_nat (10 * n) + 1 / 2" by (simp add: add_divide_distrib)
  have r: "rnd64 (of_nat (10 * n) + 1 / 2) = of_nat (10 * n) + 1 / 2"
    using rnd64_half [of "20 * n + 1"] assms unfolding h by simp
  have "(of_nat (10 * n) :: rat) \<le> of_nat 100000" using assms by (simp only: of_nat_le_iff)
  moreover have "\<lfloor>(of_nat (10 * n) :: rat) + 1 / 2\<rfloor> = int (10 * n)" by linarith
  ultimately show ?thesis
    using p v r by (simp add: as_permille_def scale_permille_def is_scalar_def node_scalar_def trunc_u32_def del: of_nat_mult)
qed


lemma dec_20: "dec_of_nat 20 = ''20''" "dec_of_nat 30 = ''30''" "dec_of_nat 80 = ''80''"
  by code_simp+


section \<open>Times of day\<close>

definition pad2 :: "nat \<Rightarrow> string" where
  "pad2 n = [digit_char (n div 10), digit_char (n mod 10)]"

lemma strtol_pad2:
  assumes "n < 100"
  shows "strtol_or_zero (pad2 n) = int n"
proof -
  have d: "n div 10 < 10" "n mod 10 < 10" using assms by auto
  have dig: "is_digit c" if "c \<in> set (pad2 n)" for c using that d by (auto simp: pad2_def)
  have ne: "digit_char k \<noteq> CHR 0x00 \<and> \<not> c_isspace (digit_char k) \<and> digit_char k \<noteq> CHR ''-'' \<and> digit_char k \<noteq> CHR ''+''"
    if "k < 10" for k
    using is_digit_digit_char [OF that] by (auto simp: is_digit_def c_isspace_def)
  have "c_str (pad2 n) = pad2 n" using ne d by (simp add: c_str_def pad2_def)
  moreover have "take_sign (dropWhile c_isspace (pad2 n)) = (False, pad2 n)"
    using ne d by (simp add: take_sign_def pad2_def)
  moreover have "takeWhile (\<lambda>c. base_digit c < 10) (pad2 n) = pad2 n"
    unfolding base_digit_less_10 takeWhile_eq_all_conv using dig by blast
  moreover have "base_val 10 (pad2 n) = n"
    using base_val_digits [of "pad2 n", OF dig] d by (simp add: digits_val_def pad2_def)
  moreover have "pad2 n \<noteq> []" "saturate_ll (int n) = int n" using assms by (auto simp: pad2_def saturate_ll_def)
  ultimately show ?thesis by (simp add: strtol_or_zero_def strtol10_def strto_digits_def Let_def del: takeWhile_eq_all_conv)
qed

lemma strtol_no_digit:
  assumes "\<forall>c \<in> set s. \<not> is_digit c"
  shows "strtol_or_zero s = 0"
proof -
  have sub: "set (snd (take_sign (dropWhile c_isspace (c_str s)))) \<subseteq> set s"
  proof -
    have "set (dropWhile c_isspace (c_str s)) \<subseteq> set s"
      unfolding c_str_def by (blast dest: set_dropWhileD set_takeWhileD)
    then show ?thesis unfolding take_sign_def by (auto dest: list.set_sel(2) [rotated])
  qed
  have "takeWhile is_digit t = []" if "set t \<subseteq> set s" for t
    using that assms by (cases t) auto
  with sub show ?thesis
    by (auto simp: strtol_or_zero_def strtol10_def strto_digits_def base_digit_less_10 Let_def split: prod.splits)
qed

lemma minute_of_day_bound: "minute_of_day h m = Some t \<Longrightarrow> unat t < 1440"
proof -
  assume a: "minute_of_day h m = Some t"
  then have "\<not> (h < 0 \<or> h > 23 \<or> m < 0 \<or> m > 59)" unfolding minute_of_day_def by (metis option.distinct(1))
  moreover from this a have t: "t = word_of_int (h * 60 + m)" by (simp add: minute_of_day_def)
  ultimately have "0 \<le> h * 60 + m" "h * 60 + m < 1440" by auto
  moreover from this have "uint t = h * 60 + m" unfolding t uint_word_of_int_eq by (simp add: take_bit_int_eq_self)
  ultimately show ?thesis by (simp add: unat_eq_nat_uint)
qed

text \<open>
  a time of day HH:MM is read as its minute of the day, and every accepted time is below 24:00;
  but parts that are not numbers are not rejected: any text around a colon without a digit in it is
  read as midnight.
\<close>

theorem time_of_day_values:
  "(h < 24 \<longrightarrow> m < 60 \<longrightarrow>
      as_time_of_day (ScalarNode (pad2 h @ '':'' @ pad2 m) l) = Some (of_nat (h * 60 + m))) \<and>
   (as_time_of_day n = Some t \<longrightarrow> unat t < 1440) \<and>
   ((\<forall>c \<in> set (a @ b). \<not> is_digit c) \<longrightarrow> CHR '':'' \<notin> set a \<longrightarrow>
      as_time_of_day (ScalarNode (a @ '':'' @ b) l) = Some 0)"
proof (intro conjI impI)
  assume hm: "h < 24" "m < 60"
  have colon: "\<not> is_digit (CHR '':'')" by (simp add: is_digit_def)
  have "CHR '':'' \<notin> set (pad2 h)"
    using hm is_digit_digit_char [of "h div 10"] is_digit_digit_char [of "h mod 10"] colon
    by (auto simp: pad2_def)
  then show "as_time_of_day (ScalarNode (pad2 h @ '':'' @ pad2 m) l) = Some (of_nat (h * 60 + m))"
    using hm split_at_char_append [of "CHR '':''" "pad2 h" "pad2 m"] strtol_pad2 [of h] strtol_pad2 [of m]
    by (simp add: as_time_of_day_def is_scalar_def node_scalar_def minute_of_day_def)
next
  assume "as_time_of_day n = Some t"
  then obtain before after where "minute_of_day (strtol_or_zero before) (strtol_or_zero after) = Some t"
    unfolding as_time_of_day_def
    by (cases "split_at_char (CHR '':'') (node_scalar n)"; cases "snd (split_at_char (CHR '':'') (node_scalar n))")
       (auto split: if_splits)
  then show "unat t < 1440" by (rule minute_of_day_bound)
next
  assume "\<forall>c \<in> set (a @ b). \<not> is_digit c" "CHR '':'' \<notin> set a"
  then show "as_time_of_day (ScalarNode (a @ '':'' @ b) l) = Some 0"
    using split_at_char_append [of "CHR '':''" a b] strtol_no_digit [of a] strtol_no_digit [of b]
    by (simp add: as_time_of_day_def is_scalar_def node_scalar_def minute_of_day_def)
qed

theorem time_of_day_values_witness:
  "as_time_of_day (ScalarNode ''22:30'' 1) = Some 1350 \<and> unat (1350 :: u16) < 1440 \<and>
   as_time_of_day (ScalarNode ''noon:ish'' 1) = Some 0"
proof -
  have "pad2 22 = ''22''" "pad2 30 = ''30''" by code_simp+
  then show ?thesis
    using time_of_day_values [of 22 30 1 "ScalarNode ''22:30'' 1" 1350 "''noon''" "''ish''"]
    by (simp add: is_digit_def)
qed

end
