(* ===== verification/Sha256.thy ===== *)
theory Sha256
  imports Prelude
begin

text \<open>
  SHA-256 as the rules file is fingerprinted with (\<^verbatim>\<open>include/policy/sha256.hpp\<close>): the streaming object with
  its 64-byte buffer, the block transform and the hexadecimal digest. The buffer is the list of the
  \<^verbatim>\<open>buf_len_\<close> bytes in use; the copy and padding loops are partial functions, shown to return.
\<close>

unbundle bit_operations_syntax

section \<open>The block transform\<close>

definition rotr :: "u32 \<Rightarrow> nat \<Rightarrow> u32" where
  "rotr x n = (drop_bit n x OR push_bit (32 - n) x)"

text \<open>
  The 64 round constants of the table \<^verbatim>\<open>k\<close>, in its order and its rows, written in decimal. The test vector
  below depends on every one of them.
\<close>

definition sha_k :: "u32 list" where
  "sha_k = [
     1116352408, 1899447441, 3049323471, 3921009573, 961987163, 1508970993, 2453635748,
     2870763221, 3624381080, 310598401, 607225278, 1426881987, 1925078388, 2162078206,
     2614888103, 3248222580, 3835390401, 4022224774, 264347078, 604807628, 770255983,
     1249150122, 1555081692, 1996064986, 2554220882, 2821834349, 2952996808, 3210313671,
     3336571891, 3584528711, 113926993, 338241895, 666307205, 773529912, 1294757372,
     1396182291, 1695183700, 1986661051, 2177026350, 2456956037, 2730485921, 2820302411,
     3259730800, 3345764771, 3516065817, 3600352804, 4094571909, 275423344, 430227734,
     506948616, 659060556, 883997877, 958139571, 1322822218, 1537002063, 1747873779,
     1955562222, 2024104815, 2227730452, 2361852424, 2428436474, 2756734187, 3204031479,
     3329325298]"

definition be_word :: "u8 list \<Rightarrow> nat \<Rightarrow> u32" where
  "be_word block i =
     (push_bit 24 (ucast (block ! (i * 4))) OR (push_bit 16 (ucast (block ! (i * 4 + 1))) OR
      (push_bit 8 (ucast (block ! (i * 4 + 2))) OR ucast (block ! (i * 4 + 3)))))"

text \<open>The message schedule: sixteen words of the block, extended one word at a time.\<close>

definition next_w :: "u32 list \<Rightarrow> u32" where
  "next_w w =
     (let i = length w;
          s0 = (rotr (w ! (i - 15)) 7 XOR (rotr (w ! (i - 15)) 18 XOR drop_bit 3 (w ! (i - 15))));
          s1 = (rotr (w ! (i - 2)) 17 XOR (rotr (w ! (i - 2)) 19 XOR drop_bit 10 (w ! (i - 2))))
      in w ! (i - 16) + s0 + w ! (i - 7) + s1)"

primrec extend_w :: "nat \<Rightarrow> u32 list \<Rightarrow> u32 list" where
  "extend_w 0 w = w"
| "extend_w (Suc n) w = extend_w n (w @ [next_w w])"

definition schedule :: "u8 list \<Rightarrow> u32 list" where
  "schedule block = extend_w 48 (map (be_word block) [0..<16])"

type_synonym sha_regs = "u32 \<times> u32 \<times> u32 \<times> u32 \<times> u32 \<times> u32 \<times> u32 \<times> u32"

definition sha_round :: "sha_regs \<Rightarrow> u32 \<times> u32 \<Rightarrow> sha_regs" where
  "sha_round = (\<lambda>(a, b, c, d, e, f, g, hh) (k, w).
     let S1 = (rotr e 6 XOR (rotr e 11 XOR rotr e 25));
         ch = ((e AND f) XOR (NOT e AND g));
         t1 = hh + S1 + ch + k + w;
         S0 = (rotr a 2 XOR (rotr a 13 XOR rotr a 22));
         maj = ((a AND b) XOR ((a AND c) XOR (b AND c)));
         t2 = S0 + maj
     in (t1 + t2, a, b, c, d + t1, e, f, g))"

definition transform :: "sha_regs \<Rightarrow> u8 list \<Rightarrow> sha_regs" where
  "transform h block =
     (let (h0, h1, h2, h3, h4, h5, h6, h7) = h;
          (a, b, c, d, e, f, g, hh) = foldl sha_round h (zip sha_k (schedule block))
      in (h0 + a, h1 + b, h2 + c, h3 + d, h4 + e, h5 + f, h6 + g, h7 + hh))"

section \<open>The streaming object\<close>

record Sha256 =
  sha_h :: sha_regs
  sha_buf :: "u8 list"
  sha_total :: u64

definition sha_init :: Sha256 where
  "sha_init = \<lparr> sha_h = (0x6a09e667, 0xbb67ae85, 0x3c6ef372, 0xa54ff53a, 0x510e527f, 0x9b05688c, 0x1f83d9ab, 0x5be0cd19),
     sha_buf = [], sha_total = 0 \<rparr>"

partial_function (option) update_loop :: "sha_regs \<Rightarrow> u8 list \<Rightarrow> u8 list \<Rightarrow> (sha_regs \<times> u8 list) option" where
  "update_loop h buf data =
     (if data = [] then Some (h, buf)
      else
        (let k = min (length data) (64 - length buf);
             buf' = buf @ take k data;
             data' = drop k data
         in if length buf' = 64 then update_loop (transform h buf') [] data' else update_loop h buf' data'))"

definition sha_update :: "Sha256 \<Rightarrow> u8 list \<Rightarrow> Sha256 option" where
  "sha_update st data =
     (case update_loop (sha_h st) (sha_buf st) data of
        None \<Rightarrow> None
      | Some (h, buf) \<Rightarrow> Some \<lparr> sha_h = h, sha_buf = buf, sha_total = sha_total st + of_nat (length data) \<rparr>)"

partial_function (option) pad_zeros :: "Sha256 \<Rightarrow> Sha256 option" where
  "pad_zeros st =
     (if length (sha_buf st) = 56 then Some st
      else case sha_update st [0] of None \<Rightarrow> None | Some st' \<Rightarrow> pad_zeros st')"

definition len_be :: "u64 \<Rightarrow> u8 list" where
  "len_be bits = map (\<lambda>i. ucast (drop_bit (56 - 8 * i) bits)) [0..<8]"

definition hex_digit :: "u8 \<Rightarrow> char" where
  "hex_digit n = ''0123456789abcdef'' ! unat n"

definition hex_word :: "u32 \<Rightarrow> string" where
  "hex_word w = concat (map (\<lambda>b. let byte = ucast (drop_bit (24 - 8 * b) w) :: u8
                                 in [hex_digit (drop_bit 4 byte), hex_digit (byte AND 0x0F)]) [0..<4])"

definition hex_regs :: "sha_regs \<Rightarrow> string" where
  "hex_regs = (\<lambda>(a, b, c, d, e, f, g, h). concat (map hex_word [a, b, c, d, e, f, g, h]))"

definition sha_hex :: "Sha256 \<Rightarrow> string option" where
  "sha_hex st =
     (let bits = sha_total st * 8 in
      case sha_update st [0x80] of None \<Rightarrow> None
      | Some st \<Rightarrow>
        (case pad_zeros st of None \<Rightarrow> None
         | Some st \<Rightarrow>
           (case sha_update st (len_be bits) of None \<Rightarrow> None
            | Some st \<Rightarrow> Some (hex_regs (sha_h st)))))"

definition bytes_of :: "string \<Rightarrow> u8 list" where
  "bytes_of s = map of_char s"

definition hash_hex :: "string \<Rightarrow> string option" where
  "hash_hex s = (case sha_update sha_init (bytes_of s) of None \<Rightarrow> None | Some st \<Rightarrow> sha_hex st)"

section \<open>Correctness of the buffering\<close>

text \<open>The reference: absorb whole blocks of the message, keep the rest.\<close>

function absorb :: "sha_regs \<Rightarrow> u8 list \<Rightarrow> sha_regs \<times> u8 list" where
  "absorb h xs = (if length xs < 64 then (h, xs) else absorb (transform h (take 64 xs)) (drop 64 xs))"
  by auto
termination by (relation "measure (\<lambda>(h, xs). length xs)") auto

declare absorb.simps [simp del]

lemma absorb_length: "length (snd (absorb h xs)) = length xs mod 64"
proof (induction h xs rule: absorb.induct)
  case (1 h xs)
  show ?case
  proof (cases "length xs < 64")
    case True
    then show ?thesis by (simp add: absorb.simps [of h xs])
  next
    case False
    then show ?thesis using 1 by (simp add: absorb.simps [of h xs] le_mod_geq)
  qed
qed

lemma absorb_append: "absorb h (xs @ ys) = (case absorb h xs of (h', r) \<Rightarrow> absorb h' (r @ ys))"
proof (induction h xs rule: absorb.induct)
  case (1 h xs)
  show ?case
  proof (cases "length xs < 64")
    case True
    then show ?thesis by (simp add: absorb.simps [of h xs])
  next
    case False
    then show ?thesis
      using 1 by (simp add: absorb.simps [of h xs] absorb.simps [of h "xs @ ys"])
  qed
qed

lemma update_loop_absorb: "length buf < 64 \<Longrightarrow> update_loop h buf data = Some (absorb h (buf @ data))"
proof (induction data arbitrary: h buf rule: length_induct)
  case (1 data)
  show ?case
  proof (cases "data = []")
    case True
    then show ?thesis using 1(2) by (simp add: update_loop.simps absorb.simps)
  next
    case False
    define k where "k = min (length data) (64 - length buf)"
    have k: "0 < k" "k \<le> length data" "length buf + k \<le> 64" using 1(2) False by (auto simp: k_def)
    then have "length (drop k data) < length data" by simp
    then have IH: "update_loop h' buf' (drop k data) = Some (absorb h' (buf' @ drop k data))" if "length buf' < 64" for h' buf'
      using 1(1) that by blast
    have len: "length (buf @ take k data) = length buf + k" using k by simp
    have step: "update_loop h buf data =
        (if length buf + k = 64 then update_loop (transform h (buf @ take k data)) [] (drop k data)
         else update_loop h (buf @ take k data) (drop k data))"
      using False len by (subst update_loop.simps) (simp add: Let_def flip: k_def)
    show ?thesis
    proof (cases "length buf + k = 64")
      case True
      then have "64 - length buf = k" using 1(2) by simp
      then have "absorb h (buf @ data) = absorb (transform h (buf @ take k data)) (drop k data)"
        using True k 1(2) by (subst absorb.simps) simp
      then show ?thesis using IH [of "[]"] step True by simp
    next
      case False
      then have "k = length data" using k by (auto simp: k_def)
      then show ?thesis using IH [of "buf @ take k data" h] step False k len by simp
    qed
  qed
qed

lemma sha_update_absorb:
  assumes "length (sha_buf st) < 64"
  shows "sha_update st data = Some \<lparr> sha_h = fst (absorb (sha_h st) (sha_buf st @ data)),
           sha_buf = snd (absorb (sha_h st) (sha_buf st @ data)), sha_total = sha_total st + of_nat (length data) \<rparr>"
  by (simp add: sha_update_def update_loop_absorb [OF assms] split: prod.split)

text \<open>What a state stands for: the bytes seen so far, absorbed from the initial registers.\<close>

definition sha_seen :: "Sha256 \<Rightarrow> u8 list \<Rightarrow> bool" where
  "sha_seen st m \<longleftrightarrow> absorb (sha_h sha_init) m = (sha_h st, sha_buf st)"

lemma sha_seen_length: "sha_seen st m \<Longrightarrow> length (sha_buf st) = length m mod 64"
  using absorb_length [of "sha_h sha_init" m] by (simp add: sha_seen_def)

lemma sha_seen_update:
  assumes "sha_seen st m"
  shows "\<exists>st'. sha_update st data = Some st' \<and> sha_seen st' (m @ data) \<and>
           sha_total st' = sha_total st + of_nat (length data)"
proof -
  have len: "length (sha_buf st) < 64" using sha_seen_length [OF assms] by simp
  have "absorb (sha_h sha_init) m = (sha_h st, sha_buf st)" using assms by (simp only: sha_seen_def)
  then have "absorb (sha_h sha_init) (m @ data) = absorb (sha_h st) (sha_buf st @ data)"
    by (subst absorb_append) simp
  then show ?thesis using sha_update_absorb [OF len, of data] by (simp add: sha_seen_def)
qed

text \<open>The padding of FIPS 180-4: a one bit, zeros up to 56 bytes modulo 64, the length in bits.\<close>

definition pad_count :: "nat \<Rightarrow> nat" where
  "pad_count n = (55 + 64 - n mod 64) mod 64"

definition sha_pad :: "u8 list \<Rightarrow> u8 list" where
  "sha_pad m = m @ [0x80] @ replicate (pad_count (length m)) 0 @ len_be (of_nat (length m) * 8)"

lemma pad_count_mod: "(n + 1 + pad_count n) mod 64 = 56"
proof -
  define r where "r = n mod 64"
  have r: "r < 64" by (simp add: r_def)
  have "r + 1 + pad_count n = (if r \<le> 55 then 56 else 120)"
    using r by (auto simp: pad_count_def le_mod_geq simp flip: r_def)
  moreover have "(n + 1 + pad_count n) mod 64 = (r + 1 + pad_count n) mod 64"
    unfolding r_def by (metis add.assoc mod_add_left_eq)
  ultimately show ?thesis by (simp split: if_splits)
qed

lemma pad_count_least: "k < pad_count n \<Longrightarrow> (n + 1 + k) mod 64 \<noteq> 56"
proof
  assume k: "k < pad_count n" and "(n + 1 + k) mod 64 = 56"
  then have "(n + 1 + k) mod 64 = (n + 1 + pad_count n) mod 64" using pad_count_mod by simp
  then have "64 dvd pad_count n - k"
    using k mod_eq_dvd_iff_nat [of "n + 1 + k" "n + 1 + pad_count n" 64] by simp
  moreover have "pad_count n < 64" by (simp add: pad_count_def)
  ultimately show False using k by (auto dest: dvd_imp_le)
qed

lemma pad_zeros_seen:
  assumes "sha_seen st (m @ replicate k 0)" "length m = Suc n" "k \<le> pad_count n"
  shows "\<exists>st'. pad_zeros st = Some st' \<and> sha_seen st' (m @ replicate (pad_count n) 0)"
  using assms(3,1)
proof (induction k arbitrary: st rule: inc_induct)
  case base
  then have "length (sha_buf st) = 56" using sha_seen_length [OF base] pad_count_mod [of n] assms(2) by simp
  then show ?case using base by (subst pad_zeros.simps) simp
next
  case (step k)
  have "length (sha_buf st) \<noteq> 56"
    using sha_seen_length [OF step.prems] pad_count_least [OF step.hyps(2)] assms(2) by simp
  moreover obtain st' where "sha_update st [0] = Some st'" "sha_seen st' (m @ replicate (Suc k) 0)"
    using sha_seen_update [OF step.prems, of "[0]"] by (auto simp: replicate_append_same [symmetric])
  ultimately show ?case using step.IH [of st'] by (subst pad_zeros.simps) simp
qed

lemma length_hex_word: "length (hex_word w) = 8"
  by (simp add: hex_word_def upt_rec Let_def)

text \<open>The test vector of the standard.\<close>

lemma abc_digest:
  "hex_regs (fst (absorb (sha_h sha_init) (sha_pad (bytes_of ''abc'')))) =
     ''ba7816bf8f01cfea414140de5dae2223b00361a396177a9cb410ff61f20015ad''"
  by code_simp

lemma hash_hex_absorb:
  "\<exists>h. absorb (sha_h sha_init) (sha_pad (bytes_of s)) = (h, []) \<and> hash_hex s = Some (hex_regs h)"
proof -
  define m where "m = bytes_of s"
  have init: "sha_seen sha_init []" by (simp add: sha_seen_def absorb.simps sha_init_def)
  obtain s1 where s1: "sha_update sha_init m = Some s1" "sha_seen s1 m" "sha_total s1 = of_nat (length m)"
    using sha_seen_update [OF init, of m] by (auto simp: sha_init_def)
  obtain s2 where s2: "sha_update s1 [0x80] = Some s2" "sha_seen s2 (m @ [0x80])"
    using sha_seen_update [OF s1(2)] by blast
  obtain s3 where s3: "pad_zeros s2 = Some s3" "sha_seen s3 ((m @ [0x80]) @ replicate (pad_count (length m)) 0)"
    using pad_zeros_seen [of s2 "m @ [0x80]" 0 "length m"] s2(2) by auto
  obtain s4 where s4: "sha_update s3 (len_be (of_nat (length m) * 8)) = Some s4" "sha_seen s4 (sha_pad m)"
    using sha_seen_update [OF s3(2)] by (auto simp: sha_pad_def)
  have "length (sha_pad m) = (length m + 1 + pad_count (length m)) + 8" by (simp add: sha_pad_def len_be_def)
  then have "length (sha_pad m) mod 64 = 0" using pad_count_mod [of "length m"] mod_add_left_eq [of "length m + 1 + pad_count (length m)" 64 8] by simp
  then have "sha_buf s4 = []" using sha_seen_length [OF s4(2)] by simp
  moreover have "hash_hex s = Some (hex_regs (sha_h s4))"
    using s1 s2 s3 s4 by (simp add: hash_hex_def sha_hex_def flip: m_def)
  ultimately show ?thesis
    using s4(2) by (intro exI [of _ "sha_h s4"]) (simp add: sha_seen_def m_def)
qed

lemma sha_update_pieces:
  "Option.bind (sha_update sha_init (bytes_of a)) (\<lambda>st. sha_update st (bytes_of b)) =
   sha_update sha_init (bytes_of (a @ b))"
proof -
  have init: "sha_seen sha_init []" by (simp add: sha_seen_def absorb.simps sha_init_def)
  obtain s1 where s1: "sha_update sha_init (bytes_of (a @ b)) = Some s1" "sha_seen s1 (bytes_of (a @ b))"
    "sha_total s1 = of_nat (length (a @ b))"
    using sha_seen_update [OF init, of "bytes_of (a @ b)"] by (auto simp: sha_init_def bytes_of_def)
  obtain t1 where t1: "sha_update sha_init (bytes_of a) = Some t1" "sha_seen t1 (bytes_of a)"
    "sha_total t1 = of_nat (length a)"
    using sha_seen_update [OF init, of "bytes_of a"] by (auto simp: sha_init_def bytes_of_def)
  obtain t2 where t2: "sha_update t1 (bytes_of b) = Some t2" "sha_seen t2 (bytes_of a @ bytes_of b)"
    "sha_total t2 = sha_total t1 + of_nat (length b)"
    using sha_seen_update [OF t1(2), of "bytes_of b"] by (auto simp: bytes_of_def)
  have "t2 = s1"
    using t1(3) t2(2,3) s1(2,3) by (intro Sha256.equality) (simp_all add: sha_seen_def bytes_of_def)
  then show ?thesis using t1(1) t2(1) s1(1) by simp
qed

text \<open>
  C22: the fingerprint of a rules file is the SHA-256 digest of its bytes: for every input the
  streaming object returns, and its result is the 64 hexadecimal digits of the registers after
  absorbing the message padded as the standard says, block by block with no rest; feeding the input in
  two pieces makes no difference; and the digest of "abc" is the standard's test vector.
\<close>

theorem sha256_correct:
  "(\<exists>h. absorb (sha_h sha_init) (sha_pad (bytes_of s)) = (h, []) \<and> hash_hex s = Some (hex_regs h) \<and>
      length (hex_regs h) = 64) \<and>
   Option.bind (sha_update sha_init (bytes_of a)) (\<lambda>st. sha_update st (bytes_of b)) =
     sha_update sha_init (bytes_of (a @ b)) \<and>
   hash_hex ''abc'' = Some ''ba7816bf8f01cfea414140de5dae2223b00361a396177a9cb410ff61f20015ad''"
proof -
  have "length (hex_regs h) = 64" for h
    by (simp add: hex_regs_def length_hex_word split: prod.split)
  moreover have "hash_hex ''abc'' = Some ''ba7816bf8f01cfea414140de5dae2223b00361a396177a9cb410ff61f20015ad''"
    using hash_hex_absorb [of "''abc''"] abc_digest by auto
  ultimately show ?thesis using hash_hex_absorb [of s] sha_update_pieces by blast
qed

end
