(* ===== verification/Rule_Compiler.thy ===== *)
theory Rule_Compiler
  imports Engine Yaml_Values Sha256
begin

text \<open>
  The policy compiler (\<^verbatim>\<open>src/rules.cpp\<close>): from the YAML rules file to a \<^verbatim>\<open>RuleSet\<close>. The compiler object is a
  record (the rule set under construction, the diagnostics, the name tables); its member functions are
  state transformers. A function that returns \<^verbatim>\<open>bool\<close> in the source returns it here with the state. The
  text of the file, the files it names and the clock are arguments.
\<close>

unbundle bit_operations_syntax

section \<open>Names\<close>

definition kMaxExpansionPerRule :: nat where "kMaxExpansionPerRule = 64"

definition to_upper :: "string \<Rightarrow> string" where
  "to_upper s = map to_upper_char s"

definition parse_verdict :: "string \<Rightarrow> Verdict option" where
  "parse_verdict s =
     (let u = to_upper s in
      if u = ''ALLOW'' \<or> u = ''PERMIT'' then Some kAllow
      else if u = ''DENY'' \<or> u = ''REJECT'' \<or> u = ''BLOCK'' then Some kDeny
      else if u = ''REDIRECT'' then Some kRedirect
      else None)"

definition parse_reason :: "string \<Rightarrow> u8 option" where
  "parse_reason s =
     (let u = to_upper s in List.find (\<lambda>r. u = reason_name r) (map of_nat [0..<kReasonCount]))"

definition parse_rat :: "string \<Rightarrow> RatType option" where
  "parse_rat s =
     (let u = to_upper s in
      if u = ''LTE'' \<or> u = ''EUTRAN'' \<or> u = ''4G'' then Some kLte
      else if u = ''NR'' \<or> u = ''5G'' \<or> u = ''NGRAN'' then Some kNr
      else if u = ''WLAN'' \<or> u = ''WIFI'' \<or> u = ''WI-FI'' then Some kWlan
      else None)"

definition parse_decision_flag :: "string \<Rightarrow> u8 option" where
  "parse_decision_flag s =
     (let u = to_upper s in
      if u = ''THROTTLED'' then Some kFlagThrottled
      else if u = ''ROAMING_RESTRICTED'' then Some kFlagRoamingRestricted
      else if u = ''TETHERING_BLOCKED'' then Some kFlagTetheringBlocked
      else if u = ''QUOTA_WARNING'' then Some kFlagQuotaWarning
      else if u = ''OFF_PEAK_BONUS'' then Some kFlagOffPeakBonus
      else None)"

definition parse_inherit :: "string \<Rightarrow> u8 option" where
  "parse_inherit s =
     (let u = to_upper s in
      if u = ''ALL'' then Some kInheritAll
      else if u = ''QOS'' then Some kInheritQos
      else if u = ''AMBR'' then Some kInheritAmbr
      else if u = ''QUOTA'' then Some kInheritQuota
      else if u = ''RATING_GROUP'' then Some kInheritRatingGroup
      else None)"

definition is_standardized_5qi :: "u8 \<Rightarrow> bool" where
  "is_standardized_5qi q \<longleftrightarrow>
     q \<in> set [1, 2, 3, 4, 5, 6, 7, 8, 9, 65, 66, 67, 69, 70, 71, 72, 73, 74, 75, 76, 79, 80, 82, 83, 84, 85, 86]"

section \<open>The compiler object\<close>

record Compiler =
  c_rs :: RuleSet
  c_errors :: "(string \<times> nat) list"
  c_warnings :: "string list"
  c_plan_ids :: "string \<rightharpoonup> u32"
  c_redirect_ids :: "string \<rightharpoonup> u8"
  c_seen_rule_ids :: "u32 list"

definition c_err :: "string \<Rightarrow> nat \<Rightarrow> Compiler \<Rightarrow> Compiler" where
  "c_err msg line st = st\<lparr> c_errors := c_errors st @ [(msg, line)] \<rparr>"

definition c_warn :: "string \<Rightarrow> Compiler \<Rightarrow> Compiler" where
  "c_warn msg st = st\<lparr> c_warnings := c_warnings st @ [msg] \<rparr>"

definition default_deny_action :: Action where
  "default_deny_action = zero_action\<lparr> a_verdict := verdict_u8 kDeny, a_reason := reason_u8 kPolicyDefaultDeny \<rparr>"

definition unknown_key_text :: "string \<Rightarrow> nat \<Rightarrow> string" where
  "unknown_key_text k line = ''unknown key '' @ quoted k @ '' at line '' @ dec_of_nat line @ '' (ignored)''"

definition check_unknown_keys :: "Node \<Rightarrow> string list \<Rightarrow> Compiler \<Rightarrow> Compiler" where
  "check_unknown_keys n known st =
     foldl (\<lambda>st (k, v). if k \<in> set known then st else c_warn (unknown_key_text k (node_line v)) st)
       st (node_fields n)"

definition opt_line :: "Node option \<Rightarrow> nat" where
  "opt_line n = (case n of None \<Rightarrow> 0 | Some n \<Rightarrow> node_line n)"

section \<open>Tables\<close>

fun dnn_items :: "Node list \<Rightarrow> Compiler \<Rightarrow> Compiler" where
  "dnn_items [] st = st"
| "dnn_items (item # items) st =
     (if \<not> is_scalar item then dnn_items items (c_err ''DNN entries must be names'' (node_line item) st)
      else if length (rs_dnn_names (c_rs st)) \<ge> kMaxDnns then
        c_err (''more than '' @ dec_of_nat kMaxDnns @ '' DNNs; the feature word has '' @ dec_of_nat kMaxDnns @ '' DNN bits'')
          (node_line item) st
      else if node_scalar item \<in> set (rs_dnn_names (c_rs st)) then
        dnn_items items (c_err (''duplicate DNN '' @ quoted (node_scalar item)) (node_line item) st)
      else dnn_items items (st\<lparr> c_rs := (c_rs st)\<lparr> rs_dnn_names := rs_dnn_names (c_rs st) @ [node_scalar item] \<rparr> \<rparr>))"

definition load_dnns :: "Node option \<Rightarrow> Compiler \<Rightarrow> Compiler" where
  "load_dnns n st =
     (case n of
        Some (SeqNode items _) \<Rightarrow> dnn_items items st
      | _ \<Rightarrow> c_err (quoted ''dnns'' @ '' must be a sequence of DNN/APN names'') (opt_line n) st)"

fun redirect_fields :: "(string \<times> Node) list \<Rightarrow> Compiler \<Rightarrow> Compiler" where
  "redirect_fields [] st = st"
| "redirect_fields ((name, target) # fds) st =
     (let targets = rs_redirect_targets (c_rs st) in
      if length targets \<ge> kMaxRedirects then
        c_err (''more than '' @ dec_of_nat kMaxRedirects @ '' redirect targets'') (node_line target) st
      else if \<not> is_scalar target then
        redirect_fields fds (c_err ''redirect target must be a string'' (node_line target) st)
      else redirect_fields fds
        (st\<lparr> c_redirect_ids := (c_redirect_ids st)(name \<mapsto> of_nat (length targets)),
             c_rs := (c_rs st)\<lparr> rs_redirect_targets := targets @ [node_scalar target] \<rparr> \<rparr>))"

definition load_redirects :: "Node option \<Rightarrow> Compiler \<Rightarrow> Compiler" where
  "load_redirects n st =
     (case n of
        None \<Rightarrow> st
      | Some (MapNode fds _) \<Rightarrow>
          redirect_fields fds
            (st\<lparr> c_rs := (c_rs st)\<lparr> rs_redirect_targets := rs_redirect_targets (c_rs st) @ [[]] \<rparr> \<rparr>)
      | Some n \<Rightarrow> c_err (quoted ''redirects'' @ '' must be a mapping of name to target'') (node_line n) st)"

section \<open>Plan fields\<close>

text \<open>Optional fields: the value (a default where it is absent or wrong) and the state.\<close>

definition opt_field :: "(Node \<Rightarrow> 'a option) \<Rightarrow> string \<Rightarrow> Node \<Rightarrow> string \<Rightarrow> 'a \<Rightarrow> Compiler \<Rightarrow> 'a \<times> Compiler" where
  "opt_field read msg n key dflt st =
     (case node_find n key of
        None \<Rightarrow> (dflt, st)
      | Some v \<Rightarrow> (case read v of None \<Rightarrow> (dflt, c_err (key @ msg) (node_line v) st) | Some u \<Rightarrow> (u, st)))"

definition opt_kbps :: "Node \<Rightarrow> string \<Rightarrow> u32 \<Rightarrow> Compiler \<Rightarrow> u32 \<times> Compiler" where
  "opt_kbps = opt_field as_kbps '' must be a bit rate like 50Mbps''"

definition opt_bytes :: "Node \<Rightarrow> string \<Rightarrow> u64 \<Rightarrow> Compiler \<Rightarrow> u64 \<times> Compiler" where
  "opt_bytes = opt_field as_bytes '' must be a byte size like 20GB''"

definition opt_seconds :: "Node \<Rightarrow> string \<Rightarrow> u32 \<Rightarrow> Compiler \<Rightarrow> u32 \<times> Compiler" where
  "opt_seconds = opt_field as_seconds '' must be a duration like 30d''"

definition opt_uint :: "Node \<Rightarrow> string \<Rightarrow> u64 \<Rightarrow> Compiler \<Rightarrow> u64 \<times> Compiler" where
  "opt_uint = opt_field as_uint '' must be a non-negative integer''"

definition opt_bool :: "Node \<Rightarrow> string \<Rightarrow> bool \<Rightarrow> Compiler \<Rightarrow> bool \<times> Compiler" where
  "opt_bool = opt_field as_bool '' must be true or false''"

definition uint_in :: "u64 \<Rightarrow> u64 \<Rightarrow> Node \<Rightarrow> u64 option" where
  "uint_in lo hi n = (case as_uint n of Some v \<Rightarrow> if v < lo \<or> v > hi then None else Some v | None \<Rightarrow> None)"

definition req_5qi :: "Node \<Rightarrow> string \<Rightarrow> u8 \<Rightarrow> Compiler \<Rightarrow> u8 \<times> Compiler" where
  "req_5qi n key dflt st =
     (case node_find n key of
        None \<Rightarrow> (dflt, st)
      | Some v \<Rightarrow>
          (case uint_in 1 255 v of
             None \<Rightarrow> (dflt, c_err (key @ '' must be 1..255'') (node_line v) st)
           | Some u \<Rightarrow>
               (let q = ucast u in
                (q, if \<not> is_standardized_5qi q \<and> q < 128
                    then c_warn (''5QI '' @ dec_of_nat (unat q) @ '' is not a standardized value'') st else st))))"

definition req_arp :: "Node \<Rightarrow> string \<Rightarrow> u8 \<Rightarrow> Compiler \<Rightarrow> u8 \<times> Compiler" where
  "req_arp n key dflt st =
     (case node_find n key of
        None \<Rightarrow> (dflt, st)
      | Some v \<Rightarrow>
          (case uint_in 1 15 v of
             None \<Rightarrow> (dflt, c_err (key @ '' must be 1..15'') (node_line v) st)
           | Some u \<Rightarrow> (ucast u, st)))"

definition set_flag :: "bool \<Rightarrow> u16 \<Rightarrow> PlanConfig \<Rightarrow> PlanConfig" where
  "set_flag on flag p = (if on then p\<lparr> p_flags := p_flags p OR flag \<rparr> else p)"

definition build_plan :: "Node \<Rightarrow> string \<Rightarrow> u32 \<Rightarrow> Compiler \<Rightarrow> PlanConfig \<times> Compiler" where
  "build_plan item name pid st =
     (let (qos, st) = req_5qi item ''qos_5qi'' 9 st;
          (arp, st) = req_arp item ''arp'' 8 st;
          (ul, st) = opt_kbps item ''ambr_ul'' 0 st;
          (dl, st) = opt_kbps item ''ambr_dl'' 0 st;
          (quota, st) = opt_bytes item ''quota'' 0 st;
          (validity, st) = opt_seconds item ''quota_validity'' 0 st;
          (rating, st) = opt_uint item ''rating_group'' 0 st;
          (tethering, st) = opt_bool item ''tethering'' False st;
          (roaming, st) = opt_bool item ''roaming'' False st;
          p = \<lparr> p_quota_bytes = quota, p_quota_validity_s = validity, p_rating_group = ucast rating,
                p_ambr_ul_kbps = ul, p_ambr_dl_kbps = dl, p_id = pid, p_qos_5qi = qos, p_arp = arp, p_flags = 0 \<rparr>
      in (set_flag roaming kPlanRoamingAllowed (set_flag tethering kPlanTetheringAllowed p),
          if quota \<noteq> 0 \<and> validity = 0
          then c_warn (''plan '' @ quoted name @ '' grants a quota with no validity time; grants will never expire'') st
          else st))"

definition plan_keys :: "string list" where
  "plan_keys = [''name'', ''qos_5qi'', ''arp'', ''ambr_ul'', ''ambr_dl'', ''quota'', ''quota_validity'',
     ''rating_group'', ''tethering'', ''roaming'']"

definition add_plan :: "Node \<Rightarrow> string \<Rightarrow> Compiler \<Rightarrow> Compiler" where
  "add_plan item name st =
     (let pid = of_nat (length (rs_plan_names (c_rs st))); (p, st) = build_plan item name pid st
      in st\<lparr> c_plan_ids := (c_plan_ids st)(name \<mapsto> pid),
             c_rs := (c_rs st)\<lparr> rs_plans := rs_plans (c_rs st) @ [p],
                                rs_plan_names := rs_plan_names (c_rs st) @ [name] \<rparr> \<rparr>)"

fun plan_items :: "Node list \<Rightarrow> Compiler \<Rightarrow> Compiler" where
  "plan_items [] st = st"
| "plan_items (item # items) st =
     (if \<not> is_map item then plan_items items (c_err ''each plan must be a mapping'' (node_line item) st)
      else
        (let st = check_unknown_keys item plan_keys st in
         case node_find item ''name'' of
           Some (ScalarNode name line) \<Rightarrow>
             if name = [] then plan_items items (c_err (''plan is missing '' @ quoted ''name'') (node_line item) st)
             else if length (rs_plan_names (c_rs st)) \<ge> kMaxPlans then
               c_err (''more than '' @ dec_of_nat kMaxPlans @ '' plans; plan_mask is 32 bits'') (node_line item) st
             else if c_plan_ids st name \<noteq> None then
               plan_items items (c_err (''duplicate plan '' @ quoted name) line st)
             else plan_items items (add_plan item name st)
         | _ \<Rightarrow> plan_items items (c_err (''plan is missing '' @ quoted ''name'') (node_line item) st)))"

definition load_plans :: "Node option \<Rightarrow> Compiler \<Rightarrow> Compiler" where
  "load_plans n st =
     (case n of
        Some (SeqNode (item # items) _) \<Rightarrow> plan_items (item # items) st
      | _ \<Rightarrow> c_err (quoted ''plans'' @ '' must be a non-empty sequence'') (opt_line n) st)"

section \<open>Key sets\<close>

fun partner_items :: "Node list \<Rightarrow> Compiler \<Rightarrow> u64 list \<times> Compiler" where
  "partner_items [] st = ([], st)"
| "partner_items (item # items) st =
     (if \<not> is_scalar item then partner_items items (c_err ''PLMN must be a scalar like 310-260'' (node_line item) st)
      else case parse_plmn (node_scalar item) of
        None \<Rightarrow> partner_items items (c_err (''invalid PLMN '' @ quoted (node_scalar item)) (node_line item) st)
      | Some plmn \<Rightarrow> (let (keys, st) = partner_items items st in (ucast plmn # keys, st)))"

definition load_roaming_partners :: "Node option \<Rightarrow> Compiler \<Rightarrow> Compiler option" where
  "load_roaming_partners n st =
     (case n of
        None \<Rightarrow> Some st
      | Some (SeqNode items _) \<Rightarrow>
          (let (keys, st) = partner_items items st in
           map_option (\<lambda>fs. st\<lparr> c_rs := (c_rs st)\<lparr> rs_roaming_partners := fs \<rparr> \<rparr>) (fs_rebuild keys))
      | Some n \<Rightarrow> Some (c_err (quoted ''roaming_partners'' @ '' must be a sequence of PLMNs'') (node_line n) st))"

fun imei_items :: "Node list \<Rightarrow> Compiler \<Rightarrow> u64 list \<times> Compiler" where
  "imei_items [] st = ([], st)"
| "imei_items (item # items) st =
     (if \<not> is_scalar item then imei_items items (c_err ''IMEI must be a scalar'' (node_line item) st)
      else case parse_imei (node_scalar item) of
        None \<Rightarrow> imei_items items (c_err (''invalid IMEI '' @ quoted (node_scalar item)) (node_line item) st)
      | Some imei \<Rightarrow>
          if imei = 0
          then imei_items items (c_err (''invalid IMEI '' @ quoted (node_scalar item)) (node_line item) st)
          else (let (keys, st) = imei_items items st in (imei # keys, st)))"

text \<open>The lines of a blocklist file: the keys and the number of malformed lines.\<close>

fun imei_lines :: "string list \<Rightarrow> u64 list \<times> nat" where
  "imei_lines [] = ([], 0)"
| "imei_lines (l # ls) =
     (let l = rev (dropWhile (\<lambda>c. c = CHR 0x0D \<or> c = CHR '' '') (rev l)); (keys, bad) = imei_lines ls in
      if l = [] \<or> hd l = CHR ''#'' then (keys, bad)
      else case parse_imei l of
        None \<Rightarrow> (keys, bad + 1)
      | Some imei \<Rightarrow> if imei = 0 then (keys, bad + 1) else (imei # keys, bad))"

definition load_imei_file :: "(string \<Rightarrow> string option) \<Rightarrow> string \<Rightarrow> nat \<Rightarrow> Compiler \<Rightarrow> u64 list \<times> Compiler" where
  "load_imei_file files path line st =
     (case files path of
        None \<Rightarrow> ([], c_err (''cannot open IMEI blocklist file '' @ quoted path) line st)
      | Some contents \<Rightarrow>
          (let (keys, bad) = imei_lines (getlines contents) in
           (keys, if bad \<noteq> 0
                  then c_warn (dec_of_nat bad @ '' malformed line(s) in IMEI blocklist '' @ quoted path) st else st)))"

definition load_imei_blocklist :: "(string \<Rightarrow> string option) \<Rightarrow> Node option \<Rightarrow> Compiler \<Rightarrow> Compiler option" where
  "load_imei_blocklist files n st =
     (let rebuild = (\<lambda>(keys, st).
            map_option (\<lambda>fs. st\<lparr> c_rs := (c_rs st)\<lparr> rs_imei_blocklist := fs \<rparr> \<rparr>) (fs_rebuild keys)) in
      case n of
        None \<Rightarrow> Some st
      | Some (ScalarNode path line) \<Rightarrow> rebuild (load_imei_file files path line st)
      | Some (SeqNode items _) \<Rightarrow> rebuild (imei_items items st)
      | Some n \<Rightarrow> Some (c_err (quoted ''imei_blocklist'' @ '' must be a sequence or a file path'') (node_line n) st))"

section \<open>Conditions\<close>

type_synonym matches = "(u64 \<times> u64) list"

definition plan_ref :: "Node \<Rightarrow> u32 \<Rightarrow> Compiler \<Rightarrow> bool \<times> u32 \<times> Compiler" where
  "plan_ref item out st =
     (if \<not> is_scalar item then (False, out, c_err ''plan reference must be a name'' (node_line item) st)
      else case c_plan_ids st (node_scalar item) of
        None \<Rightarrow> (False, out, c_err (''rule references unknown plan '' @ quoted (node_scalar item)) (node_line item) st)
      | Some pid \<Rightarrow> (True, out OR push_bit (unat pid) 1, st))"

fun plan_refs :: "Node list \<Rightarrow> bool \<Rightarrow> u32 \<Rightarrow> Compiler \<Rightarrow> bool \<times> u32 \<times> Compiler" where
  "plan_refs [] ok out st = (ok, out, st)"
| "plan_refs (item # items) ok out st =
     (let (b, out, st) = plan_ref item out st in plan_refs items (b \<and> ok) out st)"

definition resolve_plan_mask :: "Node \<Rightarrow> u32 \<Rightarrow> Compiler \<Rightarrow> bool \<times> u32 \<times> Compiler" where
  "resolve_plan_mask n out st =
     (case n of
        ScalarNode _ _ \<Rightarrow> plan_ref n out st
      | SeqNode items _ \<Rightarrow> plan_refs items True out st
      | _ \<Rightarrow> (False, out, c_err (quoted ''plans'' @ '' must be a name or a list of names'') (node_line n) st))"

definition add_bit :: "matches \<Rightarrow> nat \<Rightarrow> bool \<Rightarrow> matches" where
  "add_bit ms b want =
     map (\<lambda>(mask, val). (mask OR feat_bit b, if want then val OR feat_bit b else val)) ms"

definition add_one_of :: "matches \<Rightarrow> nat list \<Rightarrow> u32 \<Rightarrow> nat \<Rightarrow> Compiler \<Rightarrow> bool \<times> matches \<times> Compiler" where
  "add_one_of ms bits rid line st =
     (if bits = [] then (True, ms, st)
      else if length ms * length bits > kMaxExpansionPerRule then
        (False, ms, c_err (''rule '' @ dec_of_nat (unat rid) @ '' expands to more than '' @
           dec_of_nat kMaxExpansionPerRule @ '' compiled rules; split it'') line st)
      else (True, concat (map (\<lambda>(mask, val). map (\<lambda>b. (mask OR feat_bit b, val OR feat_bit b)) bits) ms), st))"

definition add_none_of :: "matches \<Rightarrow> nat list \<Rightarrow> matches" where
  "add_none_of ms bits = map (\<lambda>(mask, val). (foldl (\<lambda>m b. m OR feat_bit b) mask bits, val)) ms"

definition as_list :: "Node \<Rightarrow> Node list" where
  "as_list n = (case n of SeqNode items _ \<Rightarrow> items | _ \<Rightarrow> [n])"

text \<open>Reading the names of a list into feature bits; the first name that is wrong is the error.\<close>

fun bits_of :: "(Node \<Rightarrow> (string \<times> nat) + nat) \<Rightarrow> Node list \<Rightarrow> (string \<times> nat) + nat list" where
  "bits_of read [] = Inr []"
| "bits_of read (v # vs) =
     (case read v of
        Inl e \<Rightarrow> Inl e
      | Inr b \<Rightarrow> (case bits_of read vs of Inl e \<Rightarrow> Inl e | Inr bs \<Rightarrow> Inr (b # bs)))"

definition status_name_bit :: "string \<Rightarrow> nat option" where
  "status_name_bit s =
     (let u = to_upper s in
      if u = ''ACTIVE'' then Some kStatusActive
      else if u = ''SUSPENDED'' then Some kStatusSuspended
      else if u = ''BARRED'' then Some kStatusBarred
      else if u = ''UNKNOWN'' then Some kStatusUnknown
      else None)"

definition status_ref :: "Node \<Rightarrow> (string \<times> nat) + nat" where
  "status_ref v =
     (if \<not> is_scalar v then Inl (quoted ''status'' @ '' must be a name'', node_line v)
      else case status_name_bit (node_scalar v) of
        None \<Rightarrow> Inl (''unknown status '' @ quoted (node_scalar v), node_line v)
      | Some b \<Rightarrow> Inr b)"

definition rat_ref :: "Node \<Rightarrow> (string \<times> nat) + nat" where
  "rat_ref v =
     (case (if is_scalar v then parse_rat (node_scalar v) else None) of
        None \<Rightarrow> Inl (''unknown access type '' @ quoted (node_scalar v), node_line v)
      | Some rat \<Rightarrow> Inr (kRatBase + unat (rat_u8 rat)))"

definition dnn_ref :: "RuleSet \<Rightarrow> Node \<Rightarrow> (string \<times> nat) + nat" where
  "dnn_ref rs v =
     (if \<not> is_scalar v then Inl (quoted ''dnn'' @ '' must be a name'', node_line v)
      else case index_of (node_scalar v) (rs_dnn_names rs) of
        None \<Rightarrow> Inl (''unknown DNN '' @ quoted (node_scalar v) @ '' (add it to the '' @ quoted ''dnns'' @ '' list)'', node_line v)
      | Some i \<Rightarrow> Inr (kDnnBase + i))"

definition intern_usage_threshold :: "u32 \<Rightarrow> nat \<Rightarrow> Compiler \<Rightarrow> nat option \<times> Compiler" where
  "intern_usage_threshold permille line st =
     (let ts = rs_usage_thresholds_permille (c_rs st) in
      case index_of permille ts of
        Some i \<Rightarrow> (Some (kUsageThresholdBase + i), st)
      | None \<Rightarrow>
          if length ts \<ge> kMaxUsageThresholds then
            (None, c_err (''more than '' @ dec_of_nat kMaxUsageThresholds @
               '' distinct usage thresholds; the feature word has no room'') line st)
          else (Some (kUsageThresholdBase + length ts),
                st\<lparr> c_rs := (c_rs st)\<lparr> rs_usage_thresholds_permille := ts @ [permille] \<rparr> \<rparr>))"

definition intern_time_window :: "u16 \<Rightarrow> u16 \<Rightarrow> nat \<Rightarrow> Compiler \<Rightarrow> nat option \<times> Compiler" where
  "intern_time_window start stop line st =
     (let ws = rs_time_windows (c_rs st); w = \<lparr> start_minute = start, end_minute = stop \<rparr> in
      case index_of w ws of
        Some i \<Rightarrow> (Some (kTimeWindowBase + i), st)
      | None \<Rightarrow>
          if length ws \<ge> kMaxTimeWindows then
            (None, c_err (''more than '' @ dec_of_nat kMaxTimeWindows @ '' distinct time windows'') line st)
          else (Some (kTimeWindowBase + length ws),
                st\<lparr> c_rs := (c_rs st)\<lparr> rs_time_windows := ws @ [w] \<rparr> \<rparr>))"

definition kBoolConds :: "(string \<times> nat) list" where
  "kBoolConds = [
     (''roaming'', kRoaming), (''home_plmn'', kHomePlmn), (''roaming_partner'', kRoamingPartner),
     (''roaming_allowed'', kRoamingAllowed), (''imei_known'', kImeiKnown), (''imei_blocked'', kImeiBlocked),
     (''tethering_detected'', kTetheringDetected), (''tethering_allowed'', kTetheringAllowed),
     (''emergency'', kEmergency), (''quota_exhausted'', kQuotaExhausted), (''period_expired'', kPeriodExpired),
     (''requested_gbr'', kRequestedGbr)]"

text \<open>One field of \<^verbatim>\<open>when\<close>, by kind of condition.\<close>

definition list_cond ::
    "bool \<Rightarrow> (Node \<Rightarrow> (string \<times> nat) + nat) \<Rightarrow> Node \<Rightarrow> u32 \<Rightarrow> matches \<Rightarrow> Compiler \<Rightarrow> bool \<times> matches \<times> Compiler" where
  "list_cond positive read node rid ms st =
     (case bits_of read (as_list node) of
        Inl (msg, line) \<Rightarrow> (False, ms, c_err msg line st)
      | Inr bits \<Rightarrow>
          if positive then add_one_of ms bits rid (node_line node) st else (True, add_none_of ms bits, st))"

definition bool_cond :: "string \<Rightarrow> nat \<Rightarrow> Node \<Rightarrow> matches \<Rightarrow> Compiler \<Rightarrow> bool \<times> matches \<times> Compiler" where
  "bool_cond key b node ms st =
     (case as_bool node of
        None \<Rightarrow> (False, ms, c_err (''condition '' @ quoted key @ '' must be true or false'') (node_line node) st)
      | Some want \<Rightarrow> (True, add_bit ms b want, st))"

definition usage_cond :: "string \<Rightarrow> bool \<Rightarrow> Node \<Rightarrow> matches \<Rightarrow> Compiler \<Rightarrow> bool \<times> matches \<times> Compiler" where
  "usage_cond key want node ms st =
     (case as_permille node of
        None \<Rightarrow> (False, ms, c_err (quoted key @ '' must be a percentage like 80%'') (node_line node) st)
      | Some pm \<Rightarrow>
          (case intern_usage_threshold pm (node_line node) st of
             (None, st) \<Rightarrow> (False, ms, st)
           | (Some b, st) \<Rightarrow> (True, add_bit ms b want, st)))"

definition time_cond :: "string \<Rightarrow> bool \<Rightarrow> Node \<Rightarrow> matches \<Rightarrow> Compiler \<Rightarrow> bool \<times> matches \<times> Compiler" where
  "time_cond key inside node ms st =
     (case (node_find node ''start'', node_find node ''end'') of
        (Some start, Some stop) \<Rightarrow>
          (case (as_time_of_day start, as_time_of_day stop) of
             (Some s, Some e) \<Rightarrow>
               (case intern_time_window s e (node_line node) st of
                  (None, st) \<Rightarrow> (False, ms, st)
                | (Some b, st) \<Rightarrow> (True, add_bit ms b inside, st))
           | _ \<Rightarrow> (False, ms, c_err ''times must be HH:MM in 24-hour form'' (node_line node) st))
      | _ \<Rightarrow> (False, ms, c_err (quoted key @ '' needs {start: HH:MM, end: HH:MM}'') (node_line node) st))"

datatype cond_kind = BoolKind nat | StatusKind | RatKind bool | DnnKind bool | UsageKind bool | TimeKind bool

definition cond_kind :: "string \<Rightarrow> cond_kind option" where
  "cond_kind key =
     (case map_of kBoolConds key of
        Some b \<Rightarrow> Some (BoolKind b)
      | None \<Rightarrow>
          if key = ''status'' then Some StatusKind
          else if key = ''rat'' \<or> key = ''not_rat'' then Some (RatKind (key = ''rat''))
          else if key = ''dnn'' \<or> key = ''not_dnn'' then Some (DnnKind (key = ''dnn''))
          else if key = ''usage_above'' \<or> key = ''usage_below'' then Some (UsageKind (key = ''usage_above''))
          else if key = ''time_between'' \<or> key = ''not_time_between'' then Some (TimeKind (key = ''time_between''))
          else None)"

definition when_field :: "u32 \<Rightarrow> string \<times> Node \<Rightarrow> matches \<Rightarrow> Compiler \<Rightarrow> bool \<times> matches \<times> Compiler" where
  "when_field rid field ms st =
     (let (key, node) = field in
      case cond_kind key of
        Some (BoolKind b) \<Rightarrow> bool_cond key b node ms st
      | Some StatusKind \<Rightarrow> list_cond True status_ref node rid ms st
      | Some (RatKind positive) \<Rightarrow> list_cond positive rat_ref node rid ms st
      | Some (DnnKind positive) \<Rightarrow> list_cond positive (dnn_ref (c_rs st)) node rid ms st
      | Some (UsageKind want) \<Rightarrow> usage_cond key want node ms st
      | Some (TimeKind inside) \<Rightarrow> time_cond key inside node ms st
      | None \<Rightarrow> (False, ms, c_err (''unknown condition '' @ quoted key) (node_line node) st))"

fun when_fields :: "u32 \<Rightarrow> (string \<times> Node) list \<Rightarrow> matches \<Rightarrow> Compiler \<Rightarrow> bool \<times> matches \<times> Compiler" where
  "when_fields rid [] ms st = (True, ms, st)"
| "when_fields rid (f # fs) ms st =
     (case when_field rid f ms st of
        (False, ms, st) \<Rightarrow> (False, ms, st)
      | (True, ms, st) \<Rightarrow> when_fields rid fs ms st)"

definition compile_when :: "Node \<Rightarrow> u32 \<Rightarrow> matches \<Rightarrow> Compiler \<Rightarrow> bool \<times> matches \<times> Compiler" where
  "compile_when n rid ms st =
     (case n of
        MapNode fs _ \<Rightarrow> when_fields rid fs ms st
      | _ \<Rightarrow> (False, ms, c_err (quoted ''when'' @ '' must be a mapping'') (node_line n) st))"

section \<open>Actions\<close>

type_synonym action_step = "Node \<Rightarrow> Action \<Rightarrow> Compiler \<Rightarrow> bool \<times> Action \<times> Compiler"

definition then_step :: "action_step \<Rightarrow> action_step \<Rightarrow> action_step" where
  "then_step f g n a st = (case f n a st of (True, a, st) \<Rightarrow> g n a st | (False, a, st) \<Rightarrow> (False, a, st))"

text \<open>A field that is read into the action when it is present.\<close>

definition action_field ::
    "string \<Rightarrow> (Compiler \<Rightarrow> Node \<Rightarrow> 'a option) \<Rightarrow> (Node \<Rightarrow> string) \<Rightarrow> ('a \<Rightarrow> Action \<Rightarrow> Action) \<Rightarrow> action_step" where
  "action_field key read msg put n a st =
     (case node_find n key of
        None \<Rightarrow> (True, a, st)
      | Some v \<Rightarrow>
          (case read st v of
             None \<Rightarrow> (False, a, c_err (msg v) (node_line v) st)
           | Some x \<Rightarrow> (True, put x a, st)))"

definition scalar_or_none :: "(string \<Rightarrow> 'a option) \<Rightarrow> Node \<Rightarrow> 'a option" where
  "scalar_or_none read v = (if is_scalar v then read (node_scalar v) else None)"

definition drop_inherit :: "u8 \<Rightarrow> Action \<Rightarrow> Action" where
  "drop_inherit bits a = a\<lparr> a_inherit_mask := a_inherit_mask a AND NOT bits \<rparr>"

definition action_verdict :: action_step where
  "action_verdict = action_field ''verdict'' (\<lambda>_. scalar_or_none parse_verdict)
     (\<lambda>v. ''unknown verdict '' @ quoted (node_scalar v)) (\<lambda>x a. a\<lparr> a_verdict := verdict_u8 x \<rparr>)"

definition action_reason :: action_step where
  "action_reason = action_field ''reason'' (\<lambda>_. scalar_or_none parse_reason)
     (\<lambda>v. ''unknown reason code '' @ quoted (node_scalar v)) (\<lambda>x a. a\<lparr> a_reason := x \<rparr>)"

text \<open>Lists of names whose bits are combined; the first wrong name is the error.\<close>

fun or_bits :: "(string \<Rightarrow> u8 option) \<Rightarrow> string \<Rightarrow> Node list \<Rightarrow> u8 \<Rightarrow> (string \<times> nat) + u8" where
  "or_bits read what [] acc = Inr acc"
| "or_bits read what (v # vs) acc =
     (case scalar_or_none read v of
        None \<Rightarrow> Inl (what @ quoted (node_scalar v), node_line v)
      | Some b \<Rightarrow> or_bits read what vs (acc OR b))"

definition action_inherit :: action_step where
  "action_inherit n a st =
     (case node_find n ''inherit'' of
        None \<Rightarrow> (True, a, st)
      | Some inh \<Rightarrow>
          (case or_bits parse_inherit ''unknown inherit field '' (as_list inh) 0 of
             Inl (msg, line) \<Rightarrow> (False, a, c_err msg line st)
           | Inr m \<Rightarrow> (True, a\<lparr> a_inherit_mask := m \<rparr>, st)))"

definition action_5qi :: action_step where
  "action_5qi n a st =
     (case node_find n ''qos_5qi'' of
        None \<Rightarrow> (True, a, st)
      | Some q \<Rightarrow>
          (case uint_in 1 255 q of
             None \<Rightarrow> (False, a, c_err ''qos_5qi must be 1..255'' (node_line q) st)
           | Some v \<Rightarrow>
               (let qos = ucast v;
                    st = (if \<not> is_standardized_5qi qos \<and> qos < 128
                          then c_warn (''5QI '' @ dec_of_nat (unat qos) @
                            '' is not a standardized value and is below the operator-specific range (128-254)'') st
                          else st)
                in (True, drop_inherit kInheritQos (a\<lparr> a_qos_5qi := qos \<rparr>), st))))"

definition action_arp :: action_step where
  "action_arp = action_field ''arp'' (\<lambda>_. uint_in 1 15) (\<lambda>_. ''arp must be 1..15'')
     (\<lambda>v a. drop_inherit kInheritQos (a\<lparr> a_arp := ucast v \<rparr>))"

definition action_qos_pair :: action_step where
  "action_qos_pair n a st =
     (if node_has n ''qos_5qi'' \<noteq> node_has n ''arp'' then
        (True,
         (let a = (if \<not> node_has n ''arp'' then a\<lparr> a_arp := 8 \<rparr> else a)
          in if \<not> node_has n ''qos_5qi'' then a\<lparr> a_qos_5qi := 9 \<rparr> else a),
         c_warn (''action at line '' @ dec_of_nat (node_line n) @
           '' sets only one of qos_5qi/arp; the other defaults rather than inheriting'') st)
      else (True, a, st))"

definition action_ambr :: action_step where
  "action_ambr =
     then_step (action_field ''ambr_ul'' (\<lambda>_. as_kbps) (\<lambda>_. ''ambr_ul must be a bit rate like 10Mbps'') (\<lambda>v a. a\<lparr> a_ambr_ul_kbps := v \<rparr>))
    (then_step (action_field ''ambr_dl'' (\<lambda>_. as_kbps) (\<lambda>_. ''ambr_dl must be a bit rate like 50Mbps'') (\<lambda>v a. a\<lparr> a_ambr_dl_kbps := v \<rparr>))
     (\<lambda>n a st.
        if node_has n ''ambr_ul'' \<or> node_has n ''ambr_dl'' then
          (if node_has n ''ambr_ul'' \<noteq> node_has n ''ambr_dl''
           then (False, a, c_err ''an action must set both ambr_ul and ambr_dl, or neither'' (node_line n) st)
           else (True, drop_inherit kInheritAmbr a, st))
        else (True, a, st)))"

definition action_quota :: action_step where
  "action_quota =
     then_step (action_field ''quota'' (\<lambda>_. as_bytes) (\<lambda>_. ''quota must be a byte size like 20GB'')
       (\<lambda>v a. drop_inherit kInheritQuota (a\<lparr> a_quota_bytes := v \<rparr>)))
     (action_field ''quota_validity'' (\<lambda>_. as_seconds) (\<lambda>_. ''quota_validity must be a duration like 30d'')
       (\<lambda>v a. drop_inherit kInheritQuota (a\<lparr> a_quota_validity_s := v \<rparr>)))"

definition action_rating :: action_step where
  "action_rating = action_field ''rating_group'' (\<lambda>_. uint_in 0 0xFFFFFFFF) (\<lambda>_. ''rating_group must be an integer'')
     (\<lambda>v a. drop_inherit kInheritRatingGroup (a\<lparr> a_rating_group := ucast v \<rparr>))"

definition action_redirect :: action_step where
  "action_redirect =
     then_step
       (\<lambda>n a st.
          case node_find n ''redirect'' of
            None \<Rightarrow> (True, a, st)
          | Some q \<Rightarrow>
              if \<not> is_scalar q then (False, a, c_err (''redirect must name a target from '' @ quoted ''redirects'') (node_line q) st)
              else (case c_redirect_ids st (node_scalar q) of
                      None \<Rightarrow> (False, a, c_err (''unknown redirect target '' @ quoted (node_scalar q)) (node_line q) st)
                    | Some r \<Rightarrow> (True, a\<lparr> a_redirect_id := r \<rparr>, st)))
       (\<lambda>n a st.
          if a_verdict a = verdict_u8 kRedirect \<and> a_redirect_id a = 0
          then (False, a, c_err ''a REDIRECT action must name a redirect target'' (node_line n) st)
          else (True, a, st))"

text \<open>The flags are added one by one, also those before a wrong one.\<close>

fun add_flags :: "Node list \<Rightarrow> Action \<Rightarrow> Compiler \<Rightarrow> bool \<times> Action \<times> Compiler" where
  "add_flags [] a st = (True, a, st)"
| "add_flags (v # vs) a st =
     (case scalar_or_none parse_decision_flag v of
        None \<Rightarrow> (False, a, c_err (''unknown decision flag '' @ quoted (node_scalar v)) (node_line v) st)
      | Some f \<Rightarrow> add_flags vs (a\<lparr> a_set_flags := a_set_flags a OR f \<rparr>) st)"

definition action_flags :: action_step where
  "action_flags n a st =
     (case node_find n ''flags'' of None \<Rightarrow> (True, a, st) | Some q \<Rightarrow> add_flags (as_list q) a st)"

definition action_keys :: "string list" where
  "action_keys = [''verdict'', ''reason'', ''qos_5qi'', ''arp'', ''ambr_ul'', ''ambr_dl'', ''rating_group'',
     ''quota'', ''quota_validity'', ''redirect'', ''flags'', ''inherit'']"

definition parse_action :: action_step where
  "parse_action n a st =
     (if \<not> is_map n then (False, a, c_err (quoted ''action'' @ '' must be a mapping'') (node_line n) st)
      else
        then_step action_verdict (then_step action_reason (then_step action_inherit (then_step action_5qi
          (then_step action_arp (then_step action_qos_pair (then_step action_ambr (then_step action_quota
            (then_step action_rating (then_step action_redirect action_flags)))))))))
          n a (check_unknown_keys n action_keys st))"

section \<open>Rules\<close>

definition rule_keys :: "string list" where
  "rule_keys = [''id'', ''name'', ''priority'', ''plans'', ''when'', ''action'']"

definition find_uint :: "Node \<Rightarrow> string \<Rightarrow> u64 option" where
  "find_uint n key = (case node_find n key of None \<Rightarrow> None | Some v \<Rightarrow> as_uint v)"

definition rule_action :: Action where
  "rule_action = zero_action\<lparr> a_verdict := verdict_u8 kAllow, a_reason := reason_u8 kOk, a_inherit_mask := kInheritAll \<rparr>"

definition emit :: "u32 \<Rightarrow> u32 \<Rightarrow> u32 \<Rightarrow> Action \<Rightarrow> matches \<Rightarrow> CompiledRule list" where
  "emit plan_mask rid prio action ms =
     map (\<lambda>(mask, val). \<lparr> r_match_mask = mask, r_match_value = val, r_plan_mask = plan_mask, r_id = rid,
       r_priority = prio, r_action = action \<rparr>) ms"

text \<open>The optional parts of a rule; \<^verbatim>\<open>False\<close> means the rule is skipped.\<close>

definition rule_plans :: "Node \<Rightarrow> Compiler \<Rightarrow> bool \<times> u32 \<times> Compiler" where
  "rule_plans item st =
     (case node_find item ''plans'' of None \<Rightarrow> (True, 0, st) | Some plans \<Rightarrow> resolve_plan_mask plans 0 st)"

definition rule_when :: "Node \<Rightarrow> u32 \<Rightarrow> Compiler \<Rightarrow> bool \<times> matches \<times> Compiler" where
  "rule_when item rid st =
     (case node_find item ''when'' of None \<Rightarrow> (True, [(0, 0)], st) | Some w \<Rightarrow> compile_when w rid [(0, 0)] st)"

definition rule_act :: "Node \<Rightarrow> u32 \<Rightarrow> Compiler \<Rightarrow> bool \<times> Action \<times> Compiler" where
  "rule_act item rid st =
     (case node_find item ''action'' of
        None \<Rightarrow> (False, rule_action, c_err (''rule '' @ dec_of_nat (unat rid) @ '' has no '' @ quoted ''action'') (node_line item) st)
      | Some act \<Rightarrow> parse_action act rule_action st)"

text \<open>The rest of a rule once it has its id and priority: its compiled rules, or none when it is skipped.\<close>

definition compile_body :: "Node \<Rightarrow> u32 \<Rightarrow> u32 \<Rightarrow> Compiler \<Rightarrow> CompiledRule list option \<times> Compiler" where
  "compile_body item rid prio st =
     (case rule_plans item st of
        (False, _, st) \<Rightarrow> (None, st)
      | (True, plan_mask, st) \<Rightarrow>
          (case rule_when item rid st of
             (False, _, st) \<Rightarrow> (None, st)
           | (True, ms, st) \<Rightarrow>
               (case rule_act item rid st of
                  (False, _, st) \<Rightarrow> (None, st)
                | (True, action, st) \<Rightarrow> (Some (emit plan_mask rid prio action ms), st))))"

definition compile_rule :: "Node \<Rightarrow> Compiler \<Rightarrow> CompiledRule list option \<times> Compiler" where
  "compile_rule item st =
     (case find_uint item ''id'' of
        None \<Rightarrow> (None, c_err (''rule needs a non-zero integer '' @ quoted ''id'' @ '' (0 is reserved for '' @
                  quoted ''no rule fired'' @ '')'') (node_line item) st)
      | Some i \<Rightarrow>
          if i = 0 \<or> i > 0xFFFFFFFF
          then (None, c_err (''rule needs a non-zero integer '' @ quoted ''id'' @ '' (0 is reserved for '' @
                  quoted ''no rule fired'' @ '')'') (node_line item) st)
          else
            (let rid = ucast i in
             if rid \<in> set (c_seen_rule_ids st)
             then (None, c_err (''duplicate rule id '' @ dec_of_nat (unat rid)) (node_line item) st)
             else
               (let st = st\<lparr> c_seen_rule_ids := rid # c_seen_rule_ids st \<rparr> in
                case find_uint item ''priority'' of
                  None \<Rightarrow> (None, c_err (''rule '' @ dec_of_nat (unat rid) @ '' needs an integer '' @ quoted ''priority'') (node_line item) st)
                | Some p \<Rightarrow>
                    if p > 0xFFFFFFFF
                    then (None, c_err (''rule '' @ dec_of_nat (unat rid) @ '' needs an integer '' @ quoted ''priority'') (node_line item) st)
                    else compile_body item rid (ucast p) st)))"

fun rule_items :: "Node list \<Rightarrow> Compiler \<Rightarrow> Compiler" where
  "rule_items [] st = st"
| "rule_items (item # items) st =
     (if \<not> is_map item then rule_items items (c_err ''each rule must be a mapping'' (node_line item) st)
      else
        (case compile_rule item (check_unknown_keys item rule_keys st) of
           (None, st) \<Rightarrow> rule_items items st
         | (Some crs, st) \<Rightarrow>
             if length (rs_rules (c_rs st)) + length crs > kMaxRules then
               c_err (''rule table exceeds '' @ dec_of_nat kMaxRules @ '' compiled rules'') (node_line item) st
             else rule_items items (st\<lparr> c_rs := (c_rs st)\<lparr> rs_rules := rs_rules (c_rs st) @ crs \<rparr> \<rparr>)))"

definition load_rules :: "Node option \<Rightarrow> Compiler \<Rightarrow> Compiler" where
  "load_rules n st =
     (case n of
        Some (SeqNode items _) \<Rightarrow> rule_items items st
      | _ \<Rightarrow> c_err (quoted ''rules'' @ '' must be a sequence'') (opt_line n) st)"

section \<open>Ordering and lint\<close>

definition shadows :: "CompiledRule \<Rightarrow> CompiledRule \<Rightarrow> bool" where
  "shadows a b \<longleftrightarrow>
     r_id a \<noteq> r_id b \<and>
     r_match_mask b AND r_match_mask a = r_match_mask a \<and>
     r_match_value b AND r_match_mask a = r_match_value a \<and>
     \<not> (r_plan_mask a \<noteq> 0 \<and> (r_plan_mask b = 0 \<or> r_plan_mask b AND NOT (r_plan_mask a) \<noteq> 0))"

definition shadow_text :: "CompiledRule \<Rightarrow> CompiledRule \<Rightarrow> string" where
  "shadow_text a b = ''rule '' @ dec_of_nat (unat (r_id b)) @ '' (priority '' @ dec_of_nat (unat (r_priority b)) @
     '') can never fire: rule '' @ dec_of_nat (unat (r_id a)) @ '' (priority '' @ dec_of_nat (unat (r_priority a)) @
     '') always matches first''"

fun shadow_warnings :: "CompiledRule list \<Rightarrow> CompiledRule list \<Rightarrow> string list" where
  "shadow_warnings before [] = []"
| "shadow_warnings before (b # rules) =
     (case List.find (\<lambda>a. shadows a b) before of None \<Rightarrow> [] | Some a \<Rightarrow> [shadow_text a b]) @
     shadow_warnings (before @ [b]) rules"

definition sort_and_check :: "Compiler \<Rightarrow> Compiler" where
  "sort_and_check st =
     (let rules = sort_key r_priority (rs_rules (c_rs st));
          st = st\<lparr> c_rs := (c_rs st)\<lparr> rs_rules := rules \<rparr>, c_warnings := c_warnings st @ shadow_warnings [] rules \<rparr>
      in if rules = [] then c_warn ''rule set contains no rules; every request takes the default action'' st else st)"

section \<open>Compilation\<close>

record RuleCompileResult =
  rc_rule_set :: "RuleSet option"
  rc_errors :: "(string \<times> nat) list"
  rc_warnings :: "string list"

definition rc_ok :: "RuleCompileResult \<Rightarrow> bool" where
  "rc_ok r \<longleftrightarrow> rc_rule_set r \<noteq> None \<and> rc_errors r = []"

fun error_texts :: "bool \<Rightarrow> (string \<times> nat) list \<Rightarrow> string" where
  "error_texts first [] = []"
| "error_texts first ((msg, line) # es) =
     (if first then [] else ''; '') @ (if line > 0 then ''line '' @ dec_of_nat line @ '': '' else []) @ msg @
     error_texts False es"

definition error_summary :: "RuleCompileResult \<Rightarrow> string" where
  "error_summary r = error_texts True (rc_errors r)"

definition compile_failed :: "string \<Rightarrow> nat \<Rightarrow> RuleCompileResult" where
  "compile_failed msg line = \<lparr> rc_rule_set = None, rc_errors = [(msg, line)], rc_warnings = [] \<rparr>"

definition top_keys :: "string list" where
  "top_keys = [''version'', ''dnns'', ''plans'', ''redirects'', ''roaming_partners'', ''imei_blocklist'',
     ''default_action'', ''rules'']"

definition fresh_compiler :: "u64 \<Rightarrow> string \<Rightarrow> u32 \<Rightarrow> string \<Rightarrow> Compiler" where
  "fresh_compiler now path version sha =
     \<lparr> c_rs = empty_RuleSet\<lparr> rs_version := version, rs_source_path := path, rs_source_sha256 := sha,
         rs_loaded_at_unix_ns := now * 1000000000, rs_default_action := default_deny_action \<rparr>,
       c_errors = [], c_warnings = [], c_plan_ids = Map.empty, c_redirect_ids = Map.empty, c_seen_rule_ids = [] \<rparr>"

definition load_default_action :: "Node option \<Rightarrow> Compiler \<Rightarrow> Compiler" where
  "load_default_action n st =
     (case n of
        None \<Rightarrow> st
      | Some d \<Rightarrow>
          (case parse_action d default_deny_action st of
             (_, a, st) \<Rightarrow> st\<lparr> c_rs := (c_rs st)\<lparr> rs_default_action := a \<rparr> \<rparr>))"

definition compile_root :: "(string \<Rightarrow> string option) \<Rightarrow> Node \<Rightarrow> Compiler \<Rightarrow> Compiler option" where
  "compile_root files doc st =
     (let st = load_plans (node_find doc ''plans'')
                 (load_redirects (node_find doc ''redirects'')
                   (load_dnns (node_find doc ''dnns'') (check_unknown_keys doc top_keys st)))
      in case load_roaming_partners (node_find doc ''roaming_partners'') st of
           None \<Rightarrow> None
         | Some st \<Rightarrow>
             (case load_imei_blocklist files (node_find doc ''imei_blocklist'') st of
                None \<Rightarrow> None
              | Some st \<Rightarrow>
                  Some (load_rules (node_find doc ''rules'') (load_default_action (node_find doc ''default_action'') st))))"

definition finish :: "Compiler \<Rightarrow> RuleCompileResult" where
  "finish st =
     (if c_errors st = [] then
        (let st = sort_and_check st
         in \<lparr> rc_rule_set = Some (c_rs st), rc_errors = c_errors st, rc_warnings = c_warnings st \<rparr>)
      else \<lparr> rc_rule_set = None, rc_errors = c_errors st, rc_warnings = c_warnings st \<rparr>)"

definition compile_rules ::
    "(string \<Rightarrow> string option) \<Rightarrow> u64 \<Rightarrow> string \<Rightarrow> string \<Rightarrow> u32 \<Rightarrow> RuleCompileResult option" where
  "compile_rules files now yaml_text source_path version =
     (case yaml_parse yaml_text of
        None \<Rightarrow> None
      | Some parsed \<Rightarrow>
          if \<not> pr_ok parsed then Some (compile_failed (pr_error parsed) (pr_error_line parsed))
          else if \<not> is_map (pr_root parsed) then
            Some (compile_failed ''rules file must be a mapping at the top level'' (node_line (pr_root parsed)))
          else
            (case hash_hex yaml_text of
               None \<Rightarrow> None
             | Some sha \<Rightarrow>
                 map_option finish (compile_root files (pr_root parsed) (fresh_compiler now source_path version sha))))"

definition compile_rules_from_file ::
    "(string \<Rightarrow> string option) \<Rightarrow> u64 \<Rightarrow> string \<Rightarrow> u32 \<Rightarrow> RuleCompileResult option" where
  "compile_rules_from_file files now path version =
     (case files path of
        None \<Rightarrow> Some (compile_failed (''cannot open rules file: '' @ path) 0)
      | Some contents \<Rightarrow> compile_rules files now contents path version)"

end
