(* ===== verification/Rule_Conditions.thy ===== *)
theory Rule_Conditions
  imports Rule_Compiler
begin

text \<open>
  Correctness of the condition compiler: the (mask, value) pairs a rule expands to match exactly the
  feature words that satisfy its \<^verbatim>\<open>when\<close> clause, as long as no bit is required both set and clear.
\<close>

unbundle bit_operations_syntax

section \<open>Conditions as constraints on the feature word\<close>

datatype cond = NeedBit nat bool | OneOf "nat list" | NoneOf "nat list"

fun holds :: "FeatureWord \<Rightarrow> cond \<Rightarrow> bool" where
  "holds f (NeedBit b want) = (bit f b = want)"
| "holds f (OneOf bs) = (bs = [] \<or> (\<exists>b \<in> set bs. bit f b))"
| "holds f (NoneOf bs) = (\<forall>b \<in> set bs. \<not> bit f b)"

fun needs_set :: "cond \<Rightarrow> nat set" where
  "needs_set (NeedBit b want) = (if want then {b} else {})"
| "needs_set (OneOf bs) = set bs"
| "needs_set (NoneOf bs) = {}"

fun needs_clear :: "cond \<Rightarrow> nat set" where
  "needs_clear (NeedBit b want) = (if want then {} else {b})"
| "needs_clear (OneOf bs) = {}"
| "needs_clear (NoneOf bs) = set bs"

fun cond_bits :: "cond \<Rightarrow> nat set" where
  "cond_bits (NeedBit b want) = {b}"
| "cond_bits (OneOf bs) = set bs"
| "cond_bits (NoneOf bs) = set bs"

definition no_conflict :: "cond list \<Rightarrow> bool" where
  "no_conflict cs \<longleftrightarrow> (\<Union>c \<in> set cs. needs_set c) \<inter> (\<Union>c \<in> set cs. needs_clear c) = {}"

fun apply_cond :: "cond \<Rightarrow> matches \<Rightarrow> matches" where
  "apply_cond (NeedBit b want) ms = add_bit ms b want"
| "apply_cond (OneOf bs) ms =
     (if bs = [] then ms else concat (map (\<lambda>(mask, val). map (\<lambda>b. (mask OR feat_bit b, val OR feat_bit b)) bs) ms))"
| "apply_cond (NoneOf bs) ms = add_none_of ms bs"

definition matches_word :: "matches \<Rightarrow> FeatureWord \<Rightarrow> bool" where
  "matches_word ms f \<longleftrightarrow> (\<exists>(m, v) \<in> set ms. f AND m = v)"

section \<open>One constraint\<close>

lemma match_set:
  fixes f m v :: FeatureWord
  assumes "b < 64" "bit m b = bit v b"
  shows "f AND (m OR feat_bit b) = v OR feat_bit b \<longleftrightarrow> f AND m = v \<and> bit f b"
  using assms unfolding and_eq_iff_bits by (auto simp: bit_or_iff bit_feat_bit)

lemma match_clear:
  fixes f m v :: FeatureWord
  assumes "b < 64" "\<not> bit v b"
  shows "f AND (m OR feat_bit b) = v \<longleftrightarrow> f AND m = v \<and> \<not> bit f b"
  using assms unfolding and_eq_iff_bits by (auto simp: bit_or_iff bit_feat_bit)

lemma match_clear_all:
  fixes f m v :: FeatureWord
  assumes "\<forall>b \<in> set bs. b < 64 \<and> \<not> bit v b"
  shows "f AND foldl (\<lambda>m b. m OR feat_bit b) m bs = v \<longleftrightarrow> f AND m = v \<and> (\<forall>b \<in> set bs. \<not> bit f b)"
  using assms by (induction bs arbitrary: m) (auto simp: match_clear)

text \<open>The set bits of a value come from positive conditions, the other bits of a mask from negative ones.\<close>

definition pairs_from :: "nat set \<Rightarrow> nat set \<Rightarrow> matches \<Rightarrow> bool" where
  "pairs_from P N ms \<longleftrightarrow>
     (\<forall>(m, v) \<in> set ms. \<forall>b. (bit v b \<longrightarrow> bit m b \<and> b \<in> P) \<and> (bit m b \<and> \<not> bit v b \<longrightarrow> b \<in> N))"

lemma pairs_fromD:
  assumes "pairs_from P N ms" "(m, v) \<in> set ms"
  shows "bit v b \<Longrightarrow> bit m b" "bit v b \<Longrightarrow> b \<in> P" "bit m b \<Longrightarrow> \<not> bit v b \<Longrightarrow> b \<in> N"
  using assms unfolding pairs_from_def by blast+

lemma bit_foldl_or:
  "bit (foldl (\<lambda>m b. m OR feat_bit b) m bs) i \<longleftrightarrow> bit m i \<or> (i \<in> set bs \<and> i < 64)" for m :: FeatureWord
  by (induction bs arbitrary: m) (auto simp: bit_or_iff bit_feat_bit)

lemma apply_cond_pairs:
  assumes "pairs_from P N ms"
  shows "pairs_from (P \<union> needs_set c) (N \<union> needs_clear c) (apply_cond c ms)"
proof (cases c)
  case (NeedBit b want)
  then show ?thesis
    using pairs_fromD [OF assms] unfolding pairs_from_def
    by (auto simp: add_bit_def bit_or_iff bit_feat_bit split: if_splits)
next
  case (OneOf bs)
  then show ?thesis
    using pairs_fromD [OF assms] unfolding pairs_from_def by (auto simp: bit_or_iff bit_feat_bit)
next
  case (NoneOf bs)
  then show ?thesis
    using pairs_fromD [OF assms] unfolding pairs_from_def by (auto simp: add_none_of_def bit_foldl_or)
qed

lemma matches_word_concat: "matches_word (concat mss) f \<longleftrightarrow> (\<exists>ms \<in> set mss. matches_word ms f)"
  by (auto simp: matches_word_def)

lemma matches_word_map: "matches_word (map h xs) f \<longleftrightarrow> (\<exists>x \<in> set xs. f AND fst (h x) = snd (h x))"
  by (auto simp: matches_word_def split_beta)

lemma apply_cond_matches:
  assumes "pairs_from P N ms" "(P \<union> needs_set c) \<inter> (N \<union> needs_clear c) = {}" "\<forall>b \<in> cond_bits c. b < 64"
  shows "matches_word (apply_cond c ms) f \<longleftrightarrow> matches_word ms f \<and> holds f c"
proof (cases c)
  case (NeedBit b want)
  have "f AND (m OR feat_bit b) = (if want then v OR feat_bit b else v) \<longleftrightarrow> f AND m = v \<and> bit f b = want"
    if "(m, v) \<in> set ms" for m v
    using match_set [of b m v f] match_clear [of b v f m] pairs_fromD [OF assms(1) that, of b] assms(2,3) NeedBit
    by (cases want) auto
  then show ?thesis unfolding NeedBit matches_word_def by (fastforce simp: add_bit_def)
next
  case (OneOf bs)
  have "f AND (m OR feat_bit b) = v OR feat_bit b \<longleftrightarrow> f AND m = v \<and> bit f b"
    if "(m, v) \<in> set ms" "b \<in> set bs" for m v b
    using match_set [of b m v f] pairs_fromD [OF assms(1) that(1), of b] assms(2,3) that(2) OneOf by auto
  then have "(\<exists>(m, v) \<in> set ms. \<exists>b \<in> set bs. f AND (m OR feat_bit b) = v OR feat_bit b) \<longleftrightarrow>
      (\<exists>(m, v) \<in> set ms. \<exists>b \<in> set bs. f AND m = v \<and> bit f b)"
    by (intro bex_cong) auto
  moreover have "matches_word (apply_cond (OneOf bs) ms) f \<longleftrightarrow>
      (\<exists>(m, v) \<in> set ms. \<exists>b \<in> set bs. f AND (m OR feat_bit b) = v OR feat_bit b)" if "bs \<noteq> []"
    using that by (simp add: matches_word_concat matches_word_map split_beta)
  ultimately show ?thesis unfolding OneOf by (cases "bs = []") (auto simp: matches_word_def)
next
  case (NoneOf bs)
  have "f AND foldl (\<lambda>m b. m OR feat_bit b) m bs = v \<longleftrightarrow> f AND m = v \<and> (\<forall>b \<in> set bs. \<not> bit f b)"
    if "(m, v) \<in> set ms" for m v
    using match_clear_all [of bs v f m] pairs_fromD [OF assms(1) that] assms(2,3) NoneOf by auto
  then show ?thesis unfolding NoneOf matches_word_def by (fastforce simp: add_none_of_def)
qed

lemma apply_conds_matches:
  assumes "pairs_from P N ms" "\<forall>c \<in> set cs. \<forall>b \<in> cond_bits c. b < 64"
    and "(P \<union> (\<Union>c \<in> set cs. needs_set c)) \<inter> (N \<union> (\<Union>c \<in> set cs. needs_clear c)) = {}"
  shows "matches_word (fold apply_cond cs ms) f \<longleftrightarrow> matches_word ms f \<and> (\<forall>c \<in> set cs. holds f c)"
  using assms
proof (induction cs arbitrary: ms P N)
  case (Cons c cs)
  have "matches_word (fold apply_cond cs (apply_cond c ms)) f \<longleftrightarrow>
      matches_word (apply_cond c ms) f \<and> (\<forall>c \<in> set cs. holds f c)"
    by (rule Cons.IH [OF apply_cond_pairs [OF Cons.prems(1), of c]]) (use Cons.prems in auto)
  moreover have "matches_word (apply_cond c ms) f \<longleftrightarrow> matches_word ms f \<and> holds f c"
    by (rule apply_cond_matches [OF Cons.prems(1)]) (use Cons.prems in auto)
  ultimately show ?case by auto
qed simp

section \<open>Fields\<close>

text \<open>The constraint a field of \<^verbatim>\<open>when\<close> stands for, given the tables of the rule set.\<close>

definition list_bits :: "(Node \<Rightarrow> (string \<times> nat) + nat) \<Rightarrow> Node \<Rightarrow> nat list option" where
  "list_bits read node = (case bits_of read (as_list node) of Inl _ \<Rightarrow> None | Inr bs \<Rightarrow> Some bs)"

definition threshold_bit :: "RuleSet \<Rightarrow> Node \<Rightarrow> nat option" where
  "threshold_bit rs node =
     (case as_permille node of None \<Rightarrow> None
      | Some pm \<Rightarrow> map_option ((+) kUsageThresholdBase) (index_of pm (rs_usage_thresholds_permille rs)))"

definition window_bit :: "RuleSet \<Rightarrow> Node \<Rightarrow> nat option" where
  "window_bit rs node =
     (case (Option.bind (node_find node ''start'') as_time_of_day, Option.bind (node_find node ''end'') as_time_of_day) of
        (Some s, Some e) \<Rightarrow>
          map_option ((+) kTimeWindowBase) (index_of \<lparr> start_minute = s, end_minute = e \<rparr> (rs_time_windows rs))
      | _ \<Rightarrow> None)"

definition list_cond_of :: "bool \<Rightarrow> nat list \<Rightarrow> cond" where
  "list_cond_of positive bs = (if positive then OneOf bs else NoneOf bs)"

definition cond_of :: "RuleSet \<Rightarrow> string \<times> Node \<Rightarrow> cond option" where
  "cond_of rs field =
     (let (key, node) = field in
      case cond_kind key of
        Some (BoolKind b) \<Rightarrow> map_option (NeedBit b) (as_bool node)
      | Some StatusKind \<Rightarrow> map_option OneOf (list_bits status_ref node)
      | Some (RatKind positive) \<Rightarrow> map_option (list_cond_of positive) (list_bits rat_ref node)
      | Some (DnnKind positive) \<Rightarrow> map_option (list_cond_of positive) (list_bits (dnn_ref rs) node)
      | Some (UsageKind want) \<Rightarrow> map_option (\<lambda>b. NeedBit b want) (threshold_bit rs node)
      | Some (TimeKind inside) \<Rightarrow> map_option (\<lambda>b. NeedBit b inside) (window_bit rs node)
      | None \<Rightarrow> None)"

text \<open>What compiling a condition does to the state: diagnostics, and new thresholds and windows.\<close>

definition tables_grow :: "RuleSet \<Rightarrow> RuleSet \<Rightarrow> bool" where
  "tables_grow rs rs' \<longleftrightarrow>
     (\<exists>ts ws. rs' = rs\<lparr> rs_usage_thresholds_permille := rs_usage_thresholds_permille rs @ ts,
                        rs_time_windows := rs_time_windows rs @ ws \<rparr>)"

definition tables_fit :: "RuleSet \<Rightarrow> bool" where
  "tables_fit rs \<longleftrightarrow> length (rs_dnn_names rs) \<le> kMaxDnns \<and>
     length (rs_usage_thresholds_permille rs) \<le> kMaxUsageThresholds \<and> length (rs_time_windows rs) \<le> kMaxTimeWindows"

lemma tables_grow_refl: "tables_grow rs rs"
  unfolding tables_grow_def by (intro exI [of _ "[]"]) simp

lemma tables_grow_trans: "tables_grow a b \<Longrightarrow> tables_grow b c \<Longrightarrow> tables_grow a c"
  unfolding tables_grow_def by (elim exE) (auto intro!: exI)

lemma index_of_append: "index_of x xs = Some i \<Longrightarrow> index_of x (xs @ ys) = Some i"
  by (induction xs arbitrary: i) (auto split: if_splits)

lemma cond_of_grow:
  assumes "tables_grow rs rs'" "cond_of rs field = Some c"
  shows "cond_of rs' field = Some c"
proof -
  obtain ts ws where g: "rs' = rs\<lparr> rs_usage_thresholds_permille := rs_usage_thresholds_permille rs @ ts,
      rs_time_windows := rs_time_windows rs @ ws \<rparr>" using assms(1) by (auto simp: tables_grow_def)
  have "dnn_ref rs' = dnn_ref rs" by (rule ext) (simp add: dnn_ref_def g)
  moreover have "threshold_bit rs node = Some b \<Longrightarrow> threshold_bit rs' node = Some b" for node b
    by (auto simp: threshold_bit_def g split: option.splits dest: index_of_append)
  moreover have "window_bit rs node = Some b \<Longrightarrow> window_bit rs' node = Some b" for node b
    by (auto simp: window_bit_def g split: option.splits dest: index_of_append)
  ultimately show ?thesis
    using assms(2) unfolding cond_of_def Let_def
    by (auto split: prod.splits option.splits cond_kind.splits)
qed

lemma bits_of_bound:
  assumes "bits_of read vs = Inr bs" "\<And>v b. read v = Inr b \<Longrightarrow> b < (64 :: nat)"
  shows "\<forall>b \<in> set bs. b < 64"
  using assms(1) by (induction vs arbitrary: bs) (auto split: sum.splits dest: assms(2))

lemma kBoolConds_bound: "map_of kBoolConds key = Some b \<Longrightarrow> b < 64"
proof -
  have "\<forall>(k, b) \<in> set kBoolConds. b < 64" by (simp add: kBoolConds_def feat_defs)
  then show "map_of kBoolConds key = Some b \<Longrightarrow> b < 64" by (auto dest!: map_of_SomeD)
qed

lemma cond_kind_bound: "cond_kind key = Some (BoolKind b) \<Longrightarrow> b < 64"
  by (auto simp: cond_kind_def split: option.splits if_splits intro: kBoolConds_bound)

lemma ref_bounds:
  "status_ref v = Inr b \<Longrightarrow> b < 64" "rat_ref v = Inr b \<Longrightarrow> b < 64"
  "tables_fit rs \<Longrightarrow> dnn_ref rs v = Inr b \<Longrightarrow> b < 64"
proof -
  show "status_ref v = Inr b \<Longrightarrow> b < 64"
    by (auto simp: status_ref_def status_name_bit_def feat_defs Let_def split: if_splits option.splits)
  show "rat_ref v = Inr b \<Longrightarrow> b < 64"
  proof -
    have "unat (rat_u8 r) < 8" for r by (cases r) simp_all
    moreover assume "rat_ref v = Inr b"
    then obtain r where "b = unat (rat_u8 r)"
      by (auto simp: rat_ref_def feat_defs split: if_splits option.splits)
    ultimately show "b < 64" by (metis less_trans numeral_less_iff semiring_norm(75,76,78))
  qed
  show "tables_fit rs \<Longrightarrow> dnn_ref rs v = Inr b \<Longrightarrow> b < 64"
    by (auto simp: dnn_ref_def tables_fit_def feat_defs kMaxDnns_def split: if_splits option.splits dest!: index_of_Some)
qed

lemma list_cond_apply:
  assumes "list_cond positive read node rid ms st = (True, ms', st')" "\<And>v b. read v = Inr b \<Longrightarrow> b < 64"
  shows "\<exists>bs. list_bits read node = Some bs \<and> ms' = apply_cond (list_cond_of positive bs) ms \<and> st' = st \<and>
           (\<forall>b \<in> cond_bits (list_cond_of positive bs). b < 64)"
proof (cases "bits_of read (as_list node)")
  case (Inl e)
  then show ?thesis using assms(1) by (cases e) (simp add: list_cond_def)
next
  case (Inr bs)
  then have "ms' = apply_cond (list_cond_of positive bs) ms" "st' = st"
    using assms(1) by (auto simp: list_cond_def list_cond_of_def add_one_of_def split: if_splits)
  then show ?thesis
    using bits_of_bound [OF Inr assms(2)] Inr by (auto simp: list_bits_def list_cond_of_def)
qed

lemma index_of_snoc: "index_of x xs = None \<Longrightarrow> index_of x (xs @ [x]) = Some (length xs)"
  by (induction xs) (auto split: if_splits)

lemma tables_grow_add:
  "tables_grow rs (rs\<lparr> rs_usage_thresholds_permille := rs_usage_thresholds_permille rs @ [t] \<rparr>)"
  "tables_grow rs (rs\<lparr> rs_time_windows := rs_time_windows rs @ [w] \<rparr>)"
  unfolding tables_grow_def
  by (rule exI [of _ "[t]"], rule exI [of _ "[]"], simp) (rule exI [of _ "[]"], rule exI [of _ "[w]"], simp)

lemma intern_threshold_apply:
  assumes "intern_usage_threshold pm line st = (Some b, st')" "tables_fit (c_rs st)"
  shows "tables_grow (c_rs st) (c_rs st') \<and> tables_fit (c_rs st') \<and> b < 64 \<and>
           (\<exists>i. index_of pm (rs_usage_thresholds_permille (c_rs st')) = Some i \<and> b = kUsageThresholdBase + i)"
proof (cases "index_of pm (rs_usage_thresholds_permille (c_rs st))")
  case None
  then show ?thesis
    using assms tables_grow_add(1) [of "c_rs st" pm] index_of_snoc [OF None]
    by (auto simp: intern_usage_threshold_def Let_def tables_fit_def feat_defs kMaxUsageThresholds_def split: if_splits)
next
  case (Some i)
  then show ?thesis
    using assms index_of_Some [OF Some] tables_grow_refl [of "c_rs st"]
    by (auto simp: intern_usage_threshold_def Let_def tables_fit_def feat_defs kMaxUsageThresholds_def)
qed

lemma intern_window_apply:
  assumes "intern_time_window s e line st = (Some b, st')" "tables_fit (c_rs st)"
  shows "tables_grow (c_rs st) (c_rs st') \<and> tables_fit (c_rs st') \<and> b < 64 \<and>
           (\<exists>i. index_of \<lparr> start_minute = s, end_minute = e \<rparr> (rs_time_windows (c_rs st')) = Some i \<and> b = kTimeWindowBase + i)"
proof (cases "index_of \<lparr> start_minute = s, end_minute = e \<rparr> (rs_time_windows (c_rs st))")
  case None
  then show ?thesis
    using assms tables_grow_add(2) [of "c_rs st" "\<lparr> start_minute = s, end_minute = e \<rparr>"] index_of_snoc [OF None]
    by (auto simp: intern_time_window_def Let_def tables_fit_def feat_defs kMaxTimeWindows_def split: if_splits)
next
  case (Some i)
  then show ?thesis
    using assms index_of_Some [OF Some] tables_grow_refl [of "c_rs st"]
    by (auto simp: intern_time_window_def Let_def tables_fit_def feat_defs kMaxTimeWindows_def)
qed

lemma when_field_cond:
  assumes "when_field rid field ms st = (True, ms', st')" "tables_fit (c_rs st)"
  shows "\<exists>c. cond_of (c_rs st') field = Some c \<and> ms' = apply_cond c ms \<and> (\<forall>b \<in> cond_bits c. b < 64) \<and>
           tables_grow (c_rs st) (c_rs st') \<and> tables_fit (c_rs st')"
proof -
  obtain key node where field: "field = (key, node)" by fastforce
  note refl = tables_grow_refl [of "c_rs st"]
  show ?thesis
  proof (cases "cond_kind key")
    case None
    then show ?thesis using assms(1) by (simp add: field when_field_def)
  next
    case (Some k)
    show ?thesis
    proof (cases k)
      case (BoolKind b)
      then show ?thesis
        using assms Some refl cond_kind_bound [of key b]
        by (auto simp: field when_field_def cond_of_def bool_cond_def split: option.splits)
    next
      case StatusKind
      then show ?thesis
        using assms Some refl list_cond_apply [of True status_ref node rid ms st ms' st'] ref_bounds(1)
        by (auto simp: field when_field_def cond_of_def list_cond_of_def)
    next
      case (RatKind positive)
      then show ?thesis
        using assms Some refl list_cond_apply [of positive rat_ref node rid ms st ms' st'] ref_bounds(2)
        by (auto simp: field when_field_def cond_of_def)
    next
      case (DnnKind positive)
      then show ?thesis
        using assms Some refl list_cond_apply [of positive "dnn_ref (c_rs st)" node rid ms st ms' st'] ref_bounds(3)
        by (auto simp: field when_field_def cond_of_def)
    next
      case (UsageKind want)
      then show ?thesis
        using assms Some intern_threshold_apply [of _ "node_line node" st _ st']
        by (fastforce simp: field when_field_def cond_of_def usage_cond_def threshold_bit_def split: option.splits prod.splits)
    next
      case (TimeKind inside)
      then show ?thesis
        using assms Some intern_window_apply [of _ _ "node_line node" st _ st']
        by (fastforce simp: field when_field_def cond_of_def time_cond_def window_bit_def split: option.splits prod.splits)
    qed
  qed
qed

lemma when_fields_conds:
  assumes "when_fields rid fs ms st = (True, ms', st')" "tables_fit (c_rs st)"
  shows "\<exists>cs. map (cond_of (c_rs st')) fs = map Some cs \<and> ms' = fold apply_cond cs ms \<and>
           (\<forall>c \<in> set cs. \<forall>b \<in> cond_bits c. b < 64) \<and> tables_grow (c_rs st) (c_rs st') \<and> tables_fit (c_rs st')"
  using assms
proof (induction fs arbitrary: ms st)
  case Nil
  then show ?case by (auto intro: tables_grow_refl)
next
  case (Cons f fs)
  obtain ms1 st1 where 1: "when_field rid f ms st = (True, ms1, st1)" "when_fields rid fs ms1 st1 = (True, ms', st')"
    using Cons.prems(1) by (auto split: prod.splits bool.splits)
  obtain c where c: "cond_of (c_rs st1) f = Some c" "ms1 = apply_cond c ms" "\<forall>b \<in> cond_bits c. b < 64"
    "tables_grow (c_rs st) (c_rs st1)" "tables_fit (c_rs st1)"
    using when_field_cond [OF 1(1) Cons.prems(2)] by blast
  obtain cs where cs: "map (cond_of (c_rs st')) fs = map Some cs" "ms' = fold apply_cond cs ms1"
    "\<forall>c \<in> set cs. \<forall>b \<in> cond_bits c. b < 64" "tables_grow (c_rs st1) (c_rs st')" "tables_fit (c_rs st')"
    using Cons.IH [OF 1(2) c(5)] by blast
  show ?case
    using c cs cond_of_grow [OF cs(4) c(1)] tables_grow_trans [OF c(4) cs(4)]
    by (intro exI [of _ "c # cs"]) auto
qed

lemma expansion_bound: "length ms \<le> 64 \<Longrightarrow> when_fields rid fs ms st = (True, ms', st') \<Longrightarrow> length ms' \<le> 64"
proof (induction fs arbitrary: ms st)
  case (Cons f fs)
  obtain ms1 st1 where 1: "when_field rid f ms st = (True, ms1, st1)" "when_fields rid fs ms1 st1 = (True, ms', st')"
    using Cons.prems(2) by (auto split: prod.splits bool.splits)
  have "length ms1 \<le> 64"
    using 1(1) Cons.prems(1)
    by (auto simp: when_field_def bool_cond_def list_cond_def usage_cond_def time_cond_def add_one_of_def add_bit_def
        add_none_of_def kMaxExpansionPerRule_def length_concat comp_def split_beta sum_list_triv
        split: prod.splits option.splits cond_kind.splits sum.splits if_splits)
  then show ?case using Cons.IH [OF _ 1(2)] by simp
qed simp

text \<open>
  C4: the compiled form of a condition is its meaning. When the condition clause (when) of a rule compiles, every
  field denotes a constraint on the feature word (a bit set or clear, one of a list, none of a list;
  thresholds and time windows by their index in the compiled tables), and a feature word matches one
  of the compiled (mask, value) pairs iff it satisfies all constraints, provided no bit is required
  both set and clear. The clause expands to at most 64 pairs.
\<close>

theorem compile_when_correct:
  assumes "compile_when (MapNode fs l) rid [(0, 0)] st = (True, ms, st')" "tables_fit (c_rs st)"
  shows "\<exists>cs. map (cond_of (c_rs st')) fs = map Some cs \<and> length ms \<le> 64 \<and>
           (no_conflict cs \<longrightarrow> (\<forall>f. matches_word ms f \<longleftrightarrow> (\<forall>c \<in> set cs. holds f c)))"
proof -
  have w: "when_fields rid fs [(0, 0)] st = (True, ms, st')" using assms(1) by (simp add: compile_when_def)
  obtain cs where cs: "map (cond_of (c_rs st')) fs = map Some cs" "ms = fold apply_cond cs [(0, 0)]"
    "\<forall>c \<in> set cs. \<forall>b \<in> cond_bits c. b < 64"
    using when_fields_conds [OF w assms(2)] by blast
  have "pairs_from {} {} [(0, 0)]" by (simp add: pairs_from_def)
  then have "matches_word ms f \<longleftrightarrow> (\<forall>c \<in> set cs. holds f c)" if "no_conflict cs" for f
    using apply_conds_matches [of "{}" "{}" "[(0, 0)]" cs f] cs(2,3) that
    by (simp add: no_conflict_def matches_word_def)
  then show ?thesis using cs(1) expansion_bound [OF _ w] by (intro exI [of _ cs]) auto
qed

definition sample_fields :: "(string \<times> Node) list" where
  "sample_fields = [(''rat'', SeqNode [ScalarNode ''LTE'' 3, ScalarNode ''nr'' 3] 3), (''roaming'', ScalarNode ''true'' 4)]"

definition sample_compiler :: Compiler where
  "sample_compiler = fresh_compiler 0 [] 1 []"

lemma sample_names: "parse_rat ''LTE'' = Some kLte" "parse_rat ''nr'' = Some kNr" "as_bool (ScalarNode ''true'' 4) = Some True"
  by code_simp+

lemma sample_compiles:
  "compile_when (MapNode sample_fields 2) 7 [(0, 0)] sample_compiler =
     (True, [(0x20000001, 0x20000001), (0x20000002, 0x20000002)], sample_compiler)"
  by (simp add: compile_when_def sample_fields_def when_field_def cond_kind_def kBoolConds_def list_cond_def as_list_def
      rat_ref_def is_scalar_def node_scalar_def sample_names feat_defs add_one_of_def kMaxExpansionPerRule_def
      bool_cond_def add_bit_def feat_bit_def)

theorem compile_when_correct_witness:
  "tables_fit (c_rs sample_compiler) \<and>
   (\<exists>cs. map (cond_of (c_rs sample_compiler)) sample_fields = map Some cs \<and>
     (no_conflict cs \<longrightarrow> (\<forall>f. matches_word [(0x20000001, 0x20000001), (0x20000002, 0x20000002)] f \<longleftrightarrow>
        (\<forall>c \<in> set cs. holds f c))))"
proof -
  have fit: "tables_fit (c_rs sample_compiler)"
    by (simp add: tables_fit_def sample_compiler_def fresh_compiler_def empty_RuleSet_def)
  then show ?thesis using compile_when_correct [OF sample_compiles fit] by blast
qed

text \<open>
  C34: conditions that contradict each other are not recognised: a rule that asks for usage above and
  below the same percentage, which no request satisfies, compiles to a rule that fires for every
  request above it.
\<close>

theorem contradiction_still_fires:
  assumes "compile_when (MapNode [(''usage_above'', v), (''usage_below'', v)] l) rid [(0, 0)] st = (True, ms, st')"
    and "tables_fit (c_rs st)"
  shows "\<exists>b. map (cond_of (c_rs st')) [(''usage_above'', v), (''usage_below'', v)] =
              map Some [NeedBit b True, NeedBit b False] \<and>
           (\<forall>f. \<not> (holds f (NeedBit b True) \<and> holds f (NeedBit b False))) \<and>
           (\<forall>f. matches_word ms f \<longleftrightarrow> bit f b)"
proof -
  let ?fs = "[(''usage_above'', v), (''usage_below'', v)]"
  have w: "when_fields rid ?fs [(0, 0)] st = (True, ms, st')" using assms(1) by (simp add: compile_when_def)
  obtain cs where cs: "map (cond_of (c_rs st')) ?fs = map Some cs" "ms = fold apply_cond cs [(0, 0)]"
    "\<forall>c \<in> set cs. \<forall>b \<in> cond_bits c. b < 64"
    using when_fields_conds [OF w assms(2)] by blast
  obtain b where "cs = [NeedBit b True, NeedBit b False]"
    using cs(1) by (cases "threshold_bit (c_rs st') v") (auto simp: cond_of_def cond_kind_def kBoolConds_def)
  then have "ms = [(feat_bit b OR feat_bit b, feat_bit b)]" "b < 64" using cs(2,3) by (simp_all add: add_bit_def)
  then have "matches_word ms f \<longleftrightarrow> bit f b" for f
    by (auto simp: matches_word_def and_eq_iff_bits bit_feat_bit)
  then show ?thesis using cs(1) \<open>cs = _\<close> by (intro exI [of _ b]) auto
qed

lemma percent_80: "as_permille (ScalarNode ''80%'' 5) = Some 800"
  using as_permille_percent [of 80 5] by (simp add: dec_20)

lemma contradiction_compiles:
  "\<exists>ms st'. compile_when (MapNode [(''usage_above'', ScalarNode ''80%'' 5), (''usage_below'', ScalarNode ''80%'' 5)] 5) 7
      [(0, 0)] sample_compiler = (True, ms, st')"
  by (simp add: compile_when_def when_field_def cond_kind_def kBoolConds_def usage_cond_def percent_80
      intern_usage_threshold_def sample_compiler_def fresh_compiler_def empty_RuleSet_def kMaxUsageThresholds_def)

theorem contradiction_still_fires_witness:
  "tables_fit (c_rs sample_compiler) \<and>
   (\<exists>ms st' b. compile_when (MapNode [(''usage_above'', ScalarNode ''80%'' 5), (''usage_below'', ScalarNode ''80%'' 5)] 5) 7
      [(0, 0)] sample_compiler = (True, ms, st') \<and> (\<forall>f. matches_word ms f \<longleftrightarrow> bit f b))"
proof -
  have fit: "tables_fit (c_rs sample_compiler)"
    by (simp add: tables_fit_def sample_compiler_def fresh_compiler_def empty_RuleSet_def)
  obtain ms st' where c: "compile_when (MapNode [(''usage_above'', ScalarNode ''80%'' 5), (''usage_below'', ScalarNode ''80%'' 5)] 5) 7
      [(0, 0)] sample_compiler = (True, ms, st')" using contradiction_compiles by blast
  then show ?thesis using contradiction_still_fires [OF c fit] fit by blast
qed

end
