(* ===== verification/Rule_Order.thy ===== *)
theory Rule_Order
  imports Rule_Compiler
begin

text \<open>
  The evaluation order of a compiled rule set and the shadowing lint: rules are scanned by priority and,
  within a priority, in the order of the file; a rule reported as shadowed is never the one that fires.
\<close>

unbundle bit_operations_syntax

section \<open>Shadowing\<close>

lemma shadows_applies:
  assumes "shadows a b" "rule_applies f rec b"
  shows "rule_applies f rec a"
proof -
  have m: "r_match_mask b AND r_match_mask a = r_match_mask a" "r_match_value b AND r_match_mask a = r_match_value a"
    and p: "r_plan_mask a = 0 \<or> (r_plan_mask b \<noteq> 0 \<and> r_plan_mask b AND NOT (r_plan_mask a) = 0)"
    using assms(1) by (auto simp: shadows_def)
  have "f AND r_match_mask b = r_match_value b"
    using assms(2) and_eq_iff_bits [of f "r_match_mask b" "r_match_value b"] by (simp add: rule_applies_def)
  then have "f AND r_match_mask a = r_match_value a"
    using m by (metis and.assoc)
  moreover have "bit (r_plan_mask b) i \<Longrightarrow> r_plan_mask a = 0 \<or> bit (r_plan_mask a) i" for i
    using p bit_imp_le_length [of "r_plan_mask b" i] by (auto simp: and_zero_iff_bits bit_not_iff)
  ultimately show ?thesis
    using assms(2) p and_eq_iff_bits [of f "r_match_mask a" "r_match_value a"] by (auto simp: rule_applies_def)
qed

text \<open>A subscriber (or none) whose plan lets a rule apply, and one whose plan does not.\<close>

definition on_plan :: "nat \<Rightarrow> SubscriberRecord" where
  "on_plan j = empty_record\<lparr> sr_plan_id := of_nat j \<rparr>"

lemma unat_on_plan: "j < 32 \<Longrightarrow> unat (sr_plan_id (on_plan j)) = j"
  by (simp add: on_plan_def unat_of_nat take_bit_nat_eq_self)

lemma applies_on_plan:
  "j < 32 \<Longrightarrow> bit (r_plan_mask b) j \<Longrightarrow> f AND r_match_mask b = r_match_value b \<Longrightarrow> rule_applies f (Some (on_plan j)) b"
  using and_eq_iff_bits [of f "r_match_mask b" "r_match_value b"]
  by (simp add: rule_applies_def unat_on_plan kMaxPlans_def)

lemma applies_no_plan:
  "r_plan_mask b = 0 \<Longrightarrow> f AND r_match_mask b = r_match_value b \<Longrightarrow> rule_applies f rec b"
  using and_eq_iff_bits [of f "r_match_mask b" "r_match_value b"] by (simp add: rule_applies_def)

lemma applies_some_plan:
  "\<exists>rec. \<forall>f. f AND r_match_mask b = r_match_value b \<longrightarrow> rule_applies f rec b"
proof (cases "r_plan_mask b = 0")
  case True
  then show ?thesis using applies_no_plan by blast
next
  case False
  then obtain j where j: "bit (r_plan_mask b) j" by (metis bit_eqI bit_0_eq bot_apply bot_bool_def)
  then have "j < 32" using bit_imp_le_length [OF j] by simp
  then show ?thesis using applies_on_plan j by blast
qed

lemma covers_shadows:
  assumes sat: "r_match_value b AND r_match_mask b = r_match_value b"
    and covers: "\<And>f rec. rule_applies f rec b \<Longrightarrow> rule_applies f rec a" and ids: "r_id a \<noteq> r_id b"
  shows "shadows a b"
proof -
  let ?mb = "r_match_mask b" and ?vb = "r_match_value b" and ?ma = "r_match_mask a" and ?va = "r_match_value a"
  obtain rec where rec: "\<And>f. f AND ?mb = ?vb \<Longrightarrow> rule_applies f rec b" using applies_some_plan by blast
  have both: "f AND ?ma = ?va" if "f AND ?mb = ?vb" for f
    using covers [OF rec [OF that]] and_eq_iff_bits [of f ?ma ?va] by (simp add: rule_applies_def)
  have va: "?vb AND ?ma = ?va" by (rule both [OF sat])
  have sat_bits: "bit ?mb n" if "bit ?vb n" for n using that arg_cong [OF sat, of "\<lambda>w. bit w n"] by (simp add: bit_and_iff)
  have "bit ?mb i" if "bit ?ma i" for i
  proof (rule ccontr)
    assume out: "\<not> bit ?mb i"
    have i: "i < 64" using bit_imp_le_length [OF that] by simp
    have "(?vb XOR push_bit i 1) AND ?mb = ?vb"
      using out sat_bits by (intro bit_word_eqI) (auto simp: bit_and_iff bit_xor_iff bit_push_bit_one_iff simp del: push_bit_of_1)
    then have "(?vb XOR push_bit i 1) AND ?ma = ?vb AND ?ma" using both va by simp
    then have "bit ((?vb XOR push_bit i 1) AND ?ma) i = bit (?vb AND ?ma) i" by simp
    then show False using that i by (simp add: bit_and_iff bit_xor_iff bit_push_bit_one_iff del: push_bit_of_1)
  qed
  then have mask: "?mb AND ?ma = ?ma" by (auto simp: bit_eq_iff bit_and_iff)
  have "bit (r_plan_mask a) j" if "r_plan_mask a \<noteq> 0" "bit (r_plan_mask b) j" for j
  proof -
    have j: "j < 32" using bit_imp_le_length [OF that(2)] by simp
    show ?thesis
      using covers [OF applies_on_plan [OF j that(2) sat]] that(1) by (simp add: rule_applies_def unat_on_plan [OF j])
  qed
  moreover have "r_plan_mask b \<noteq> 0" if "r_plan_mask a \<noteq> 0"
    using covers [OF applies_no_plan [OF _ sat, of None]] that by (auto simp: rule_applies_def)
  ultimately show ?thesis
    using ids mask va by (auto simp: shadows_def and_zero_iff_bits bit_not_iff)
qed

lemma shadow_warnings_iff:
  "w \<in> set (shadow_warnings before rules) \<longleftrightarrow>
     (\<exists>pre b post a. rules = pre @ b # post \<and> List.find (\<lambda>a. shadows a b) (before @ pre) = Some a \<and> w = shadow_text a b)"
proof (induction rules arbitrary: before)
  case (Cons r rules)
  have split: "(\<exists>pre b post a. r # rules = pre @ b # post \<and> P pre b a) \<longleftrightarrow>
      (\<exists>a. P [] r a) \<or> (\<exists>pre b post a. rules = pre @ b # post \<and> P (r # pre) b a)" for P
    by (auto simp: Cons_eq_append_conv)
  show ?case unfolding split by (cases "List.find (\<lambda>a. shadows a r) before") (auto simp: Cons.IH)
qed simp

text \<open>
  C12: the shadowing lint is exact. A warning is given for a rule precisely when an earlier rule with another
  id shadows it, and (for a rule that some feature word can match) the bit test the lint uses is equivalent
  to what the warning says: on every feature word and every subscriber, known or not, where the later rule
  applies, the earlier one applies too, so the later rule is never the first match.
\<close>

theorem shadow_lint_exact:
  "(w \<in> set (shadow_warnings [] rules) \<longleftrightarrow>
      (\<exists>pre b post a. rules = pre @ b # post \<and> List.find (\<lambda>a. shadows a b) pre = Some a \<and> w = shadow_text a b)) \<and>
   (r_match_value b AND r_match_mask b = r_match_value b \<longrightarrow>
      (shadows a b \<longleftrightarrow> r_id a \<noteq> r_id b \<and> (\<forall>f rec. rule_applies f rec b \<longrightarrow> rule_applies f rec a)))"
  using shadow_warnings_iff [of w "[]" rules] shadows_applies covers_shadows [of b a]
  by (auto simp: shadows_def)

definition lint_general :: CompiledRule where
  "lint_general = \<lparr> r_match_mask = 3, r_match_value = 1, r_plan_mask = 6, r_id = 10, r_priority = 5, r_action = zero_action \<rparr>"

definition lint_special :: CompiledRule where
  "lint_special = lint_general\<lparr> r_match_mask := 7, r_match_value := 5, r_plan_mask := 2, r_id := 11 \<rparr>"

theorem shadow_lint_exact_witness:
  "r_match_value lint_special AND r_match_mask lint_special = r_match_value lint_special \<and>
   rule_applies 5 (Some (on_plan 1)) lint_special \<and> rule_applies 5 (Some (on_plan 1)) lint_general \<and>
   \<not> shadows lint_special lint_general"
proof -
  have "r_match_value lint_special AND r_match_mask lint_special = r_match_value lint_special"
    "shadows lint_general lint_special" "\<not> shadows lint_special lint_general"
    "bit (r_plan_mask lint_special) 1" "5 AND r_match_mask lint_special = r_match_value lint_special"
    by code_simp+
  moreover from this have "rule_applies 5 (Some (on_plan 1)) lint_special"
    by (intro applies_on_plan) simp_all
  ultimately show ?thesis
    using shadow_lint_exact [of "[]" "[]" lint_special lint_general] by blast
qed

end
