(* ===== verification/Rule_Wf.thy ===== *)
theory Rule_Wf
  imports Rule_Conditions Rule_Order
begin

text \<open>
  What every compiled rule set satisfies: the invariant of the compiler's tables, that a member
  function that fails leaves an error, and from them that a rules file either compiles to a
  well-formed rule set or is rejected with at least one error.
\<close>

unbundle bit_operations_syntax

section \<open>Steps of the compiler\<close>

text \<open>Compiling a part of a rule only adds diagnostics, thresholds, windows and seen ids.\<close>

definition grows :: "Compiler \<Rightarrow> Compiler \<Rightarrow> bool" where
  "grows st st' \<longleftrightarrow>
     tables_grow (c_rs st) (c_rs st') \<and> (tables_fit (c_rs st) \<longrightarrow> tables_fit (c_rs st')) \<and>
     c_plan_ids st' = c_plan_ids st \<and> c_redirect_ids st' = c_redirect_ids st \<and>
     set (c_seen_rule_ids st) \<subseteq> set (c_seen_rule_ids st') \<and> (\<exists>es. c_errors st' = c_errors st @ es)"

lemma grows_refl [simp]: "grows st st"
  by (simp add: grows_def tables_grow_refl)

lemma grows_trans: "grows a b \<Longrightarrow> grows b c \<Longrightarrow> grows a c"
  unfolding grows_def by (auto intro: tables_grow_trans)

lemma grows_err [simp]: "grows st (c_err m l st)" "c_errors (c_err m l st) \<noteq> []"
  by (simp_all add: grows_def c_err_def tables_grow_refl)

lemma grows_warn [simp]: "grows st (c_warn m st)"
  by (simp add: grows_def c_warn_def tables_grow_refl)

lemma grows_keys [simp]: "grows st (check_unknown_keys n known st)"
proof -
  have "grows st (foldl (\<lambda>st (k, v). if k \<in> set known then st else c_warn (unknown_key_text k (node_line v)) st) st fs)" for fs
  proof (induction fs arbitrary: st)
    case (Cons f fs)
    show ?case using Cons.IH by (cases f) (auto intro: grows_trans [OF grows_warn])
  qed simp
  then show ?thesis by (simp add: check_unknown_keys_def)
qed

lemma grows_errors: "grows st st' \<Longrightarrow> c_errors st \<noteq> [] \<Longrightarrow> c_errors st' \<noteq> []"
  by (auto simp: grows_def)

definition judged :: "Compiler \<Rightarrow> bool \<times> 'a \<times> Compiler \<Rightarrow> bool" where
  "judged st r \<longleftrightarrow> (case r of (b, x, st') \<Rightarrow> grows st st' \<and> (b \<or> c_errors st' \<noteq> []))"

lemma judged_intros [simp]:
  "judged st (True, x, st)" "judged st (False, x, c_err m l st)" "judged st (True, x, c_warn m st)"
  by (simp_all add: judged_def)

lemma judged_trans: "grows st st' \<Longrightarrow> judged st' r \<Longrightarrow> judged st r"
  by (auto simp: judged_def intro: grows_trans)

lemma judgedD: "judged st (b, x, st') \<Longrightarrow> grows st st'" "judged st (False, x, st') \<Longrightarrow> c_errors st' \<noteq> []"
  by (simp_all add: judged_def)

section \<open>Plans and conditions\<close>

lemma judged_plan_ref: "judged st (plan_ref item out st)"
  by (simp add: plan_ref_def split: option.split)

lemma judged_plan_refs:
  "\<not> ok \<Longrightarrow> c_errors st \<noteq> [] \<Longrightarrow> judged st (plan_refs items ok out st)"
  "ok \<Longrightarrow> judged st (plan_refs items ok out st)"
proof -
  have "ok \<or> c_errors st \<noteq> [] \<Longrightarrow> judged st (plan_refs items ok out st)"
  proof (induction items arbitrary: ok out st)
    case Nil
    then show ?case by (auto simp: judged_def)
  next
    case (Cons item items)
    obtain b out' st' where r: "plan_ref item out st = (b, out', st')" by (metis prod.collapse)
    have j: "judged st (b, out', st')" using judged_plan_ref [of st item out] r by simp
    then have "judged st' (plan_refs items (b \<and> ok) out' st')"
      using Cons.prems by (intro Cons.IH) (auto simp: judged_def grows_def)
    then show ?case using judged_trans [OF judgedD(1) [OF j]] r by simp
  qed
  then show "\<not> ok \<Longrightarrow> c_errors st \<noteq> [] \<Longrightarrow> judged st (plan_refs items ok out st)"
    "ok \<Longrightarrow> judged st (plan_refs items ok out st)" by blast+
qed

lemma judged_rule_plans: "judged st (rule_plans item st)"
  by (simp add: rule_plans_def resolve_plan_mask_def judged_plan_ref judged_plan_refs split: option.split Node.split)

lemma judged_list_cond: "judged st (list_cond positive read node rid ms st)"
  by (auto simp: list_cond_def add_one_of_def split: sum.split)

lemma judged_intern_threshold:
  "grows st (snd (intern_usage_threshold pm line st)) \<and>
   (fst (intern_usage_threshold pm line st) = None \<longrightarrow> c_errors (snd (intern_usage_threshold pm line st)) \<noteq> [])"
  by (auto simp: intern_usage_threshold_def Let_def grows_def tables_grow_refl tables_grow_add tables_fit_def c_err_def
      split: option.split)

lemma judged_intern_window:
  "grows st (snd (intern_time_window s e line st)) \<and>
   (fst (intern_time_window s e line st) = None \<longrightarrow> c_errors (snd (intern_time_window s e line st)) \<noteq> [])"
  by (auto simp: intern_time_window_def Let_def grows_def tables_grow_refl tables_grow_add tables_fit_def c_err_def
      split: option.split)

lemma judged_when_field: "judged st (when_field rid field ms st)"
proof -
  have "judged st (bool_cond key b node ms st)" for key b node
    by (simp add: bool_cond_def split: option.split)
  moreover have "judged st (usage_cond key want node ms st)" for key want node
    using judged_intern_threshold [of st _ "node_line node"]
    by (auto simp: usage_cond_def judged_def split: option.split prod.splits) (metis fst_conv snd_conv)+
  moreover have "judged st (time_cond key inside node ms st)" for key inside node
    using judged_intern_window [of st _ _ "node_line node"]
    by (auto simp: time_cond_def judged_def split: option.split prod.splits) (metis fst_conv snd_conv)+
  ultimately show ?thesis
    by (simp add: when_field_def judged_list_cond split_beta split: option.split cond_kind.split)
qed

lemma judged_when_fields: "judged st (when_fields rid fs ms st)"
proof (induction fs arbitrary: ms st)
  case (Cons f fs)
  obtain b ms1 st1 where r: "when_field rid f ms st = (b, ms1, st1)" by (metis prod.collapse)
  have j: "judged st (b, ms1, st1)" using judged_when_field [of st rid f ms] r by simp
  show ?case using r j judged_trans [OF judgedD(1) [OF j] Cons.IH] by (cases b) simp_all
qed simp

lemma judged_rule_when: "judged st (rule_when item rid st)"
  by (simp add: rule_when_def compile_when_def judged_when_fields split: option.split Node.split)

section \<open>Actions\<close>

text \<open>What the fields of an action keep, and what a compiled action satisfies.\<close>

definition act_fields_ok :: "Compiler \<Rightarrow> Action \<Rightarrow> bool" where
  "act_fields_ok st a \<longleftrightarrow>
     a_verdict a \<in> range verdict_u8 \<and> unat (a_reason a) < kReasonCount \<and>
     (a_redirect_id a = 0 \<or> a_redirect_id a \<in> ran (c_redirect_ids st))"

definition act_ok :: "Compiler \<Rightarrow> Action \<Rightarrow> bool" where
  "act_ok st a \<longleftrightarrow> act_fields_ok st a \<and> (a_verdict a = verdict_u8 kRedirect \<longrightarrow> a_redirect_id a \<noteq> 0)"

lemma act_ok_grows: "grows st st' \<Longrightarrow> act_ok st' a = act_ok st a" "grows st st' \<Longrightarrow> act_fields_ok st' a = act_fields_ok st a"
  by (simp_all add: act_ok_def act_fields_ok_def grows_def)

definition keeps :: "(Compiler \<Rightarrow> Action \<Rightarrow> bool) \<Rightarrow> (Compiler \<Rightarrow> Action \<Rightarrow> bool) \<Rightarrow> action_step \<Rightarrow> bool" where
  "keeps P Q f \<longleftrightarrow> (\<forall>n a st. judged st (f n a st) \<and>
     (\<forall>a' st'. P st a \<longrightarrow> f n a st = (True, a', st') \<longrightarrow> Q st' a'))"

lemma keeps_then:
  assumes "keeps P Q f" "keeps Q R g"
  shows "keeps P R (then_step f g)"
  unfolding keeps_def
proof (intro allI conjI impI)
  fix n a st
  obtain b a1 st1 where r: "f n a st = (b, a1, st1)" by (metis prod.collapse)
  have j: "judged st (b, a1, st1)" using assms(1) r unfolding keeps_def by metis
  have g: "judged st1 (g n a1 st1)" using assms(2) unfolding keeps_def by blast
  show "judged st (then_step f g n a st)"
    using r j judged_trans [OF judgedD(1) [OF j] g] by (cases b) (simp_all add: then_step_def)
  fix a' st'
  assume "P st a" "then_step f g n a st = (True, a', st')"
  then show "R st' a'"
    using assms r unfolding keeps_def then_step_def by (cases b) (auto, blast)
qed

lemma keeps_field:
  assumes "\<And>st v x a. read st v = Some x \<Longrightarrow> P st a \<Longrightarrow> P st (put x a)"
  shows "keeps P P (action_field key read msg put)"
  using assms by (auto simp: keeps_def action_field_def split: option.split option.splits)

lemma verdict_range [simp]: "verdict_u8 v \<in> range verdict_u8"
  by simp

lemma parse_reason_bound: "parse_reason s = Some r \<Longrightarrow> unat r < kReasonCount"
proof -
  assume "parse_reason s = Some r"
  then obtain i where "i < kReasonCount" "r = of_nat i"
    by (auto simp: parse_reason_def Let_def find_Some_iff)
  then show ?thesis by (simp add: kReasonCount_def unat_of_nat take_bit_nat_eq_self)
qed

lemma act_fields_upd [simp]:
  "act_fields_ok st (drop_inherit m a) = act_fields_ok st a"
  "act_fields_ok st (a\<lparr> a_qos_5qi := q \<rparr>) = act_fields_ok st a"
  "act_fields_ok st (a\<lparr> a_arp := p \<rparr>) = act_fields_ok st a"
  "act_fields_ok st (a\<lparr> a_ambr_ul_kbps := k \<rparr>) = act_fields_ok st a"
  "act_fields_ok st (a\<lparr> a_ambr_dl_kbps := k \<rparr>) = act_fields_ok st a"
  "act_fields_ok st (a\<lparr> a_quota_bytes := c \<rparr>) = act_fields_ok st a"
  "act_fields_ok st (a\<lparr> a_quota_validity_s := k \<rparr>) = act_fields_ok st a"
  "act_fields_ok st (a\<lparr> a_rating_group := k \<rparr>) = act_fields_ok st a"
  "act_fields_ok st (a\<lparr> a_inherit_mask := m \<rparr>) = act_fields_ok st a"
  "act_fields_ok st (a\<lparr> a_verdict := verdict_u8 v \<rparr>) = (unat (a_reason a) < kReasonCount \<and> (a_redirect_id a = 0 \<or> a_redirect_id a \<in> ran (c_redirect_ids st)))"
  "act_ok st (a\<lparr> a_set_flags := f \<rparr>) = act_ok st a"
  by (simp_all add: act_fields_ok_def act_ok_def drop_inherit_def)

lemma keeps_add_flags: "judged st (add_flags vs a st) \<and>
    (\<forall>a' st'. act_ok st a \<longrightarrow> add_flags vs a st = (True, a', st') \<longrightarrow> act_ok st' a')"
proof (induction vs arbitrary: a)
  case (Cons v vs)
  show ?case
  proof (cases "scalar_or_none parse_decision_flag v")
    case (Some f)
    then show ?thesis using Cons.IH [of "a\<lparr> a_set_flags := a_set_flags a OR f \<rparr>"] by simp
  qed simp
qed simp

lemma keeps_steps:
  "keeps act_fields_ok act_fields_ok action_verdict" "keeps act_fields_ok act_fields_ok action_reason"
  "keeps act_fields_ok act_fields_ok action_inherit" "keeps act_fields_ok act_fields_ok action_5qi"
  "keeps act_fields_ok act_fields_ok action_arp" "keeps act_fields_ok act_fields_ok action_qos_pair"
  "keeps act_fields_ok act_fields_ok action_ambr" "keeps act_fields_ok act_fields_ok action_quota"
  "keeps act_fields_ok act_fields_ok action_rating" "keeps act_fields_ok act_ok action_redirect"
  "keeps act_ok act_ok action_flags"
proof -
  show "keeps act_fields_ok act_fields_ok action_verdict"
    unfolding action_verdict_def by (rule keeps_field) (simp add: act_fields_ok_def)
  show "keeps act_fields_ok act_fields_ok action_reason"
    unfolding action_reason_def
    by (rule keeps_field) (auto simp: act_fields_ok_def scalar_or_none_def split: if_splits dest: parse_reason_bound)
  show "keeps act_fields_ok act_fields_ok action_inherit"
    by (auto simp: keeps_def action_inherit_def split: option.split option.splits sum.split sum.splits)
  show "keeps act_fields_ok act_fields_ok action_5qi"
    by (auto simp: keeps_def action_5qi_def Let_def act_ok_grows [OF grows_warn] split: option.split option.splits)
  show "keeps act_fields_ok act_fields_ok action_arp"
    unfolding action_arp_def by (rule keeps_field) simp
  show "keeps act_fields_ok act_fields_ok action_qos_pair"
    by (auto simp: keeps_def action_qos_pair_def Let_def act_ok_grows [OF grows_warn])
  show "keeps act_fields_ok act_fields_ok action_ambr"
    unfolding action_ambr_def
    by (intro keeps_then [where Q = act_fields_ok] keeps_field) (simp_all add: keeps_def)
  show "keeps act_fields_ok act_fields_ok action_quota"
    unfolding action_quota_def by (intro keeps_then [where Q = act_fields_ok] keeps_field) simp_all
  show "keeps act_fields_ok act_fields_ok action_rating"
    unfolding action_rating_def by (rule keeps_field) simp
  show "keeps act_fields_ok act_ok action_redirect"
    unfolding action_redirect_def
    by (rule keeps_then [where Q = act_fields_ok])
      (auto simp: keeps_def act_fields_ok_def act_ok_def ran_def split: option.split option.splits)
  show "keeps act_ok act_ok action_flags"
    using keeps_add_flags by (auto simp: keeps_def action_flags_def split: option.split option.splits)
qed

lemma keeps_parse_action: "keeps act_fields_ok act_ok parse_action"
proof -
  define body where "body = then_step action_verdict (then_step action_reason (then_step action_inherit (then_step action_5qi
    (then_step action_arp (then_step action_qos_pair (then_step action_ambr (then_step action_quota
      (then_step action_rating (then_step action_redirect action_flags)))))))))"
  have "keeps act_fields_ok act_ok body"
    unfolding body_def by (intro keeps_then) (rule keeps_steps)+
  then have b: "judged st (body n a st)" "act_fields_ok st a \<Longrightarrow> body n a st = (True, a', st') \<Longrightarrow> act_ok st' a'" for n a st a' st'
    unfolding keeps_def by blast+
  show ?thesis
    unfolding keeps_def parse_action_def body_def [symmetric]
    using b(1) [THEN judged_trans [OF grows_keys]] b(2) [OF iffD2 [OF act_ok_grows(2) [OF grows_keys]]]
    by (auto split: if_splits)
qed

section \<open>Matches\<close>

lemma and_self_bits: "v AND m = v \<longleftrightarrow> (\<forall>b. bit v b \<longrightarrow> bit m b)" for v m :: u64
proof
  assume "v AND m = v"
  then show "\<forall>b. bit v b \<longrightarrow> bit m b" by (metis bit_and_iff)
qed (auto simp: bit_eq_iff bit_and_iff)

definition pair_ok :: "u64 \<times> u64 \<Rightarrow> bool" where
  "pair_ok p \<longleftrightarrow> snd p AND fst p = snd p"

lemma pairs_ok_bits: "list_all pair_ok ms \<longleftrightarrow> (\<forall>m v b. (m, v) \<in> set ms \<longrightarrow> bit v b \<longrightarrow> bit m b)"
  by (auto simp: list_all_iff pair_ok_def and_self_bits)

lemma bit_foldl_feat: "bit (foldl (\<lambda>m b. m OR feat_bit b) m bs) i \<longleftrightarrow> bit m i \<or> (\<exists>b \<in> set bs. bit (feat_bit b) i)"
  by (induction bs arbitrary: m) (auto simp: bit_or_iff)

lemma apply_cond_ok:
  assumes "list_all pair_ok ms" "ms \<noteq> []"
  shows "list_all pair_ok (apply_cond c ms) \<and> apply_cond c ms \<noteq> []"
proof (cases c)
  case (NeedBit b want)
  then show ?thesis
    using assms by (cases want) (auto simp: pairs_ok_bits add_bit_def bit_or_iff)
next
  case (OneOf bs)
  then show ?thesis using assms unfolding pairs_ok_bits by (cases ms) (auto simp: bit_or_iff)
next
  case (NoneOf bs)
  then show ?thesis using assms by (auto simp: pairs_ok_bits add_none_of_def bit_foldl_feat)
qed

lemma apply_conds_ok:
  "list_all pair_ok ms \<Longrightarrow> ms \<noteq> [] \<Longrightarrow> list_all pair_ok (fold apply_cond cs ms) \<and> fold apply_cond cs ms \<noteq> []"
proof (induction cs arbitrary: ms)
  case (Cons c cs)
  then show ?case using apply_cond_ok [OF Cons.prems, of c] by simp
qed simp

lemma rule_when_ok:
  assumes "rule_when item rid st = (True, ms, st')" "tables_fit (c_rs st)"
  shows "list_all pair_ok ms \<and> ms \<noteq> [] \<and> length ms \<le> 64"
proof (cases "node_find item ''when''")
  case None
  then show ?thesis using assms(1) by (auto simp: rule_when_def pair_ok_def)
next
  case (Some w)
  then obtain fs l where w: "w = MapNode fs l" "when_fields rid fs [(0, 0)] st = (True, ms, st')"
    using assms(1) by (cases w) (auto simp: rule_when_def compile_when_def)
  obtain cs where "ms = fold apply_cond cs [(0, 0)]" using when_fields_conds [OF w(2) assms(2)] by blast
  then show ?thesis using apply_conds_ok [of "[(0, 0)]" cs] expansion_bound [OF _ w(2)] by (simp add: pair_ok_def)
qed

section \<open>Plans\<close>

definition plans_known :: "Compiler \<Rightarrow> u32 \<Rightarrow> bool" where
  "plans_known st m \<longleftrightarrow> (\<forall>b. bit m b \<longrightarrow> (\<exists>p \<in> ran (c_plan_ids st). unat p = b))"

lemma plan_ref_known:
  assumes "plan_ref item out st = (ok, out', st')" "plans_known st out"
  shows "plans_known st out'"
  using assms
  by (auto simp: plan_ref_def plans_known_def bit_or_iff bit_push_bit_one_iff ran_def simp del: push_bit_of_1
      split: if_splits option.splits) blast

lemma plans_known_grows: "grows st st' \<Longrightarrow> plans_known st' m = plans_known st m"
  by (simp add: plans_known_def grows_def)

lemma plan_refs_known:
  "plan_refs items ok out st = (ok', out', st') \<Longrightarrow> plans_known st out \<Longrightarrow> plans_known st out'"
proof (induction items arbitrary: ok out st)
  case (Cons item items)
  obtain b o1 s1 where r: "plan_ref item out st = (b, o1, s1)" by (metis prod.collapse)
  have g: "grows st s1" using judged_plan_ref [of st item out] r judgedD(1) by metis
  have "plan_refs items (b \<and> ok) o1 s1 = (ok', out', st')" using Cons.prems(1) r by simp
  then show ?case
    using Cons.IH plan_ref_known [OF r Cons.prems(2)] plans_known_grows [OF g] by blast
qed simp

lemma rule_plans_known:
  assumes "rule_plans item st = (ok, m, st')"
  shows "plans_known st m"
proof -
  have "plans_known st 0" by (simp add: plans_known_def)
  then show ?thesis
    using assms plan_ref_known [of _ 0 st ok m st'] plan_refs_known [of _ True 0 st ok m st']
    by (auto simp: rule_plans_def resolve_plan_mask_def split: option.splits Node.splits)
qed

section \<open>Well-formed rule sets\<close>

definition action_wf :: "RuleSet \<Rightarrow> Action \<Rightarrow> bool" where
  "action_wf rs a \<longleftrightarrow>
     a_verdict a \<in> range verdict_u8 \<and> unat (a_reason a) < kReasonCount \<and>
     (a_redirect_id a = 0 \<or> unat (a_redirect_id a) < length (rs_redirect_targets rs)) \<and>
     (a_verdict a = verdict_u8 kRedirect \<longrightarrow> a_redirect_id a \<noteq> 0)"

definition rule_wf :: "RuleSet \<Rightarrow> CompiledRule \<Rightarrow> bool" where
  "rule_wf rs r \<longleftrightarrow>
     r_id r \<noteq> 0 \<and> (\<forall>b. bit (r_plan_mask r) b \<longrightarrow> b < length (rs_plans rs)) \<and>
     r_match_value r AND r_match_mask r = r_match_value r \<and> action_wf rs (r_action r)"

definition rs_wf :: "RuleSet \<Rightarrow> bool" where
  "rs_wf rs \<longleftrightarrow>
     rs_ok rs \<and> length (rs_dnn_names rs) \<le> kMaxDnns \<and> length (rs_plan_names rs) = length (rs_plans rs) \<and>
     length (rs_redirect_targets rs) \<le> kMaxRedirects \<and> length (rs_rules rs) \<le> kMaxRules \<and>
     sorted (map r_priority (rs_rules rs)) \<and> (\<forall>r \<in> set (rs_rules rs). rule_wf rs r) \<and>
     action_wf rs (rs_default_action rs)"

text \<open>The invariant of the compiler's tables.\<close>

definition tables_ok :: "Compiler \<Rightarrow> bool" where
  "tables_ok st \<longleftrightarrow>
     tables_fit (c_rs st) \<and> length (rs_plans (c_rs st)) = length (rs_plan_names (c_rs st)) \<and>
     length (rs_plan_names (c_rs st)) \<le> kMaxPlans \<and> length (rs_redirect_targets (c_rs st)) \<le> kMaxRedirects \<and>
     (\<forall>name p. c_plan_ids st name = Some p \<longrightarrow>
        unat p < length (rs_plan_names (c_rs st)) \<and> rs_plan_names (c_rs st) ! unat p = name) \<and>
     (\<forall>name r. c_redirect_ids st name = Some r \<longrightarrow> r \<noteq> 0 \<and> unat r < length (rs_redirect_targets (c_rs st))) \<and>
     key_set_ok (rs_roaming_partners (c_rs st)) \<and> key_set_ok (rs_imei_blocklist (c_rs st))"

lemma tables_growD:
  assumes "tables_grow rs rs'"
  shows "rs_plans rs' = rs_plans rs" "rs_plan_names rs' = rs_plan_names rs" "rs_redirect_targets rs' = rs_redirect_targets rs"
    "rs_roaming_partners rs' = rs_roaming_partners rs" "rs_imei_blocklist rs' = rs_imei_blocklist rs"
    "rs_rules rs' = rs_rules rs" "rs_default_action rs' = rs_default_action rs"
  using assms by (auto simp: tables_grow_def)

lemma tables_ok_grows: "grows st st' \<Longrightarrow> tables_ok st \<Longrightarrow> tables_ok st'"
  unfolding tables_ok_def grows_def by (auto simp: tables_growD)

lemma wf_grows:
  assumes "tables_grow rs rs'"
  shows "action_wf rs' = action_wf rs" "rule_wf rs' = rule_wf rs"
proof -
  show a: "action_wf rs' = action_wf rs" by (rule HOL.ext) (simp add: action_wf_def tables_growD [OF assms])
  show "rule_wf rs' = rule_wf rs" by (rule HOL.ext) (simp add: rule_wf_def a tables_growD [OF assms])
qed

lemma act_ok_wf: "act_ok st a \<Longrightarrow> tables_ok st \<Longrightarrow> action_wf (c_rs st) a"
  by (auto simp: act_ok_def act_fields_ok_def action_wf_def tables_ok_def ran_def)

lemma plans_known_bound: "plans_known st m \<Longrightarrow> tables_ok st \<Longrightarrow> bit m b \<Longrightarrow> b < length (rs_plans (c_rs st))"
  by (fastforce simp: plans_known_def tables_ok_def ran_def)

lemma rule_act_ok:
  assumes "rule_act item rid st = (ok, a, st')"
  shows "judged st (ok, a, st') \<and> (ok \<longrightarrow> act_ok st' a)"
proof (cases "node_find item ''action''")
  case None
  then show ?thesis using assms by (auto simp: rule_act_def)
next
  case (Some act)
  then have r: "parse_action act rule_action st = (ok, a, st')" using assms by (simp add: rule_act_def)
  have "act_fields_ok st rule_action"
    using rangeI [of verdict_u8 kAllow]
    by (simp add: act_fields_ok_def rule_action_def zero_action_def kReasonCount_def)
  then show ?thesis using keeps_parse_action r unfolding keeps_def by metis
qed

lemma compile_body_ok:
  assumes "compile_body item rid prio st = (res, st')" "tables_ok st" "rid \<noteq> 0"
  shows "grows st st' \<and> (res = None \<longrightarrow> c_errors st' \<noteq> []) \<and>
    (\<forall>crs. res = Some crs \<longrightarrow> crs \<noteq> [] \<and> length crs \<le> 64 \<and>
       (\<forall>r \<in> set crs. rule_wf (c_rs st') r \<and> r_id r = rid \<and> r_priority r = prio))"
proof -
  obtain b1 m st1 where p: "rule_plans item st = (b1, m, st1)" by (metis prod.collapse)
  obtain b2 ms st2 where w: "rule_when item rid st1 = (b2, ms, st2)" by (metis prod.collapse)
  obtain b3 a st3 where c: "rule_act item rid st2 = (b3, a, st3)" by (metis prod.collapse)
  have j1: "judged st (b1, m, st1)" using judged_rule_plans [of st item] p by simp
  have j2: "judged st1 (b2, ms, st2)" using judged_rule_when [of st1 item rid] w by simp
  note j3 = rule_act_ok [OF c]
  note g1 = judgedD(1) [OF j1]
  note g2 = grows_trans [OF g1 judgedD(1) [OF j2]]
  note g3 = grows_trans [OF g2 judgedD(1) [OF conjunct1 [OF j3]]]
  show ?thesis
  proof (cases "b1 \<and> b2 \<and> b3")
    case True
    then have r: "res = Some (emit m rid prio a ms)" "st' = st3"
      using assms(1) p w c by (auto simp: compile_body_def)
    have "tables_fit (c_rs st1)" using tables_ok_grows [OF g1 assms(2)] by (simp add: tables_ok_def)
    then have ms: "list_all pair_ok ms" "ms \<noteq> []" "length ms \<le> 64" using rule_when_ok [of item rid st1 ms st2] w True by auto
    have a: "action_wf (c_rs st3) a" using act_ok_wf [of st3 a] tables_ok_grows [OF g3 assms(2)] j3 True by blast
    have "\<forall>b. bit m b \<longrightarrow> b < length (rs_plans (c_rs st3))"
      using plans_known_bound [OF rule_plans_known [OF p] assms(2)] g3 tables_growD(1) [of "c_rs st" "c_rs st3"]
      by (auto simp: grows_def)
    then have "\<forall>r \<in> set (emit m rid prio a ms). rule_wf (c_rs st3) r \<and> r_id r = rid \<and> r_priority r = prio"
      using ms(1) a assms(3) by (auto simp: emit_def rule_wf_def list_all_iff pair_ok_def)
    then show ?thesis using r g3 ms(2,3) by (auto simp: emit_def)
  next
    case False
    then have "res = None \<and> (\<not> b1 \<and> st' = st1 \<or> \<not> b2 \<and> st' = st2 \<or> \<not> b3 \<and> st' = st3)"
      using assms(1) p w c by (auto simp: compile_body_def split: bool.splits)
    then show ?thesis using g1 g2 g3 j1 j2 j3 by (auto simp: judged_def)
  qed
qed

lemma grows_seen: "grows st (st\<lparr> c_seen_rule_ids := rid # c_seen_rule_ids st \<rparr>)"
  by (auto simp: grows_def tables_grow_refl)

lemma ucast_u32: "v \<le> 0xFFFFFFFF \<Longrightarrow> ucast (ucast v :: u32) = v" for v :: u64
proof -
  assume "v \<le> 0xFFFFFFFF"
  then have "unat v < 2 ^ 32" by (simp add: word_le_nat_alt)
  then have "unat (take_bit 32 v) = unat v" by (simp add: unsigned_take_bit_eq take_bit_nat_eq_self)
  then have "take_bit 32 v = v" by (simp only: word_unat_eq_iff)
  moreover have "ucast (ucast v :: u32) = take_bit 32 v"
    by (rule bit_word_eqI) (auto simp: bit_simps)
  ultimately show ?thesis by simp
qed

text \<open>What one entry of the rules list contributes.\<close>

definition rules_of_item :: "Node \<Rightarrow> CompiledRule list \<Rightarrow> bool" where
  "rules_of_item item crs \<longleftrightarrow>
     crs \<noteq> [] \<and> length crs \<le> 64 \<and>
     (\<forall>r \<in> set crs. find_uint item ''id'' = Some (ucast (r_id r)) \<and> find_uint item ''priority'' = Some (ucast (r_priority r)))"

lemma compile_rule_ok:
  assumes "compile_rule item st = (res, st')" "tables_ok st"
  shows "grows st st' \<and> (res = None \<longrightarrow> c_errors st' \<noteq> []) \<and>
    (\<forall>crs. res = Some crs \<longrightarrow> rules_of_item item crs \<and> (\<forall>r \<in> set crs. rule_wf (c_rs st') r) \<and>
       (\<exists>rid. find_uint item ''id'' = Some (ucast rid) \<and> rid \<notin> set (c_seen_rule_ids st) \<and> rid \<in> set (c_seen_rule_ids st')))"
proof (cases "find_uint item ''id''")
  case None
  then show ?thesis using assms(1) by (auto simp: compile_rule_def)
next
  case (Some i)
  define rid :: u32 where "rid = ucast i"
  define st1 where "st1 = st\<lparr> c_seen_rule_ids := rid # c_seen_rule_ids st \<rparr>"
  have g: "grows st st1" unfolding st1_def by (rule grows_seen)
  have in1: "rid \<in> set (c_seen_rule_ids st1)" by (simp add: st1_def)
  show ?thesis
  proof (cases "i = 0 \<or> i > 0xFFFFFFFF \<or> rid \<in> set (c_seen_rule_ids st)")
    case True
    then show ?thesis using Some assms(1) by (auto simp: compile_rule_def rid_def Let_def split: if_splits)
  next
    case False
    then have i: "ucast rid = i" "rid \<noteq> 0" using ucast_u32 [of i] by (auto simp: rid_def not_less)
    show ?thesis
    proof (cases "\<exists>p. find_uint item ''priority'' = Some p \<and> p \<le> 0xFFFFFFFF")
      case True
      then obtain p where p: "find_uint item ''priority'' = Some p" "p \<le> 0xFFFFFFFF" by blast
      have b: "compile_body item rid (ucast p) st1 = (res, st')"
        using assms(1) Some False p leD [OF p(2)] by (auto simp: compile_rule_def rid_def st1_def Let_def)
      note ok = compile_body_ok [OF b tables_ok_grows [OF g assms(2)] i(2)]
      have "rid \<in> set (c_seen_rule_ids st')" using ok in1 by (auto simp: grows_def)
      then show ?thesis
        using ok g False Some p i ucast_u32 [OF p(2)] by (auto simp: rules_of_item_def intro: grows_trans)
    next
      case none: False
      then have "res = None \<and> (\<exists>m l. st' = c_err m l st1)"
        using assms(1) Some False by (auto simp: compile_rule_def rid_def st1_def Let_def not_le split: option.splits)
      then show ?thesis using grows_trans [OF g grows_err(1)] by auto
    qed
  qed
qed

text \<open>The rules compiled so far are well formed and within the table.\<close>

definition rules_ok :: "Compiler \<Rightarrow> bool" where
  "rules_ok st \<longleftrightarrow> tables_ok st \<and> length (rs_rules (c_rs st)) \<le> kMaxRules \<and> (\<forall>r \<in> set (rs_rules (c_rs st)). rule_wf (c_rs st) r)"

lemma rules_ok_grows: "grows st st' \<Longrightarrow> rules_ok st \<Longrightarrow> rules_ok st'"
  using tables_ok_grows [of st st'] wf_grows(2) [of "c_rs st" "c_rs st'"] tables_growD(6) [of "c_rs st" "c_rs st'"]
  by (auto simp: rules_ok_def grows_def)

definition add_rules :: "CompiledRule list \<Rightarrow> Compiler \<Rightarrow> Compiler" where
  "add_rules crs st = st\<lparr> c_rs := (c_rs st)\<lparr> rs_rules := rs_rules (c_rs st) @ crs \<rparr> \<rparr>"

lemma add_rules_simps [simp]:
  "c_errors (add_rules crs st) = c_errors st" "c_seen_rule_ids (add_rules crs st) = c_seen_rule_ids st"
  "rs_rules (c_rs (add_rules crs st)) = rs_rules (c_rs st) @ crs"
  "rs_default_action (c_rs (add_rules crs st)) = rs_default_action (c_rs st)"
  "action_wf (c_rs (add_rules crs st)) = action_wf (c_rs st)" "rule_wf (c_rs (add_rules crs st)) = rule_wf (c_rs st)"
  "tables_ok (add_rules crs st) = tables_ok st"
proof -
  show a: "action_wf (c_rs (add_rules crs st)) = action_wf (c_rs st)"
    by (rule HOL.ext) (simp add: add_rules_def action_wf_def)
  show "rule_wf (c_rs (add_rules crs st)) = rule_wf (c_rs st)"
    by (rule HOL.ext) (simp add: rule_wf_def a, simp add: add_rules_def)
qed (simp_all add: add_rules_def tables_ok_def tables_fit_def)

text \<open>One entry of the list: skipped with an error, stopped at the table's limit, or compiled.\<close>

definition item_step :: "Node \<Rightarrow> Compiler \<Rightarrow> bool \<times> Compiler" where
  "item_step item st =
     (if \<not> is_map item then (True, c_err ''each rule must be a mapping'' (node_line item) st)
      else
        (case compile_rule item (check_unknown_keys item rule_keys st) of
           (None, st) \<Rightarrow> (True, st)
         | (Some crs, st) \<Rightarrow>
             if length (rs_rules (c_rs st)) + length crs > kMaxRules then
               (False, c_err (''rule table exceeds '' @ dec_of_nat kMaxRules @ '' compiled rules'') (node_line item) st)
             else (True, add_rules crs st)))"

lemma rule_items_step:
  "rule_items (item # items) st = (case item_step item st of (go, st') \<Rightarrow> if go then rule_items items st' else st')"
  by (simp add: item_step_def add_rules_def split: prod.split option.split)

lemma item_step_ok:
  assumes "item_step item st = (go, st')" "rules_ok st"
  shows "rules_ok st' \<and>
    (grows st st' \<and> c_errors st' \<noteq> [] \<or>
     go \<and> (\<exists>st1 crs rid. grows st st1 \<and> st' = add_rules crs st1 \<and> rules_of_item item crs \<and>
       find_uint item ''id'' = Some (ucast rid) \<and> rid \<notin> set (c_seen_rule_ids st) \<and> rid \<in> set (c_seen_rule_ids st')))"
proof (cases "is_map item")
  case False
  then show ?thesis using assms rules_ok_grows [OF grows_err(1) assms(2)] by (auto simp: item_step_def)
next
  case True
  define st0 where "st0 = check_unknown_keys item rule_keys st"
  have g0: "grows st st0" by (simp add: st0_def)
  have r0: "rules_ok st0" by (rule rules_ok_grows [OF g0 assms(2)])
  obtain res st1 where c: "compile_rule item st0 = (res, st1)" by fastforce
  have t0: "tables_ok st0" using r0 by (simp add: rules_ok_def)
  note ok = compile_rule_ok [OF c t0]
  have g1: "grows st st1" using grows_trans [OF g0] ok by blast
  have r1: "rules_ok st1" by (rule rules_ok_grows [OF g1 assms(2)])
  have seen: "set (c_seen_rule_ids st) \<subseteq> set (c_seen_rule_ids st0)" using g0 by (simp add: grows_def)
  show ?thesis
  proof (cases res)
    case None
    then show ?thesis using assms(1) True c ok g1 r1 by (auto simp: item_step_def st0_def [symmetric])
  next
    case (Some crs)
    show ?thesis
    proof (cases "length (rs_rules (c_rs st1)) + length crs > kMaxRules")
      case full: True
      then show ?thesis
        using assms(1) True c Some rules_ok_grows [OF grows_err(1) r1] grows_trans [OF g1 grows_err(1)]
        by (auto simp: item_step_def st0_def [symmetric])
    next
      case room: False
      then have st': "go" "st' = add_rules crs st1"
        using assms(1) True c Some by (auto simp: item_step_def st0_def [symmetric])
      have "rules_ok st'" using r1 ok Some room by (auto simp: st' rules_ok_def)
      moreover obtain rid where "find_uint item ''id'' = Some (ucast rid)" "rid \<notin> set (c_seen_rule_ids st)"
        "rid \<in> set (c_seen_rule_ids st')" "rules_of_item item crs" using ok Some seen st' by auto
      ultimately show ?thesis using st' g1 by blast
    qed
  qed
qed

lemma ucast_ucast_u32: "ucast (ucast x :: u64) = x" for x :: u32
  by (rule bit_word_eqI) (simp add: bit_simps)

lemma rule_items_errors: "rules_ok st \<Longrightarrow> c_errors st \<noteq> [] \<Longrightarrow> c_errors (rule_items items st) \<noteq> []"
proof (induction items arbitrary: st)
  case (Cons item items)
  obtain go st' where s: "item_step item st = (go, st')" by fastforce
  note ok = item_step_ok [OF s Cons.prems(1)]
  have "c_errors st' \<noteq> []" using ok Cons.prems(2) grows_errors by auto
  then show ?case using ok Cons.IH [of st'] s by (simp only: rule_items_step) auto
qed simp

text \<open>
  The loop over the list: the rules stay well formed, and when no error is left every entry has
  contributed its rules, in the order of the list, and no two entries share an id.
\<close>

lemma rule_items_ok:
  assumes "rules_ok st"
  shows "rules_ok (rule_items items st) \<and>
    (c_errors (rule_items items st) = [] \<longrightarrow>
      (\<exists>parts. rs_rules (c_rs (rule_items items st)) = rs_rules (c_rs st) @ concat parts \<and>
         list_all2 rules_of_item items parts \<and> distinct (map (\<lambda>item. find_uint item ''id'') items) \<and>
         (\<forall>item \<in> set items. \<exists>rid. find_uint item ''id'' = Some (ucast rid) \<and> rid \<notin> set (c_seen_rule_ids st)) \<and>
         rs_default_action (c_rs (rule_items items st)) = rs_default_action (c_rs st)))"
  using assms
proof (induction items arbitrary: st)
  case (Cons item items)
  obtain go st' where s: "item_step item st = (go, st')" by fastforce
  note ok = item_step_ok [OF s Cons.prems]
  show ?case
  proof (cases "c_errors st' \<noteq> []")
    case True
    then show ?thesis
      using ok Cons.IH [of st'] rule_items_errors [of st' items] s by (simp only: rule_items_step) auto
  next
    case False
    then obtain st1 crs rid where 1: "grows st st1" "st' = add_rules crs st1" "rules_of_item item crs" "go"
      "find_uint item ''id'' = Some (ucast rid)" "rid \<notin> set (c_seen_rule_ids st)" "rid \<in> set (c_seen_rule_ids st')"
      using ok by auto
    have st1: "rs_rules (c_rs st1) = rs_rules (c_rs st)" "rs_default_action (c_rs st1) = rs_default_action (c_rs st)"
      "set (c_seen_rule_ids st) \<subseteq> set (c_seen_rule_ids st')"
      using 1(1,2) tables_growD [of "c_rs st" "c_rs st1"] by (auto simp: grows_def)
    have run: "rule_items (item # items) st = rule_items items st'" using s 1(4) by (simp only: rule_items_step) simp
    have inj: "x = y" if "ucast x = (ucast y :: u64)" for x y :: u32
      using that by (metis ucast_ucast_u32)
    show ?thesis
    proof (intro conjI impI)
      show "rules_ok (rule_items (item # items) st)" using Cons.IH ok run by metis
      assume "c_errors (rule_items (item # items) st) = []"
      then obtain parts where p: "rs_rules (c_rs (rule_items items st')) = rs_rules (c_rs st') @ concat parts"
        "list_all2 rules_of_item items parts" "distinct (map (\<lambda>item. find_uint item ''id'') items)"
        "\<forall>item \<in> set items. \<exists>rid. find_uint item ''id'' = Some (ucast rid) \<and> rid \<notin> set (c_seen_rule_ids st')"
        "rs_default_action (c_rs (rule_items items st')) = rs_default_action (c_rs st')"
        using Cons.IH [of st'] ok run by auto
      have "find_uint item ''id'' \<notin> (\<lambda>item. find_uint item ''id'') ` set items"
        using p(4) 1(5,7) inj by fastforce
      then show "\<exists>parts. rs_rules (c_rs (rule_items (item # items) st)) = rs_rules (c_rs st) @ concat parts \<and>
         list_all2 rules_of_item (item # items) parts \<and> distinct (map (\<lambda>item. find_uint item ''id'') (item # items)) \<and>
         (\<forall>item \<in> set (item # items). \<exists>rid. find_uint item ''id'' = Some (ucast rid) \<and> rid \<notin> set (c_seen_rule_ids st)) \<and>
         rs_default_action (c_rs (rule_items (item # items) st)) = rs_default_action (c_rs st)"
        unfolding run using p st1 1 by (intro exI [of _ "crs # parts"]) fastforce
    qed
  qed
qed simp

section \<open>Loading the tables\<close>

definition loading :: "Compiler \<Rightarrow> bool" where
  "loading st \<longleftrightarrow> tables_ok st \<and> rs_rules (c_rs st) = [] \<and> rs_default_action (c_rs st) = default_deny_action"

lemma loading_grows: "grows st st' \<Longrightarrow> loading st \<Longrightarrow> loading st'"
  using tables_ok_grows [of st st'] tables_growD [of "c_rs st" "c_rs st'"] by (auto simp: loading_def grows_def)

lemma loading_fresh: "loading (fresh_compiler now path version sha)"
  by (simp add: loading_def fresh_compiler_def empty_RuleSet_def tables_ok_def tables_fit_def)

lemma loading_dnns: "loading st \<Longrightarrow> loading (load_dnns n st)"
proof -
  have "loading st \<Longrightarrow> loading (dnn_items items st)" for items
  proof (induction items arbitrary: st)
    case (Cons item items)
    have "loading (st\<lparr> c_rs := (c_rs st)\<lparr> rs_dnn_names := rs_dnn_names (c_rs st) @ [d] \<rparr> \<rparr>)"
      if "length (rs_dnn_names (c_rs st)) < kMaxDnns" for d
      using Cons.prems that by (auto simp: loading_def tables_ok_def tables_fit_def)
    then show ?case
      using Cons.prems Cons.IH loading_grows [OF grows_err(1)] by (auto simp: not_le)
  qed simp
  then show "loading st \<Longrightarrow> loading (load_dnns n st)"
    by (auto simp: load_dnns_def loading_grows [OF grows_err(1)] split: option.split Node.split)
qed

lemma of_nat_u8: "n < 256 \<Longrightarrow> unat (of_nat n :: u8) = n"
  by (simp add: unat_of_nat take_bit_nat_eq_self)

lemma of_nat_u32: "n < 2 ^ 32 \<Longrightarrow> unat (of_nat n :: u32) = n"
  by (simp add: unat_of_nat take_bit_nat_eq_self)

lemma add_redirect:
  assumes "loading st" "rs_redirect_targets (c_rs st) \<noteq> []" "length (rs_redirect_targets (c_rs st)) < kMaxRedirects"
  shows "loading (st\<lparr> c_redirect_ids := (c_redirect_ids st)(name \<mapsto> of_nat (length (rs_redirect_targets (c_rs st)))),
           c_rs := (c_rs st)\<lparr> rs_redirect_targets := rs_redirect_targets (c_rs st) @ [t] \<rparr> \<rparr>)"
proof -
  let ?n = "length (rs_redirect_targets (c_rs st))"
  have n: "unat (of_nat ?n :: u8) = ?n" using assms(3) by (intro of_nat_u8) (simp add: kMaxRedirects_def)
  then have "(of_nat ?n :: u8) \<noteq> 0" using assms(2) by (metis length_0_conv unat_0)
  then show ?thesis
    using assms n by (auto simp: loading_def tables_ok_def tables_fit_def less_SucI)
qed

lemma loading_redirects:
  assumes "loading st" "rs_redirect_targets (c_rs st) = []"
  shows "loading (load_redirects n st)"
proof -
  have fields: "loading s \<Longrightarrow> rs_redirect_targets (c_rs s) \<noteq> [] \<Longrightarrow> loading (redirect_fields fds s)" for fds s
  proof (induction fds arbitrary: s)
    case (Cons f fds)
    obtain name target where f: "f = (name, target)" by fastforce
    have e: "loading (redirect_fields fds (c_err m l s))" for m l
      using Cons.prems by (intro Cons.IH loading_grows [OF grows_err(1)]) (simp_all add: c_err_def)
    show ?case
      using Cons.prems e loading_grows [OF grows_err(1)] add_redirect [OF Cons.prems]
      by (auto simp: f Let_def not_le intro!: Cons.IH)
  qed simp
  have "loading (st\<lparr> c_rs := (c_rs st)\<lparr> rs_redirect_targets := rs_redirect_targets (c_rs st) @ [[]] \<rparr> \<rparr>)"
    using assms by (auto simp: loading_def tables_ok_def tables_fit_def kMaxRedirects_def)
  then show ?thesis
    using assms(1) fields loading_grows [OF grows_err(1)] by (auto simp: load_redirects_def split: option.split Node.split)
qed

lemma grows_opt_field: "grows st (snd (opt_field read msg n key dflt st))"
  by (simp add: opt_field_def split: option.split)

lemma grows_req: "grows st (snd (req_5qi n key d st))" "grows st (snd (req_arp n key d st))"
  by (simp_all add: req_5qi_def req_arp_def Let_def split: option.split)

lemma grows_build_plan: "grows st (snd (build_plan item name pid st))"
proof -
  have chain: "grows a (snd p) \<Longrightarrow> (\<And>x b. p = (x, b) \<Longrightarrow> grows b (snd (f x b))) \<Longrightarrow> grows a (snd (case p of (x, b) \<Rightarrow> f x b))"
    for a :: Compiler and p :: "'x \<times> Compiler" and f :: "'x \<Rightarrow> Compiler \<Rightarrow> PlanConfig \<times> Compiler"
    by (cases p) (auto intro: grows_trans)
  show ?thesis
    unfolding build_plan_def Let_def opt_kbps_def opt_bytes_def opt_seconds_def opt_uint_def opt_bool_def
    by (intro chain grows_opt_field grows_req) simp
qed

lemma loading_add_plan:
  assumes "loading st" "c_plan_ids st name = None" "length (rs_plan_names (c_rs st)) < kMaxPlans"
  shows "loading (add_plan item name st)"
proof -
  let ?n = "length (rs_plan_names (c_rs st))"
  obtain p st1 where b: "build_plan item name (of_nat ?n) st = (p, st1)" by fastforce
  have g: "grows st st1" using grows_build_plan [of st item name "of_nat ?n"] b by simp
  have l: "loading st1" by (rule loading_grows [OF g assms(1)])
  have n: "unat (of_nat ?n :: u32) = ?n" using assms(3) by (intro of_nat_u32) (simp add: kMaxPlans_def)
  have same: "rs_plan_names (c_rs st1) = rs_plan_names (c_rs st)" "c_plan_ids st1 = c_plan_ids st"
    using g by (auto simp: grows_def dest: tables_growD)
  show ?thesis
    using l n same assms(3) b
    by (auto simp: add_plan_def Let_def loading_def tables_ok_def tables_fit_def nth_append less_SucI)
qed

lemma loading_plans:
  assumes "loading st"
  shows "loading (load_plans n st)"
proof -
  note err = loading_grows [OF grows_err(1)]
  have "loading s \<Longrightarrow> loading (plan_items items s)" for items s
  proof (induction items arbitrary: s)
    case (Cons item items)
    have k: "loading (check_unknown_keys item plan_keys s)" by (rule loading_grows [OF grows_keys Cons.prems])
    show ?case
      using Cons.IH err k Cons.prems loading_add_plan [OF k]
      by (auto simp: Let_def not_le split: option.split Node.split)
  qed simp
  then show ?thesis
    using assms err by (auto simp: load_plans_def simp del: plan_items.simps split: option.split Node.split list.split)
qed

lemma loading_key_sets:
  "loading st \<Longrightarrow> key_set_ok fs \<Longrightarrow> loading (st\<lparr> c_rs := (c_rs st)\<lparr> rs_roaming_partners := fs \<rparr> \<rparr>)"
  "loading st \<Longrightarrow> key_set_ok fs \<Longrightarrow> loading (st\<lparr> c_rs := (c_rs st)\<lparr> rs_imei_blocklist := fs \<rparr> \<rparr>)"
  by (auto simp: loading_def tables_ok_def tables_fit_def)

lemma rebuild_key_set: "length ks \<le> 2 ^ 62 \<Longrightarrow> \<exists>fs. fs_rebuild ks = Some fs \<and> key_set_ok fs"
  using fs_rebuild_contains [of ks] by (auto simp: key_set_ok_def)

lemma partner_items_ok:
  "loading st \<Longrightarrow> loading (snd (partner_items items st)) \<and> length (fst (partner_items items st)) \<le> length items"
proof (induction items arbitrary: st)
  case (Cons item items)
  then show ?case
    using loading_grows [OF grows_err(1)]
    by (auto simp: split_beta Let_def split: option.split) (meson le_SucI)+
qed simp

lemma imei_items_ok:
  "loading st \<Longrightarrow> loading (snd (imei_items items st)) \<and> length (fst (imei_items items st)) \<le> length items"
proof (induction items arbitrary: st)
  case (Cons item items)
  then show ?case
    using loading_grows [OF grows_err(1)]
    by (auto simp: split_beta Let_def split: option.split) (meson le_SucI)+
qed simp

lemma imei_lines_length: "length (fst (imei_lines ls)) \<le> length ls"
  by (induction ls) (auto simp: Let_def split_beta split: option.split)

lemma getlines_length: "length (getlines s) \<le> length s + 1"
proof -
  have "length (split_all c s) \<le> length s + 1" for c
    by (induction s) (auto split: list.splits)
  from this [of "CHR 0x0A"] show ?thesis by (auto simp: getlines_def Let_def)
qed

text \<open>
  The key lists of the two sets fit the address space: sequences of at most 2^62 entries, and a
  blocklist file smaller than 2^62 bytes.
\<close>

definition entries_bounded :: "(string \<Rightarrow> string option) \<Rightarrow> Node \<Rightarrow> bool" where
  "entries_bounded files doc \<longleftrightarrow>
     (\<forall>items l. node_find doc ''roaming_partners'' = Some (SeqNode items l) \<longrightarrow> length items \<le> 2 ^ 62) \<and>
     (\<forall>items l. node_find doc ''imei_blocklist'' = Some (SeqNode items l) \<longrightarrow> length items \<le> 2 ^ 62) \<and>
     (\<forall>path contents. files path = Some contents \<longrightarrow> length contents < 2 ^ 62)"

lemma loading_partners:
  assumes "loading st" "\<And>items l. n = Some (SeqNode items l) \<Longrightarrow> length items \<le> 2 ^ 62"
  shows "\<exists>st'. load_roaming_partners n st = Some st' \<and> loading st'"
proof (cases "\<exists>items l. n = Some (SeqNode items l)")
  case True
  then obtain items l where n: "n = Some (SeqNode items l)" by blast
  obtain ks s where p: "partner_items items st = (ks, s)" by fastforce
  have "loading s" "length ks \<le> 2 ^ 62"
    using partner_items_ok [OF assms(1), of items] p assms(2) [OF n] by auto
  then show ?thesis using rebuild_key_set [of ks] loading_key_sets(1) [of s] n p by (auto simp: load_roaming_partners_def)
next
  case False
  then show ?thesis
    using assms(1) loading_grows [OF grows_err(1) assms(1)]
    by (auto simp: load_roaming_partners_def split: option.split Node.split)
qed

lemma loading_imei_file:
  assumes "loading st" "\<And>contents. files path = Some contents \<Longrightarrow> length contents < 2 ^ 62"
  shows "loading (snd (load_imei_file files path line st)) \<and> length (fst (load_imei_file files path line st)) \<le> 2 ^ 62"
proof (cases "files path")
  case None
  then show ?thesis using loading_grows [OF grows_err(1) assms(1)] by (simp add: load_imei_file_def)
next
  case (Some contents)
  have "length (fst (imei_lines (getlines contents))) \<le> 2 ^ 62"
    using imei_lines_length [of "getlines contents"] getlines_length [of contents] assms(2) [OF Some] by linarith
  then show ?thesis
    using Some assms(1) loading_grows [OF grows_warn assms(1)] by (auto simp: load_imei_file_def Let_def split_beta)
qed

lemma loading_imei:
  assumes "loading st" "\<And>items l. n = Some (SeqNode items l) \<Longrightarrow> length items \<le> 2 ^ 62"
    "\<And>path contents. files path = Some contents \<Longrightarrow> length contents < 2 ^ 62"
  shows "\<exists>st'. load_imei_blocklist files n st = Some st' \<and> loading st'"
proof -
  have rebuild: "\<exists>st'. (case r of (keys, s) \<Rightarrow> map_option (\<lambda>fs. s\<lparr> c_rs := (c_rs s)\<lparr> rs_imei_blocklist := fs \<rparr> \<rparr>) (fs_rebuild keys)) = Some st' \<and> loading st'"
    if "loading (snd r)" "length (fst r) \<le> 2 ^ 62" for r
    using that rebuild_key_set [of "fst r"] loading_key_sets(2) [of "snd r"] by (auto simp: split_beta)
  have items: "loading (snd (imei_items items st)) \<and> length (fst (imei_items items st)) \<le> 2 ^ 62"
    if "n = Some (SeqNode items l)" for items l
    using imei_items_ok [OF assms(1), of items] assms(2) [OF that] by auto
  show ?thesis
    using assms(1) loading_grows [OF grows_err(1) assms(1)] rebuild [OF conjunct1 conjunct2, OF loading_imei_file loading_imei_file, OF assms(1,3) assms(1,3)]
      rebuild [OF conjunct1 conjunct2, OF items items]
    by (auto simp: load_imei_blocklist_def Let_def split: option.split Node.split)
qed

lemma rule_items_targets:
  "rules_ok st \<Longrightarrow> rs_redirect_targets (c_rs (rule_items items st)) = rs_redirect_targets (c_rs st)"
proof (induction items arbitrary: st)
  case (Cons item items)
  obtain go st' where s: "item_step item st = (go, st')" by fastforce
  note ok = item_step_ok [OF s Cons.prems]
  have "rs_redirect_targets (c_rs st') = rs_redirect_targets (c_rs st)"
    using ok tables_growD(3) by (fastforce simp: grows_def add_rules_def)
  then show ?case using ok Cons.IH [of st'] s by (simp only: rule_items_step) auto
qed simp

lemma load_dnns_targets: "rs_redirect_targets (c_rs (load_dnns n st)) = rs_redirect_targets (c_rs st)"
proof -
  have "rs_redirect_targets (c_rs (dnn_items items s)) = rs_redirect_targets (c_rs s)" for items s
    by (induction items s rule: dnn_items.induct) (auto simp: c_err_def)
  then show ?thesis by (auto simp: load_dnns_def c_err_def split: option.split Node.split)
qed

section \<open>The compiled rule set\<close>

lemma load_default_ok:
  assumes "loading st" "st' = load_default_action n st"
  shows "rules_ok st' \<and> rs_rules (c_rs st') = [] \<and> (c_errors st' = [] \<longrightarrow> action_wf (c_rs st') (rs_default_action (c_rs st')))"
proof -
  have deny: "act_fields_ok s default_deny_action" "act_ok s default_deny_action" for s
    using rangeI [of verdict_u8 kDeny]
    by (simp_all add: act_ok_def act_fields_ok_def default_deny_action_def zero_action_def kReasonCount_def)
  have upd: "action_wf (rs\<lparr> rs_default_action := a \<rparr>) = action_wf rs" for rs :: RuleSet and a
    by (rule HOL.ext) (simp add: action_wf_def)
  show ?thesis
  proof (cases n)
    case None
    then show ?thesis
      using assms act_ok_wf [OF deny(2)] by (auto simp: load_default_action_def loading_def rules_ok_def)
  next
    case (Some d)
    obtain ok a st1 where p: "parse_action d default_deny_action st = (ok, a, st1)" by (metis prod.collapse)
    have j: "judged st (ok, a, st1)" "ok \<Longrightarrow> act_ok st1 a"
      using keeps_parse_action p deny(1) unfolding keeps_def by metis+
    have l: "loading st1" by (rule loading_grows [OF judgedD(1) [OF j(1)] assms(1)])
    then have "action_wf (c_rs st1) a" if "c_errors st1 = []"
      using that j act_ok_wf [of st1 a] by (auto simp: judged_def loading_def)
    then show ?thesis
      using assms(2) Some p l by (auto simp: load_default_action_def upd loading_def rules_ok_def tables_ok_def tables_fit_def)
  qed
qed

text \<open>The entries of the rules list and what each contributed.\<close>

definition in_file_order :: "Node \<Rightarrow> CompiledRule list \<Rightarrow> bool" where
  "in_file_order doc rules \<longleftrightarrow>
     (\<exists>items l parts. node_find doc ''rules'' = Some (SeqNode items l) \<and> list_all2 rules_of_item items parts \<and>
        distinct (map (\<lambda>item. find_uint item ''id'') items) \<and> rules = concat parts)"

lemma load_rules_ok:
  assumes "rules_ok st" "rs_rules (c_rs st) = []" "c_errors st = [] \<longrightarrow> action_wf (c_rs st) (rs_default_action (c_rs st))"
    "st' = load_rules n st" "n = node_find doc ''rules''"
  shows "rules_ok st' \<and> (c_errors st' = [] \<longrightarrow> action_wf (c_rs st') (rs_default_action (c_rs st')) \<and> in_file_order doc (rs_rules (c_rs st')))"
proof (cases "\<exists>items l. n = Some (SeqNode items l)")
  case True
  then obtain items l where n: "n = Some (SeqNode items l)" by blast
  then have st': "st' = rule_items items st" using assms(4) by (simp add: load_rules_def)
  note ok = rule_items_ok [OF assms(1), of items]
  have "action_wf (c_rs st') (rs_default_action (c_rs st')) \<and> in_file_order doc (rs_rules (c_rs st'))" if none: "c_errors st' = []"
  proof -
    have e: "c_errors st = []" using rule_items_errors [OF assms(1), of items] none st' by metis
    obtain parts where p: "rs_rules (c_rs st') = concat parts" "list_all2 rules_of_item items parts"
      "distinct (map (\<lambda>item. find_uint item ''id'') items)" "rs_default_action (c_rs st') = rs_default_action (c_rs st)"
      using ok none assms(2) unfolding st' by auto
    have "rs_redirect_targets (c_rs st') = rs_redirect_targets (c_rs st)"
      using rule_items_targets [OF assms(1)] st' by simp
    then have "action_wf (c_rs st') = action_wf (c_rs st)" by (intro HOL.ext) (simp add: action_wf_def)
    moreover have "in_file_order doc (rs_rules (c_rs st'))"
      unfolding in_file_order_def using p(1-3) assms(5) n
      by (intro exI [of _ items] exI [of _ l] exI [of _ parts]) simp
    ultimately show ?thesis using p(4) assms(3) e by simp
  qed
  then show ?thesis using ok st' by simp
next
  case False
  then show ?thesis
    using rules_ok_grows [OF grows_err(1) assms(1)] assms(4) by (auto simp: load_rules_def split: option.split Node.split)
qed

lemma compile_root_ok:
  assumes "entries_bounded files doc"
  shows "\<exists>st. compile_root files doc (fresh_compiler now path version sha) = Some st \<and> rules_ok st \<and>
    (c_errors st = [] \<longrightarrow> action_wf (c_rs st) (rs_default_action (c_rs st)) \<and> in_file_order doc (rs_rules (c_rs st)))"
proof -
  have bounds: "node_find doc ''roaming_partners'' = Some (SeqNode items l) \<Longrightarrow> length items \<le> 2 ^ 62"
    "node_find doc ''imei_blocklist'' = Some (SeqNode items l) \<Longrightarrow> length items \<le> 2 ^ 62"
    "files p = Some contents \<Longrightarrow> length contents < 2 ^ 62" for items l p contents
    using assms unfolding entries_bounded_def by blast+
  define st0 where "st0 = load_dnns (node_find doc ''dnns'') (check_unknown_keys doc top_keys (fresh_compiler now path version sha))"
  have l0: "loading st0" unfolding st0_def by (intro loading_dnns loading_grows [OF grows_keys] loading_fresh)
  have t0: "rs_redirect_targets (c_rs st0) = []"
    using tables_growD(3) [of "c_rs (fresh_compiler now path version sha)"]
      grows_keys [of "fresh_compiler now path version sha" doc top_keys]
    by (simp add: st0_def load_dnns_targets grows_def) (simp add: fresh_compiler_def empty_RuleSet_def)
  obtain st1 where 1: "load_roaming_partners (node_find doc ''roaming_partners'')
      (load_plans (node_find doc ''plans'') (load_redirects (node_find doc ''redirects'') st0)) = Some st1" "loading st1"
    using loading_partners [OF loading_plans [OF loading_redirects [OF l0 t0]], of "node_find doc ''roaming_partners''"] bounds(1)
    by blast
  obtain st2 where 2: "load_imei_blocklist files (node_find doc ''imei_blocklist'') st1 = Some st2" "loading st2"
    using loading_imei [OF 1(2), of "node_find doc ''imei_blocklist''" files] bounds(2,3) by blast
  define st3 where "st3 = load_default_action (node_find doc ''default_action'') st2"
  note d = load_default_ok [OF 2(2) st3_def]
  define st4 where "st4 = load_rules (node_find doc ''rules'') st3"
  have "compile_root files doc (fresh_compiler now path version sha) = Some st4"
    using 1(1) 2(1) by (simp add: compile_root_def Let_def st0_def st3_def st4_def)
  moreover have "rules_ok st4 \<and> (c_errors st4 = [] \<longrightarrow> action_wf (c_rs st4) (rs_default_action (c_rs st4)) \<and>
      in_file_order doc (rs_rules (c_rs st4)))"
    by (rule load_rules_ok [OF _ _ _ st4_def refl]) (use d in blast)+
  ultimately show ?thesis by blast
qed

lemma finish_ok:
  assumes "rules_ok st" "c_errors st = [] \<longrightarrow> action_wf (c_rs st) (rs_default_action (c_rs st))"
  shows "(rc_rule_set (finish st) = None \<longleftrightarrow> rc_errors (finish st) \<noteq> []) \<and>
    (\<forall>rs. rc_rule_set (finish st) = Some rs \<longrightarrow>
       rs_wf rs \<and> c_errors st = [] \<and> rs_rules rs = sort_key r_priority (rs_rules (c_rs st)))"
proof (cases "c_errors st = []")
  case True
  define rs where "rs = (c_rs st)\<lparr> rs_rules := sort_key r_priority (rs_rules (c_rs st)) \<rparr>"
  have s: "c_rs (sort_and_check st) = rs" "c_errors (sort_and_check st) = []"
    using True by (simp_all add: sort_and_check_def rs_def Let_def c_warn_def)
  have w: "action_wf rs = action_wf (c_rs st)" by (rule HOL.ext) (simp add: rs_def action_wf_def)
  then have "rule_wf rs = rule_wf (c_rs st)" by (intro HOL.ext) (simp add: rule_wf_def, simp add: rs_def)
  then have "rs_wf rs"
    using assms True w by (simp add: rs_wf_def rs_ok_def rules_ok_def tables_ok_def tables_fit_def) (simp add: rs_def)
  then show ?thesis using True s by (simp add: finish_def Let_def rs_def)
next
  case False
  then show ?thesis by (simp add: finish_def)
qed

lemma compile_rules_cases:
  assumes "yaml_parse text = Some parsed" "entries_bounded files (pr_root parsed)"
  shows "\<exists>res. compile_rules files now text path version = Some res \<and> (rc_rule_set res = None \<longleftrightarrow> rc_errors res \<noteq> []) \<and>
    (\<forall>rs. rc_rule_set res = Some rs \<longrightarrow>
       rs_wf rs \<and> (\<exists>emitted. in_file_order (pr_root parsed) emitted \<and> rs_rules rs = sort_key r_priority emitted))"
proof (cases "pr_ok parsed \<and> is_map (pr_root parsed)")
  case True
  obtain sha where sha: "hash_hex text = Some sha" using hash_hex_absorb by blast
  obtain st where st: "compile_root files (pr_root parsed) (fresh_compiler now path version sha) = Some st" "rules_ok st"
    "c_errors st = [] \<longrightarrow> action_wf (c_rs st) (rs_default_action (c_rs st)) \<and> in_file_order (pr_root parsed) (rs_rules (c_rs st))"
    using compile_root_ok [OF assms(2)] by blast
  have c: "compile_rules files now text path version = Some (finish st)"
    using True assms(1) sha st(1) by (simp add: compile_rules_def)
  have "c_errors st = [] \<longrightarrow> action_wf (c_rs st) (rs_default_action (c_rs st))" using st(3) by simp
  note f = finish_ok [OF st(2) this]
  show ?thesis
  proof (intro exI [of _ "finish st"] conjI allI impI)
    fix rs
    assume "rc_rule_set (finish st) = Some rs"
    then have rs: "rs_wf rs" "c_errors st = []" "rs_rules rs = sort_key r_priority (rs_rules (c_rs st))"
      using f by simp_all
    show "rs_wf rs" by (rule rs(1))
    show "\<exists>emitted. in_file_order (pr_root parsed) emitted \<and> rs_rules rs = sort_key r_priority emitted"
      using rs(2,3) st(3) by (intro exI [of _ "rs_rules (c_rs st)"]) simp
  qed (use c f in simp_all)
next
  case False
  then show ?thesis using assms(1) by (auto simp: compile_rules_def compile_failed_def)
qed

definition tiny_rules :: string where
  "tiny_rules = ''dnns: [net]'' @ CHR 0x0A # ''plans: [{name: a}]'' @ CHR 0x0A # ''rules: [{id: 2, priority: 9, action: {}}]''"

lemma tiny_lines:
  "split_lines tiny_rules =
     ([\<lparr> ln_indent = 0, ln_number = 1, ln_text = ''dnns: [net]'' \<rparr>, \<lparr> ln_indent = 0, ln_number = 2, ln_text = ''plans: [{name: a}]'' \<rparr>,
       \<lparr> ln_indent = 0, ln_number = 3, ln_text = ''rules: [{id: 2, priority: 9, action: {}}]'' \<rparr>], None)"
  by code_simp

lemma key_split_plain:
  "list_all (\<lambda>c. c \<notin> {squote, dquote, CHR ''['', CHR '']'', CHR ''{'', CHR ''}'', CHR '':''}) k \<Longrightarrow>
     key_split (k @ CHR '':'' # CHR '' '' # rest) = Some (k, CHR '' '' # rest)"
  unfolding key_split_def by (induction k) (auto simp: Let_def)

lemma tiny_keys:
  "key_split ''dnns: [net]'' = Some (''dnns'', '' [net]'')"
  "key_split ''plans: [{name: a}]'' = Some (''plans'', '' [{name: a}]'')"
  "key_split ''rules: [{id: 2, priority: 9, action: {}}]'' = Some (''rules'', '' [{id: 2, priority: 9, action: {}}]'')"
  using key_split_plain [of "''dnns''"] key_split_plain [of "''plans''"] key_split_plain [of "''rules''"] by simp_all

lemma tiny_values:
  "parse_flow ''[net]'' l None = Some (SeqNode [ScalarNode ''net'' l] l, None)"
  "parse_flow ''[{name: a}]'' l None = Some (SeqNode [MapNode [(''name'', ScalarNode ''a'' l)] l] l, None)"
  "parse_flow ''[{id: 2, priority: 9, action: {}}]'' l None =
     Some (SeqNode [MapNode [(''id'', ScalarNode ''2'' l), (''priority'', ScalarNode ''9'' l), (''action'', MapNode [] l)] l] l, None)"
  by code_simp+

definition tiny_tree :: Node where
  "tiny_tree = MapNode [(''dnns'', SeqNode [ScalarNode ''net'' 1] 1), (''plans'', SeqNode [MapNode [(''name'', ScalarNode ''a'' 2)] 2] 2),
     (''rules'', SeqNode [MapNode [(''id'', ScalarNode ''2'' 3), (''priority'', ScalarNode ''9'' 3), (''action'', MapNode [] 3)] 3] 3)] 1"

lemma tiny_parsed: "yaml_parse tiny_rules = Some \<lparr> pr_root = tiny_tree, pr_error = [], pr_error_line = 0 \<rparr>"
  by (simp add: yaml_parse_def run_def tiny_lines numeral_eq_Suc parse_block_def parse_map_def is_seq_item_def tiny_keys tiny_values
          unquote_def yaml_trim_def yaml_rtrim_def is_blank_def tiny_tree_def)
lemma tiny_compiles:
  "map_option (\<lambda>st. (c_errors st, map r_id (rs_rules (c_rs st)))) (compile_root (\<lambda>_. None) tiny_tree (fresh_compiler 0 [] 1 sha)) = Some ([], [2])"
  by code_simp

lemma tiny_result:
  "\<exists>res rs. compile_rules (\<lambda>_. None) 0 tiny_rules [] 1 = Some res \<and> rc_rule_set res = Some rs \<and> map r_id (rs_rules rs) = [2]"
proof -
  obtain sha where sha: "hash_hex tiny_rules = Some sha" using hash_hex_absorb by blast
  obtain st where st: "compile_root (\<lambda>_. None) tiny_tree (fresh_compiler 0 [] 1 sha) = Some st" "c_errors st = []"
    "map r_id (rs_rules (c_rs st)) = [2]" using tiny_compiles [of sha] by auto
  then obtain r where "rs_rules (c_rs st) = [r]" "r_id r = 2" by auto
  then have "\<exists>rs. rc_rule_set (finish st) = Some rs \<and> map r_id (rs_rules rs) = [2]"
    using st(2) by (simp add: finish_def sort_and_check_def Let_def)
  then show ?thesis
    using sha st(1) by (simp add: compile_rules_def tiny_parsed pr_ok_def is_map_def tiny_tree_def)
qed

lemma tiny_bounded: "entries_bounded (\<lambda>_. None) tiny_tree"
  by (simp add: entries_bounded_def tiny_tree_def node_find_def node_fields_def)

text \<open>
  C5: every rules file is compiled or rejected, never both: compilation returns, a rule set is produced iff
  no error is reported, and a produced rule set is well formed: what the engine needs holds, no table
  exceeds its limit, rules are in priority order with non-zero ids and no required value outside their
  mask, plan masks name existing plans, verdicts and reasons are defined codes, redirect ids name
  existing targets, and a REDIRECT always has a target, in every rule and in the default action.
\<close>

theorem compiled_rules_wf:
  assumes "yaml_parse text = Some parsed" "entries_bounded files (pr_root parsed)"
  shows "\<exists>res. compile_rules files now text path version = Some res \<and>
     (rc_rule_set res = None \<longleftrightarrow> rc_errors res \<noteq> []) \<and> (\<forall>rs. rc_rule_set res = Some rs \<longrightarrow> rs_wf rs)"
proof -
  obtain res where "compile_rules files now text path version = Some res" "rc_rule_set res = None \<longleftrightarrow> rc_errors res \<noteq> []"
    and rs: "\<forall>rs. rc_rule_set res = Some rs \<longrightarrow>
       rs_wf rs \<and> (\<exists>emitted. in_file_order (pr_root parsed) emitted \<and> rs_rules rs = sort_key r_priority emitted)"
    using compile_rules_cases [OF assms, of now path version] by (elim exE conjE)
  moreover have "\<forall>rs. rc_rule_set res = Some rs \<longrightarrow> rs_wf rs"
    using rs by (intro allI impI) (drule spec, drule mp, assumption, erule conjunct1)
  ultimately show ?thesis by (intro exI [of _ res] conjI)
qed

theorem compiled_rules_wf_witness:
  "\<exists>res rs. compile_rules (\<lambda>_. None) 0 tiny_rules [] 1 = Some res \<and> rc_rule_set res = Some rs \<and>
     map r_id (rs_rules rs) = [2] \<and> rs_wf rs"
proof -
  obtain res rs where r: "compile_rules (\<lambda>_. None) 0 tiny_rules [] 1 = Some res" "rc_rule_set res = Some rs"
    "map r_id (rs_rules rs) = [2]" using tiny_result by (elim exE conjE)
  then show ?thesis
    using compiled_rules_wf [OF tiny_parsed, of "\<lambda>_. None" 0 "[]" 1] tiny_bounded by fastforce
qed

text \<open>
  C17: the scan order of a compiled rule set. The rules come from the entries of the rules list, each
  entry giving one to 64 rules with its id and priority, no two entries with one id; the compiled list
  is in order of priority, and within one priority it is the order of the file.
\<close>

theorem compiled_rule_order:
  assumes "yaml_parse text = Some parsed" "entries_bounded files (pr_root parsed)"
    "compile_rules files now text path version = Some res" "rc_rule_set res = Some rs"
  shows "\<exists>emitted. in_file_order (pr_root parsed) emitted \<and> sorted (map r_priority (rs_rules rs)) \<and>
     (\<forall>p. filter (\<lambda>r. r_priority r = p) (rs_rules rs) = filter (\<lambda>r. r_priority r = p) emitted)"
proof -
  obtain res' where r: "compile_rules files now text path version = Some res'"
    "\<forall>rs. rc_rule_set res' = Some rs \<longrightarrow>
       rs_wf rs \<and> (\<exists>emitted. in_file_order (pr_root parsed) emitted \<and> rs_rules rs = sort_key r_priority emitted)"
    using compile_rules_cases [OF assms(1,2), of now path version] by (elim exE conjE)
  have "res' = res" using r(1) assms(3) by simp
  obtain emitted where e: "in_file_order (pr_root parsed) emitted" "rs_rules rs = sort_key r_priority emitted"
    using r(2) [rule_format, OF assms(4) [folded \<open>res' = res\<close>]] by (elim conjE exE) simp
  have "filter (\<lambda>r. r_priority r = p) (rs_rules rs) = filter (\<lambda>r. r_priority r = p) emitted" for p
    unfolding e(2) by (rule sort_key_stable)
  moreover have "sorted (map r_priority (rs_rules rs))" unfolding e(2) by (rule sorted_sort_key)
  ultimately show ?thesis using e(1) by blast
qed

theorem compiled_rule_order_witness:
  "\<exists>res rs. compile_rules (\<lambda>_. None) 0 tiny_rules [] 1 = Some res \<and> rc_rule_set res = Some rs \<and>
     map r_id (rs_rules rs) = [2] \<and> sorted (map r_priority (rs_rules rs))"
proof -
  obtain res rs where r: "compile_rules (\<lambda>_. None) 0 tiny_rules [] 1 = Some res" "rc_rule_set res = Some rs"
    "map r_id (rs_rules rs) = [2]" using tiny_result by (elim exE conjE)
  then show ?thesis
    using compiled_rule_order [OF tiny_parsed _ r(1,2)] tiny_bounded by fastforce
qed

section \<open>Evaluation against a compiled rule set\<close>

lemma evaluate_decide:
  assumes "rs_ok rs"
  shows "\<exists>f hit. build_features rs req rec t = Some f \<and> evaluate rs req rec t = Some (decide rs req rec hit) \<and>
     (hit = None \<longleftrightarrow> (\<forall>r \<in> set (rs_rules rs). \<not> rule_applies f rec r)) \<and> (\<forall>r. hit = Some r \<longrightarrow> r \<in> set (rs_rules rs))"
proof -
  obtain f where f: "build_features rs req rec t = Some f" using build_features_bits [OF assms] by blast
  define hit where "hit = find_hit f (plan_bit_for rec) (rs_rules rs)"
  have "r \<in> set (rs_rules rs)" if "hit = Some r" for r
    using find_hit_split [of f rec "rs_rules rs" r] that by (auto simp: hit_def)
  then show ?thesis
    using f find_hit_None [of f rec "rs_rules rs"] by (intro exI [of _ f] exI [of _ hit]) (simp add: evaluate_def hit_def)
qed

lemma wf_replies_typed:
  assumes "rs_wf rs"
  shows "\<exists>f d. build_features rs req rec t = Some f \<and> evaluate rs req rec t = Some d \<and>
     d_verdict d \<in> range verdict_u8 \<and> unat (d_reason d) < kReasonCount \<and>
     (d_redirect_id d = 0 \<or> unat (d_redirect_id d) < length (rs_redirect_targets rs)) \<and>
     (d_verdict d = verdict_u8 kRedirect \<longrightarrow> d_redirect_id d \<noteq> 0) \<and>
     (d_rule_id d = 0 \<longleftrightarrow> (\<forall>r \<in> set (rs_rules rs). \<not> rule_applies f rec r))"
proof -
  obtain f hit where h: "build_features rs req rec t = Some f" "evaluate rs req rec t = Some (decide rs req rec hit)"
    "hit = None \<longleftrightarrow> (\<forall>r \<in> set (rs_rules rs). \<not> rule_applies f rec r)" "\<forall>r. hit = Some r \<longrightarrow> r \<in> set (rs_rules rs)"
    using evaluate_decide assms unfolding rs_wf_def by blast
  have a: "action_wf rs (hit_action rs hit)" and i: "hit = Some r \<Longrightarrow> r_id r \<noteq> 0" for r
    using assms h(4) by (auto simp: rs_wf_def rule_wf_def hit_action_def split: option.splits)
  note d = decide_header [of rs req rec hit, unfolded header_def prod.inject]
  have "unat (d_reason (decide rs req rec hit)) < kReasonCount"
    using a d by (cases hit) (auto simp: action_wf_def hit_action_def kReasonCount_def)
  moreover have "d_rule_id (decide rs req rec hit) = 0 \<longleftrightarrow> hit = None" using d i by (cases hit) auto
  ultimately show ?thesis
    using h(1-3) a d by (intro exI [of _ f] exI [of _ "decide rs req rec hit"]) (simp add: action_wf_def)
qed

text \<open>
  C18: replies against a compiled rule set are well typed. Whatever request and subscriber come in,
  the evaluation returns a decision whose verdict and reason are codes of the protocol, whose
  redirect id is 0 or the index of a redirect target and is not 0 for a REDIRECT, and whose rule id is
  0 exactly when no rule applies and the default action decided.
\<close>

theorem compiled_replies_typed:
  assumes "yaml_parse text = Some parsed" "entries_bounded files (pr_root parsed)"
    "compile_rules files now text path version = Some res" "rc_rule_set res = Some rs"
  shows "\<exists>f d. build_features rs req rec t = Some f \<and> evaluate rs req rec t = Some d \<and>
     d_verdict d \<in> range verdict_u8 \<and> unat (d_reason d) < kReasonCount \<and>
     (d_redirect_id d = 0 \<or> unat (d_redirect_id d) < length (rs_redirect_targets rs)) \<and>
     (d_verdict d = verdict_u8 kRedirect \<longrightarrow> d_redirect_id d \<noteq> 0) \<and>
     (d_rule_id d = 0 \<longleftrightarrow> (\<forall>r \<in> set (rs_rules rs). \<not> rule_applies f rec r))"
proof -
  obtain res' where r: "compile_rules files now text path version = Some res'"
    "\<forall>rs. rc_rule_set res' = Some rs \<longrightarrow>
       rs_wf rs \<and> (\<exists>emitted. in_file_order (pr_root parsed) emitted \<and> rs_rules rs = sort_key r_priority emitted)"
    using compile_rules_cases [OF assms(1,2), of now path version] by (elim exE conjE)
  have "res' = res" using r(1) assms(3) by simp
  then have "rs_wf rs" using r(2) assms(4) by blast
  then show ?thesis by (rule wf_replies_typed)
qed

theorem compiled_replies_typed_witness:
  "\<exists>res rs f d. compile_rules (\<lambda>_. None) 0 tiny_rules [] 1 = Some res \<and> rc_rule_set res = Some rs \<and>
     map r_id (rs_rules rs) = [2] \<and> build_features rs zero_request None 0 = Some f \<and>
     evaluate rs zero_request None 0 = Some d \<and> d_verdict d \<in> range verdict_u8"
proof -
  obtain res rs where r: "compile_rules (\<lambda>_. None) 0 tiny_rules [] 1 = Some res" "rc_rule_set res = Some rs"
    "map r_id (rs_rules rs) = [2]" using tiny_result by (elim exE conjE)
  obtain f d where "build_features rs zero_request None 0 = Some f" "evaluate rs zero_request None 0 = Some d"
    "d_verdict d \<in> range verdict_u8"
    using compiled_replies_typed [OF tiny_parsed _ r(1,2), of zero_request None 0] tiny_bounded by auto
  then show ?thesis using r by (intro exI conjI)
qed

end
