(* ===== verification/Hdr_Histogram.thy ===== *)
theory Hdr_Histogram
  imports Float64
begin

text \<open>
  The latency histogram (\<^verbatim>\<open>src/include/policy/hdr_histogram.hpp\<close>). Values, counts and indices are integers;
  the theorems show that with a highest value below 2^62 every index is inside the count array. Doubles
  are rationals rounded by \<^const>\<open>rnd64\<close>; \<^verbatim>\<open>floor(log2(x))\<close> of an integer is its exact value, which is what
  the library computes for arguments below 2^48 (the sources use 1, and 2 * 10^k for k up to 5).
\<close>

unbundle bit_operations_syntax

section \<open>State\<close>

record HdrHistogram =
  h_lowest :: int
  h_highest :: int
  h_significant_figures :: nat
  h_unit_magnitude :: nat
  h_sub_bucket_count_magnitude :: nat
  h_sub_bucket_half_count_magnitude :: nat
  h_sub_bucket_count :: int
  h_sub_bucket_half_count :: int
  h_sub_bucket_mask :: int
  h_bucket_count :: nat
  h_counts :: "int list"
  h_total_count :: int
  h_overflow_count :: int
  h_negative_count :: int
  h_min :: int
  h_max :: int

definition floor_log2 :: "int \<Rightarrow> nat" where
  "floor_log2 n = ilog (nat n)"

definition ceil_log2 :: "int \<Rightarrow> nat" where
  "ceil_log2 n = (if n \<le> 1 then 0 else Suc (ilog (nat (n - 1))))"

text \<open>The loop that counts the buckets; it would not end from a bound of 0.\<close>

partial_function (option) bucket_loop :: "int \<Rightarrow> int \<Rightarrow> nat \<Rightarrow> nat option" where
  "bucket_loop smallest_untrackable highest buckets =
     (if smallest_untrackable \<le> highest then
        if smallest_untrackable > (2 ^ 63 - 1) div 2 then Some buckets
        else bucket_loop (smallest_untrackable * 2) highest (buckets + 1)
      else Some buckets)"

declare bucket_loop.simps [code]

definition new_histogram :: "int \<Rightarrow> int \<Rightarrow> int \<Rightarrow> HdrHistogram option" where
  "new_histogram lowest highest significant_figures =
     (let lowest = (if lowest < 1 then 1 else lowest);
          figures = nat (if significant_figures < 1 then 1 else if significant_figures > 5 then 5 else significant_figures);
          highest = (if highest < lowest * 2 then lowest * 2 else highest);
          unit = floor_log2 lowest;
          magnitude = ceil_log2 (2 * 10 ^ figures);
          sub_count = 2 ^ magnitude
      in map_option (\<lambda>buckets.
           \<lparr> h_lowest = lowest, h_highest = highest, h_significant_figures = figures, h_unit_magnitude = unit,
             h_sub_bucket_count_magnitude = magnitude, h_sub_bucket_half_count_magnitude = magnitude - 1,
             h_sub_bucket_count = sub_count, h_sub_bucket_half_count = sub_count div 2,
             h_sub_bucket_mask = push_bit unit (sub_count - 1), h_bucket_count = buckets,
             h_counts = replicate (nat ((int buckets + 1) * (sub_count div 2))) 0,
             h_total_count = 0, h_overflow_count = 0, h_negative_count = 0, h_min = 0, h_max = 0 \<rparr>)
         (bucket_loop (push_bit unit sub_count) highest 1))"

section \<open>Bucket arithmetic\<close>

definition bucket_index :: "HdrHistogram \<Rightarrow> int \<Rightarrow> int" where
  "bucket_index h v =
     (let pow2ceiling = Suc (ilog (nat (v OR h_sub_bucket_mask h)))
      in int pow2ceiling - int (h_unit_magnitude h) - (int (h_sub_bucket_half_count_magnitude h) + 1))"

definition sub_bucket_index :: "HdrHistogram \<Rightarrow> int \<Rightarrow> int \<Rightarrow> int" where
  "sub_bucket_index h v bucket = drop_bit (nat (bucket + int (h_unit_magnitude h))) v"

definition counts_index_for :: "HdrHistogram \<Rightarrow> int \<Rightarrow> int" where
  "counts_index_for h v =
     (let b = bucket_index h v; s = sub_bucket_index h v b;
          bucket_base = push_bit (h_sub_bucket_half_count_magnitude h) (b + 1)
      in bucket_base + (s - h_sub_bucket_half_count h))"

definition value_from_index :: "HdrHistogram \<Rightarrow> int \<Rightarrow> int" where
  "value_from_index h index =
     (let bucket = drop_bit (h_sub_bucket_half_count_magnitude h) index - 1;
          sub = (index AND (h_sub_bucket_half_count h - 1)) + h_sub_bucket_half_count h;
          (bucket, sub) = (if bucket < 0 then (0, sub - h_sub_bucket_half_count h) else (bucket, sub))
      in push_bit (nat (bucket + int (h_unit_magnitude h))) sub)"

definition lowest_equivalent_value :: "HdrHistogram \<Rightarrow> int \<Rightarrow> int" where
  "lowest_equivalent_value h v =
     (let b = bucket_index h v; s = sub_bucket_index h v b
      in push_bit (nat (b + int (h_unit_magnitude h))) s)"

definition size_of_equivalent_value_range :: "HdrHistogram \<Rightarrow> int \<Rightarrow> int" where
  "size_of_equivalent_value_range h v =
     (let b = bucket_index h v; s = sub_bucket_index h v b;
          adjusted = (if s \<ge> h_sub_bucket_count h then b + 1 else b)
      in push_bit (nat (int (h_unit_magnitude h) + adjusted)) 1)"

definition next_non_equivalent_value :: "HdrHistogram \<Rightarrow> int \<Rightarrow> int" where
  "next_non_equivalent_value h v = lowest_equivalent_value h v + size_of_equivalent_value_range h v"

definition highest_equivalent_value :: "HdrHistogram \<Rightarrow> int \<Rightarrow> int" where
  "highest_equivalent_value h v = next_non_equivalent_value h v - 1"

definition median_equivalent_value :: "HdrHistogram \<Rightarrow> int \<Rightarrow> int" where
  "median_equivalent_value h v = lowest_equivalent_value h v + drop_bit 1 (size_of_equivalent_value_range h v)"

section \<open>Recording\<close>

text \<open>\<^verbatim>\<open>counts_[i] += n\<close>; an index outside the array is undefined behaviour in the source, \<^const>\<open>None\<close> here.\<close>

definition bump :: "HdrHistogram \<Rightarrow> int \<Rightarrow> int \<Rightarrow> HdrHistogram option" where
  "bump h i n =
     (if 0 \<le> i \<and> i < int (length (h_counts h))
      then Some (h\<lparr> h_counts := (h_counts h)[nat i := h_counts h ! nat i + n] \<rparr>) else None)"

definition record_value :: "HdrHistogram \<Rightarrow> int \<Rightarrow> HdrHistogram option" where
  "record_value h value =
     (if value < 0 then Some (h\<lparr> h_negative_count := h_negative_count h + 1 \<rparr>)
      else
        (let (h, value) = (if value > h_highest h
               then (h\<lparr> h_overflow_count := h_overflow_count h + 1 \<rparr>, h_highest h) else (h, value))
         in map_option (\<lambda>h.
              let h = h\<lparr> h_total_count := h_total_count h + 1 \<rparr>;
                  h = (if value > h_max h \<or> h_total_count h = 1 then h\<lparr> h_max := value \<rparr> else h)
              in if value < h_min h \<or> h_total_count h = 1 then h\<lparr> h_min := value \<rparr> else h)
            (bump h (counts_index_for h value) 1)))"

definition record_n :: "HdrHistogram \<Rightarrow> int \<Rightarrow> int \<Rightarrow> HdrHistogram option" where
  "record_n h value count =
     (if count \<le> 0 then Some h
      else if value < 0 then Some (h\<lparr> h_negative_count := h_negative_count h + count \<rparr>)
      else
        (let (h, value) = (if value > h_highest h
               then (h\<lparr> h_overflow_count := h_overflow_count h + count \<rparr>, h_highest h) else (h, value))
         in map_option (\<lambda>h.
              let h = h\<lparr> h_total_count := h_total_count h + count \<rparr>;
                  h = (if value > h_max h \<or> h_total_count h = count then h\<lparr> h_max := value \<rparr> else h)
              in if value < h_min h \<or> h_total_count h = count then h\<lparr> h_min := value \<rparr> else h)
            (bump h (counts_index_for h value) count)))"

definition reset_histogram :: "HdrHistogram \<Rightarrow> HdrHistogram" where
  "reset_histogram h =
     h\<lparr> h_counts := map (\<lambda>_. 0) (h_counts h), h_total_count := 0, h_overflow_count := 0, h_negative_count := 0,
        h_min := 0, h_max := 0 \<rparr>"

definition add_histogram :: "HdrHistogram \<Rightarrow> HdrHistogram \<Rightarrow> HdrHistogram \<times> bool" where
  "add_histogram h other =
     (if length (h_counts h) \<noteq> length (h_counts other) \<or> h_unit_magnitude h \<noteq> h_unit_magnitude other \<or>
         h_sub_bucket_count h \<noteq> h_sub_bucket_count other then (h, False)
      else
        (let h = h\<lparr> h_counts := map2 (+) (h_counts h) (h_counts other) \<rparr>;
             h = (if h_total_count other > 0 then
                    (if h_total_count h = 0 then h\<lparr> h_min := h_min other, h_max := h_max other \<rparr>
                     else h\<lparr> h_min := min (h_min h) (h_min other), h_max := max (h_max h) (h_max other) \<rparr>)
                  else h)
         in (h\<lparr> h_total_count := h_total_count h + h_total_count other,
               h_overflow_count := h_overflow_count h + h_overflow_count other,
               h_negative_count := h_negative_count h + h_negative_count other \<rparr>, True)))"

section \<open>Queries\<close>

definition hist_min :: "HdrHistogram \<Rightarrow> int" where
  "hist_min h = (if h_total_count h \<noteq> 0 then h_min h else 0)"

definition hist_max :: "HdrHistogram \<Rightarrow> int" where
  "hist_max h = (if h_total_count h \<noteq> 0 then h_max h else 0)"

definition hist_empty :: "HdrHistogram \<Rightarrow> bool" where
  "hist_empty h \<longleftrightarrow> h_total_count h = 0"

text \<open>The rank a percentile asks for: the double computation, then the clamp.\<close>

definition percentile_target :: "rat \<Rightarrow> int \<Rightarrow> int" where
  "percentile_target percentile n =
     (let percentile = max 0 (min percentile 100);
          target = \<lceil>rnd64 (rnd64 (percentile / 100) * rnd64 (of_int n))\<rceil>
      in max 1 (min target n))"

fun scan_counts :: "int list \<Rightarrow> int \<Rightarrow> nat \<Rightarrow> int \<Rightarrow> nat option" where
  "scan_counts [] running i target = None"
| "scan_counts (c # cs) running i target =
     (if running + c \<ge> target then Some i else scan_counts cs (running + c) (i + 1) target)"

definition value_at_percentile :: "HdrHistogram \<Rightarrow> rat \<Rightarrow> int" where
  "value_at_percentile h percentile =
     (if h_total_count h = 0 then 0
      else case scan_counts (h_counts h) 0 0 (percentile_target percentile (h_total_count h)) of
        Some i \<Rightarrow> highest_equivalent_value h (value_from_index h (int i))
      | None \<Rightarrow> h_max h)"

definition count_at_value :: "HdrHistogram \<Rightarrow> int \<Rightarrow> int option" where
  "count_at_value h value =
     (if value < 0 then Some 0
      else (let i = counts_index_for h (min value (h_highest h)) in
            if 0 \<le> i \<and> i < int (length (h_counts h)) then Some (h_counts h ! nat i) else None))"

definition median_at :: "HdrHistogram \<Rightarrow> nat \<Rightarrow> rat" where
  "median_at h i = rnd64 (of_int (median_equivalent_value h (value_from_index h (int i))))"

definition hist_mean :: "HdrHistogram \<Rightarrow> rat" where
  "hist_mean h =
     (if h_total_count h = 0 then 0
      else rnd64 (foldl (\<lambda>acc i. if h_counts h ! i = 0 then acc
                           else rnd64 (acc + rnd64 (rnd64 (of_int (h_counts h ! i)) * median_at h i)))
             0 [0..<length (h_counts h)] / rnd64 (of_int (h_total_count h))))"

text \<open>The square root of the mathematical library is an argument.\<close>

definition hist_stddev :: "(rat \<Rightarrow> rat) \<Rightarrow> HdrHistogram \<Rightarrow> rat" where
  "hist_stddev sqrt_of h =
     (if h_total_count h = 0 then 0
      else (let m = hist_mean h;
                squares = foldl (\<lambda>acc i. if h_counts h ! i = 0 then acc
                               else (let dev = rnd64 (median_at h i - m)
                                     in rnd64 (acc + rnd64 (rnd64 (dev * dev) * rnd64 (of_int (h_counts h ! i))))))
                        0 [0..<length (h_counts h)]
            in sqrt_of (rnd64 (squares / rnd64 (of_int (h_total_count h))))))"

definition memory_bytes :: "nat \<Rightarrow> HdrHistogram \<Rightarrow> nat" where
  "memory_bytes object_size h = length (h_counts h) * 8 + object_size"

section \<open>Reports\<close>

text \<open>\<^verbatim>\<open>printf\<close> with \<^verbatim>\<open>%.kf\<close> of a double: the exact value rounded to k decimals, ties to even.\<close>

definition print_fixed :: "nat \<Rightarrow> rat \<Rightarrow> string" where
  "print_fixed k x =
     (let n = nat (round_even (\<bar>x\<bar> * 10 ^ k)); frac = dec_of_nat (n mod 10 ^ k)
      in (if x < 0 then ''-'' else []) @ dec_of_nat (n div 10 ^ k) @
         (if k = 0 then [] else CHR ''.'' # replicate (k - length frac) (CHR ''0'') @ frac))"

definition csv_row :: "int \<Rightarrow> rat \<Rightarrow> int \<Rightarrow> rat \<Rightarrow> string" where
  "csv_row value pct running ratio =
     dec_of_int value @ '','' @ print_fixed 12 (rnd64 (pct / 100)) @ '','' @ dec_of_int running @ '','' @
     print_fixed 2 ratio @ [CHR 0x0A]"

text \<open>\<^verbatim>\<open>floor(log2(x))\<close> of a double is an argument: the library may round the logarithm up to an integer.\<close>

definition next_level :: "(rat \<Rightarrow> int) \<Rightarrow> int \<Rightarrow> rat \<Rightarrow> rat" where
  "next_level flog2 ticks level =
     (let half_distance = 2 powi (flog2 (rnd64 (100 / max (rnd64 (1 / 10 ^ 12)) (rnd64 (100 - level)))) + 1)
      in rnd64 (level + rnd64 (100 / rnd64 (half_distance * of_int ticks))))"

fun csv_rows :: "(rat \<Rightarrow> int) \<Rightarrow> HdrHistogram \<Rightarrow> int \<Rightarrow> int list \<Rightarrow> nat \<Rightarrow> int \<Rightarrow> rat \<Rightarrow> string" where
  "csv_rows flog2 h ticks [] i running level = []"
| "csv_rows flog2 h ticks (c # cs) i running level =
     (let running = running + c;
          pct = rnd64 (rnd64 (100 * rnd64 (of_int running)) / rnd64 (of_int (h_total_count h)))
      in if c \<noteq> 0 \<and> pct \<ge> level then
           (let row = csv_row (highest_equivalent_value h (value_from_index h (int i))) pct running
                  (if pct \<ge> 100 then 0 else rnd64 (100 / rnd64 (100 - pct)));
                level = next_level flog2 ticks level
            in if level \<ge> 100 then row else row @ csv_rows flog2 h ticks cs (i + 1) running level)
         else csv_rows flog2 h ticks cs (i + 1) running level)"

definition percentile_csv :: "(rat \<Rightarrow> int) \<Rightarrow> HdrHistogram \<Rightarrow> int \<Rightarrow> string" where
  "percentile_csv flog2 h ticks =
     ''Value,Percentile,TotalCount,1/(1-Percentile)'' @ [CHR 0x0A] @
     (if h_total_count h = 0 then [] else csv_rows flog2 h ticks (h_counts h) 0 0 0)"

definition summary_line :: "HdrHistogram \<Rightarrow> string \<Rightarrow> string" where
  "summary_line h unit =
     ''count='' @ dec_of_int (h_total_count h) @ '' min='' @ dec_of_int (hist_min h) @
     '' p50='' @ dec_of_int (value_at_percentile h 50) @ '' p90='' @ dec_of_int (value_at_percentile h 90) @
     '' p99='' @ dec_of_int (value_at_percentile h 99) @
     '' p99.9='' @ dec_of_int (value_at_percentile h (rnd64 (999 / 10))) @
     '' p99.99='' @ dec_of_int (value_at_percentile h (rnd64 (9999 / 100))) @
     '' max='' @ dec_of_int (hist_max h) @ '' mean='' @ print_fixed 1 (hist_mean h) @ unit"

lemma le_div_iff_pow: "n \<le> v div 2 ^ k \<longleftrightarrow> n * 2 ^ k \<le> v" for v n :: int
proof
  assume "n \<le> v div 2 ^ k"
  then have "n * 2 ^ k \<le> v div 2 ^ k * 2 ^ k" by (intro mult_right_mono) simp_all
  also have "\<dots> \<le> v" by (simp add: minus_mod_eq_div_mult [symmetric])
  finally show "n * 2 ^ k \<le> v" .
next
  assume "n * 2 ^ k \<le> v"
  then have "n * 2 ^ k div 2 ^ k \<le> v div 2 ^ k" by (intro zdiv_mono1) simp_all
  then show "n \<le> v div 2 ^ k" by simp
qed

lemma div_less_iff_pow: "v div 2 ^ k < n \<longleftrightarrow> v < n * 2 ^ k" for v n :: int
  using le_div_iff_pow [of n v k] by linarith

section \<open>Positions\<close>

text \<open>The geometry the constructor sets up; the histogram operations keep it.\<close>

definition geometry :: "HdrHistogram \<Rightarrow> bool" where
  "geometry h \<longleftrightarrow>
     (let u = h_unit_magnitude h; m = h_sub_bucket_half_count_magnitude h in
      h_sub_bucket_count h = 2 ^ Suc m \<and> h_sub_bucket_half_count h = 2 ^ m \<and>
      h_sub_bucket_mask h = (2 ^ Suc m - 1) * 2 ^ u \<and> length (h_counts h) = (h_bucket_count h + 1) * 2 ^ m \<and>
      0 \<le> h_highest h \<and> 1 \<le> h_bucket_count h \<and> h_highest h < 2 ^ (h_bucket_count h + u + m))"

lemma ilog_eqI: "2 ^ k \<le> n \<Longrightarrow> n < 2 ^ Suc k \<Longrightarrow> ilog n = k"
proof -
  assume n: "2 ^ k \<le> n" "n < 2 ^ Suc k"
  then have "0 < n" by (metis gr_zeroI le_zero_eq power_not_zero zero_neq_numeral)
  note b = ilog_bounds [OF this]
  have "(2 :: nat) ^ k < 2 ^ Suc (ilog n)" "(2 :: nat) ^ ilog n < 2 ^ Suc k" using b n by linarith+
  then have "k < Suc (ilog n)" "ilog n < Suc k" by (simp_all only: power_strict_increasing_iff one_less_numeral_iff semiring_norm)
  then show "ilog n = k" by simp
qed

lemma ilog_int:
  assumes "2 ^ k \<le> v" "v < 2 ^ Suc k"
  shows "ilog (nat v) = k"
proof (rule ilog_eqI)
  show "2 ^ k \<le> nat v" using assms(1) by (simp add: le_nat_iff)
  show "nat v < 2 ^ Suc k" using assms by (simp add: nat_less_iff)
qed

lemma bucket_index_small:
  assumes "geometry h" "0 \<le> v" "v < 2 ^ (h_unit_magnitude h + h_sub_bucket_half_count_magnitude h + 1)"
  shows "bucket_index h v = 0"
proof -
  let ?u = "h_unit_magnitude h" and ?m = "h_sub_bucket_half_count_magnitude h"
  have m: "h_sub_bucket_mask h = (2 ^ Suc ?m - 1) * 2 ^ ?u" using assms(1) by (simp add: geometry_def Let_def)
  have lo: "(2 :: int) ^ (?u + ?m) \<le> h_sub_bucket_mask h"
    by (simp add: m power_add algebra_simps)
  have hi: "h_sub_bucket_mask h < 2 ^ (?u + ?m + 1)" by (simp add: m power_add algebra_simps)
  have n: "0 \<le> h_sub_bucket_mask h" by (rule order_trans [OF _ lo]) simp
  have "h_sub_bucket_mask h \<le> v OR h_sub_bucket_mask h"
    using or_greater_eq [OF assms(2), of "h_sub_bucket_mask h"] by (simp add: or.commute)
  then have "ilog (nat (v OR h_sub_bucket_mask h)) = ?u + ?m"
    using lo OR_upper [OF assms(2,3) hi] by (intro ilog_int) simp_all
  then show ?thesis by (simp add: bucket_index_def)
qed

lemma bucket_index_large:
  assumes "geometry h" "2 ^ (h_unit_magnitude h + h_sub_bucket_half_count_magnitude h + b) \<le> v"
    "v < 2 ^ (h_unit_magnitude h + h_sub_bucket_half_count_magnitude h + b + 1)"
  shows "bucket_index h v = int b"
proof -
  let ?u = "h_unit_magnitude h" and ?m = "h_sub_bucket_half_count_magnitude h"
  have m: "h_sub_bucket_mask h = (2 ^ Suc ?m - 1) * 2 ^ ?u" using assms(1) by (simp add: geometry_def Let_def)
  have v: "0 \<le> v" by (rule order_trans [OF _ assms(2)]) simp
  have n: "0 \<le> h_sub_bucket_mask h" by (simp add: m)
  have "h_sub_bucket_mask h < 2 ^ (?u + ?m + 1)" by (simp add: m power_add algebra_simps)
  also have "\<dots> \<le> 2 ^ (?u + ?m + b + 1)" by (intro power_increasing) simp_all
  finally have hi: "h_sub_bucket_mask h < 2 ^ (?u + ?m + b + 1)" .
  have "ilog (nat (v OR h_sub_bucket_mask h)) = ?u + ?m + b"
    using assms(2) or_greater_eq [OF n, of v] OR_upper [OF v assms(3) hi] by (intro ilog_int) simp_all
  then show ?thesis by (simp add: bucket_index_def)
qed

text \<open>The position of a value: its bucket, and its sub-bucket, in the upper half unless the bucket is the first.\<close>

lemma position:
  assumes "geometry h" "0 \<le> v"
  obtains b where "bucket_index h v = int b" "sub_bucket_index h v (int b) = v div 2 ^ (b + h_unit_magnitude h)"
    "v div 2 ^ (b + h_unit_magnitude h) < 2 ^ Suc (h_sub_bucket_half_count_magnitude h)"
    "0 < b \<Longrightarrow> 2 ^ h_sub_bucket_half_count_magnitude h \<le> v div 2 ^ (b + h_unit_magnitude h)"
proof -
  let ?u = "h_unit_magnitude h" and ?m = "h_sub_bucket_half_count_magnitude h"
  have sub: "sub_bucket_index h v (int b) = v div 2 ^ (b + ?u)" for b
    by (simp add: sub_bucket_index_def drop_bit_eq_div nat_add_distrib)
  have below: "v div 2 ^ (b + ?u) < 2 ^ Suc ?m" if "v < 2 ^ (?u + ?m + b + 1)" for b
    using that by (simp add: div_less_iff_pow) (simp add: power_add mult_ac)
  show thesis
  proof (cases "v < 2 ^ (?u + ?m + 1)")
    case True
    then show ?thesis
      using that [of 0] bucket_index_small [OF assms] sub [of 0] below [of 0] by simp
  next
    case False
    define k where "k = ilog (nat v)"
    have "0 < v" using False by (metis linorder_not_less order_le_less zero_less_power zero_less_numeral assms(2))
    then have k: "2 ^ k \<le> v" "v < 2 ^ Suc k"
      using ilog_bounds [of "nat v"] by (simp_all add: k_def le_nat_iff nat_less_iff)
    have "(2 :: int) ^ (?u + ?m + 1) < 2 ^ Suc k" using False k by linarith
    then have "?u + ?m + 1 \<le> k" by (simp only: power_strict_increasing_iff one_less_numeral_iff semiring_norm less_Suc_eq_le)
    then obtain b where b: "k = ?u + ?m + b" "0 < b" by (metis Suc_eq_plus1 Suc_le_eq add.assoc le_iff_add zero_less_Suc add_Suc_right add_0_right Nat.add_0_right)
    have "2 ^ ?m \<le> v div 2 ^ (b + ?u)"
      using k(1) unfolding b(1) by (simp add: le_div_iff_pow) (simp add: power_add mult_ac)
    then show ?thesis
      using that [of b] bucket_index_large [OF assms(1), of b v] k b sub [of b] below [of b] by simp
  qed
qed

text \<open>Conversely, a bucket and a sub-bucket in range are those of every value they cover.\<close>

definition slot :: "HdrHistogram \<Rightarrow> nat \<Rightarrow> int \<Rightarrow> bool" where
  "slot h b s \<longleftrightarrow> 0 \<le> s \<and> s < 2 ^ Suc (h_sub_bucket_half_count_magnitude h) \<and>
     (0 < b \<longrightarrow> 2 ^ h_sub_bucket_half_count_magnitude h \<le> s)"

lemma slot_of:
  assumes "geometry h" "0 \<le> v"
  obtains b where "slot h b (v div 2 ^ (b + h_unit_magnitude h))"
  using position [OF assms] assms(2) unfolding slot_def by (metis pos_imp_zdiv_nonneg_iff zero_less_numeral zero_less_power)

lemma slot_bucket:
  assumes "geometry h" "0 \<le> v" "slot h b (v div 2 ^ (b + h_unit_magnitude h))"
  shows "bucket_index h v = int b" "sub_bucket_index h v (int b) = v div 2 ^ (b + h_unit_magnitude h)"
proof -
  let ?u = "h_unit_magnitude h" and ?m = "h_sub_bucket_half_count_magnitude h"
  have v: "v < 2 ^ Suc ?m * 2 ^ (b + ?u)" "0 < b \<Longrightarrow> 2 ^ ?m * 2 ^ (b + ?u) \<le> v"
    using assms(3) by (simp_all add: slot_def div_less_iff_pow le_div_iff_pow)
  show "bucket_index h v = int b"
  proof (cases "b = 0")
    case True
    then show ?thesis using bucket_index_small [OF assms(1,2)] v(1) by (simp add: power_add mult_ac)
  next
    case False
    then show ?thesis using v by (intro bucket_index_large [OF assms(1)]) (simp_all add: power_add mult_ac)
  qed
  show "sub_bucket_index h v (int b) = v div 2 ^ (b + ?u)"
    by (simp add: sub_bucket_index_def drop_bit_eq_div nat_add_distrib)
qed

lemma slot_facts:
  assumes "geometry h" "0 \<le> v" "s = v div 2 ^ (b + h_unit_magnitude h)" "slot h b s"
  shows "counts_index_for h v = int b * 2 ^ h_sub_bucket_half_count_magnitude h + s"
    "lowest_equivalent_value h v = s * 2 ^ (b + h_unit_magnitude h)"
    "size_of_equivalent_value_range h v = 2 ^ (b + h_unit_magnitude h)"
    "highest_equivalent_value h v = (s + 1) * 2 ^ (b + h_unit_magnitude h) - 1"
proof -
  note b = slot_bucket [OF assms(1,2) assms(4) [unfolded assms(3)]]
  have g: "h_sub_bucket_half_count h = 2 ^ h_sub_bucket_half_count_magnitude h"
    "h_sub_bucket_count h = 2 ^ Suc (h_sub_bucket_half_count_magnitude h)"
    using assms(1) by (simp_all add: geometry_def Let_def)
  have s: "s < 2 ^ Suc (h_sub_bucket_half_count_magnitude h)" using assms(4) by (simp add: slot_def)
  have e: "nat (int b + int (h_unit_magnitude h)) = b + h_unit_magnitude h"
    "nat (int (h_unit_magnitude h) + int b) = b + h_unit_magnitude h" by simp_all
  show "counts_index_for h v = int b * 2 ^ h_sub_bucket_half_count_magnitude h + s"
    by (simp add: counts_index_for_def b assms(3) g push_bit_eq_mult algebra_simps)
  show l: "lowest_equivalent_value h v = s * 2 ^ (b + h_unit_magnitude h)"
    by (simp only: lowest_equivalent_value_def Let_def b assms(3) [symmetric] e push_bit_eq_mult)
  show r: "size_of_equivalent_value_range h v = 2 ^ (b + h_unit_magnitude h)"
    using s by (simp only: size_of_equivalent_value_range_def Let_def b assms(3) [symmetric] g e push_bit_eq_mult) auto
  show "highest_equivalent_value h v = (s + 1) * 2 ^ (b + h_unit_magnitude h) - 1"
    by (simp add: highest_equivalent_value_def next_non_equivalent_value_def l r algebra_simps)
qed

lemma value_from_slot:
  assumes "geometry h" "slot h b s"
  shows "value_from_index h (int b * 2 ^ h_sub_bucket_half_count_magnitude h + s) = s * 2 ^ (b + h_unit_magnitude h)"
proof -
  let ?u = "h_unit_magnitude h" and ?m = "h_sub_bucket_half_count_magnitude h"
  let ?i = "int b * 2 ^ ?m + s"
  have g: "h_sub_bucket_half_count h = 2 ^ ?m" using assms(1) by (simp add: geometry_def Let_def)
  have mask: "i AND (2 ^ ?m - 1) = i mod 2 ^ ?m" for i :: int
    by (simp add: take_bit_eq_mod [symmetric] take_bit_eq_mask mask_eq_exp_minus_1)
  show ?thesis
  proof (cases "s < 2 ^ ?m")
    case True
    then have "b = 0" "0 \<le> s" using assms(2) by (auto simp: slot_def)
    then show ?thesis
      using True by (simp add: value_from_index_def g mask drop_bit_eq_div push_bit_eq_mult)
  next
    case False
    define t where "t = s - 2 ^ ?m"
    have t: "0 \<le> t" "t < 2 ^ ?m" using False assms(2) by (auto simp: t_def slot_def)
    have i: "?i = (int b + 1) * 2 ^ ?m + t" by (simp add: t_def algebra_simps)
    have d: "drop_bit ?m ?i = int b + 1" unfolding i drop_bit_eq_div using t by (simp add: div_pos_pos_trivial)
    have r: "?i AND (2 ^ ?m - 1) = t" unfolding i mask using t by simp
    have e: "nat (int b + int ?u) = b + ?u" by simp
    show ?thesis by (simp add: value_from_index_def g d r e push_bit_eq_mult) (simp add: t_def)
  qed
qed

lemma slot_index_bounds:
  assumes "slot h b s"
  shows "(0 < b \<longrightarrow> (int b + 1) * 2 ^ h_sub_bucket_half_count_magnitude h \<le> int b * 2 ^ h_sub_bucket_half_count_magnitude h + s)"
    "int b * 2 ^ h_sub_bucket_half_count_magnitude h + s < (int b + 2) * 2 ^ h_sub_bucket_half_count_magnitude h"
    "0 \<le> int b * 2 ^ h_sub_bucket_half_count_magnitude h + s"
  using assms by (auto simp: slot_def algebra_simps)

lemma index_mono:
  assumes "geometry h" "0 \<le> v" "v \<le> w"
  shows "counts_index_for h v \<le> counts_index_for h w"
proof -
  let ?u = "h_unit_magnitude h" and ?m = "h_sub_bucket_half_count_magnitude h"
  have w: "0 \<le> w" using assms by simp
  obtain b where b: "slot h b (v div 2 ^ (b + ?u))" using slot_of [OF assms(1,2)] .
  obtain c where c: "slot h c (w div 2 ^ (c + ?u))" using slot_of [OF assms(1) w] .
  note i = slot_facts(1) [OF assms(1,2) refl b] slot_facts(1) [OF assms(1) w refl c]
  consider "b = c" | "b < c" | "c < b" by linarith
  then show ?thesis
  proof cases
    case 1
    then show ?thesis using i zdiv_mono1 [OF assms(3), of "2 ^ (b + ?u)"] by simp
  next
    case 2
    then have "(int b + 2) * 2 ^ ?m \<le> (int c + 1) * 2 ^ ?m" by (intro mult_right_mono) simp_all
    then show ?thesis using i slot_index_bounds [OF b] slot_index_bounds [OF c] 2 by linarith
  next
    case 3
    have "w < 2 ^ Suc ?m * 2 ^ (c + ?u)" using c by (simp add: slot_def div_less_iff_pow)
    also have "\<dots> = 2 ^ ?m * 2 ^ (Suc c + ?u)" by (simp add: power_add)
    also have "\<dots> \<le> 2 ^ ?m * 2 ^ (b + ?u)" using 3 by (intro mult_left_mono power_increasing) simp_all
    also have "\<dots> \<le> v" using b 3 by (simp add: slot_def le_div_iff_pow)
    finally show ?thesis using assms(3) by simp
  qed
qed

lemma index_in_range:
  assumes "geometry h" "0 \<le> v" "v \<le> h_highest h"
  shows "0 \<le> counts_index_for h v \<and> counts_index_for h v < int (length (h_counts h))"
proof -
  let ?u = "h_unit_magnitude h" and ?m = "h_sub_bucket_half_count_magnitude h" and ?n = "h_bucket_count h"
  obtain b where b: "slot h b (v div 2 ^ (b + ?u))" using slot_of [OF assms(1,2)] .
  have g: "length (h_counts h) = (?n + 1) * 2 ^ ?m" "1 \<le> ?n" "h_highest h < 2 ^ (?n + ?u + ?m)"
    using assms(1) by (simp_all add: geometry_def Let_def)
  have "b < ?n"
  proof (cases "b = 0")
    case False
    then have "(2 :: int) ^ ?m * 2 ^ (b + ?u) \<le> v" using b by (simp add: slot_def le_div_iff_pow)
    then have "(2 :: int) ^ (b + ?u + ?m) \<le> v" by (simp add: power_add mult_ac)
    then have "(2 :: int) ^ (b + ?u + ?m) < 2 ^ (?n + ?u + ?m)" using assms(3) g(3) by linarith
    then have "b + ?u + ?m < ?n + ?u + ?m" by (simp only: power_strict_increasing_iff one_less_numeral_iff semiring_norm)
    then show ?thesis by simp
  qed (use g(2) in simp)
  then have "(int b + 2) * 2 ^ ?m \<le> (int ?n + 1) * 2 ^ ?m" by (intro mult_right_mono) simp_all
  moreover have "int (length (h_counts h)) = (int ?n + 1) * 2 ^ ?m" by (simp add: g(1) algebra_simps)
  ultimately show ?thesis
    using slot_facts(1) [OF assms(1,2) refl b] slot_index_bounds [OF b] by linarith
qed

lemma value_of_index:
  assumes "geometry h" "0 \<le> v"
  shows "value_from_index h (counts_index_for h v) = lowest_equivalent_value h v"
    "highest_equivalent_value h (value_from_index h (counts_index_for h v)) = highest_equivalent_value h v"
    "lowest_equivalent_value h v \<le> v" "v \<le> highest_equivalent_value h v"
proof -
  let ?u = "h_unit_magnitude h" and ?m = "h_sub_bucket_half_count_magnitude h"
  obtain b where b: "slot h b (v div 2 ^ (b + ?u))" using slot_of [OF assms] .
  define s where "s = v div 2 ^ (b + ?u)"
  have sl: "slot h b s" using b by (simp add: s_def)
  note f = slot_facts [OF assms s_def sl]
  show e: "value_from_index h (counts_index_for h v) = lowest_equivalent_value h v"
    using f value_from_slot [OF assms(1) sl] by simp
  have s: "0 \<le> s * 2 ^ (b + ?u)" "s = s * 2 ^ (b + ?u) div 2 ^ (b + ?u)" using sl by (simp_all add: slot_def)
  note f' = slot_facts [OF assms(1) s sl]
  show "highest_equivalent_value h (value_from_index h (counts_index_for h v)) = highest_equivalent_value h v"
    using e f f' by simp
  show "lowest_equivalent_value h v \<le> v" using f(2) le_div_iff_pow [of s v "b + ?u"] s_def by simp
  show "v \<le> highest_equivalent_value h v" using f(4) div_less_iff_pow [of v "b + ?u" "s + 1"] s_def by simp
qed

section \<open>The constructor\<close>

lemma bucket_loop_result:
  assumes "su = 2 ^ k" "k \<le> 62" "highest < 2 ^ 62"
  shows "\<exists>d. bucket_loop su highest n = Some (n + d) \<and> highest < su * 2 ^ d"
  using assms
proof (induction "62 - k" arbitrary: k su n)
  case 0
  then have "highest < su" by simp
  then show ?case by (subst bucket_loop.simps) (auto intro: exI [of _ 0])
next
  case (Suc j)
  show ?case
  proof (cases "su \<le> highest")
    case True
    have k: "k < 62" and j: "j = 62 - Suc k" using Suc.hyps(2) by simp_all
    have "su \<le> 2 ^ 61" using Suc.prems(1) k power_increasing [of k 61 "2 :: int"] by simp
    then have small: "\<not> su > (2 ^ 63 - 1) div 2" by simp
    obtain d where "bucket_loop (su * 2) highest (n + 1) = Some (n + 1 + d)" "highest < su * 2 * 2 ^ d"
      using Suc.hyps(1) [OF j _ _ Suc.prems(3), of "su * 2" "n + 1"] Suc.prems(1) k by auto
    then show ?thesis
      using True small by (subst bucket_loop.simps) (auto intro!: exI [of _ "Suc d"] simp: mult_ac)
  next
    case False
    then show ?thesis by (subst bucket_loop.simps) (auto intro: exI [of _ 0])
  qed
qed

lemma ceil_log2_figures: "f \<in> {1..5} \<Longrightarrow> ceil_log2 (2 * 10 ^ f) \<in> {5, 8, 11, 15, 18} \<and> 2 * 10 ^ f \<le> (2 :: int) ^ ceil_log2 (2 * 10 ^ f)"
proof -
  assume "f \<in> {1..5}"
  then have "f = 1 \<or> f = 2 \<or> f = 3 \<or> f = 4 \<or> f = 5" by auto
  moreover have "ilog 19 = 4" "ilog 199 = 7" "ilog 1999 = 10" "ilog 19999 = 14" "ilog 199999 = 17"
    by (rule ilog_eqI; simp)+
  ultimately show ?thesis by (auto simp: ceil_log2_def)
qed

lemma new_histogram_geometry:
  assumes "lowest < 2 ^ 40" "highest < 2 ^ 62" "new_histogram lowest highest figures = r"
  shows "\<exists>h. r = Some h \<and> geometry h \<and> h_counts h = replicate (length (h_counts h)) 0 \<and> h_total_count h = 0 \<and>
     h_overflow_count h = 0 \<and> h_negative_count h = 0 \<and> h_highest h = max highest (2 * max 1 lowest) \<and>
     h_significant_figures h = nat (max 1 (min 5 figures)) \<and>
     10 ^ h_significant_figures h \<le> (2 :: int) ^ h_sub_bucket_half_count_magnitude h \<and> 2 ^ h_unit_magnitude h \<le> h_lowest h \<and>
     h_lowest h = max 1 lowest"
proof -
  define lo where "lo = (if lowest < 1 then 1 else lowest)"
  define hi where "hi = (if highest < lo * 2 then lo * 2 else highest)"
  define f where "f = nat (if figures < 1 then 1 else if figures > 5 then 5 else figures)"
  define u where "u = floor_log2 lo"
  define k where "k = ceil_log2 (2 * 10 ^ f)"
  have f: "f \<in> {1..5}" "f = nat (max 1 (min 5 figures))" by (auto simp: f_def)
  have k: "k \<in> {5, 8, 11, 15, 18}" "2 * 10 ^ f \<le> (2 :: int) ^ k" using ceil_log2_figures [OF f(1)] by (auto simp: k_def)
  have lo: "1 \<le> lo" "lo < 2 ^ 40" "lo = max 1 lowest" using assms(1) by (auto simp: lo_def)
  have u: "2 ^ u \<le> lo" using lo(1) ilog_bounds [of "nat lo"] by (simp add: u_def floor_log2_def le_nat_iff)
  then have "(2 :: int) ^ u < 2 ^ 40" using lo(2) by linarith
  then have u40: "u < 40" by (simp only: power_strict_increasing_iff one_less_numeral_iff semiring_norm)
  have hi: "hi < 2 ^ 62" "hi = max highest (2 * max 1 lowest)" "0 \<le> hi"
    using assms(2) lo by (auto simp: hi_def)
  have su: "push_bit u ((2 :: int) ^ k) = 2 ^ (u + k)" by (simp add: push_bit_eq_mult power_add)
  have "u + k \<le> 62" using u40 k(1) by auto
  then obtain d where d: "bucket_loop (2 ^ (u + k)) hi 1 = Some (1 + d)" "hi < 2 ^ (u + k) * 2 ^ d"
    using bucket_loop_result [OF refl _ hi(1), of "u + k" 1] by blast
  have half: "(2 :: int) ^ k div 2 = 2 ^ (k - 1)" "Suc (k - 1) = k" using k(1) by auto
  have fig: "10 ^ f \<le> (2 :: int) ^ (k - 1)" using k half by auto
  have len: "nat ((int (1 + d) + 1) * 2 ^ (k - 1)) = (1 + d + 1) * 2 ^ (k - 1)"
    by (simp add: nat_mult_distrib nat_power_eq nat_add_distrib algebra_simps)
  have top: "hi < 2 ^ (1 + d + u + (k - 1))"
  proof -
    have "1 + d + u + (k - 1) = u + k + d" using half(2) by simp
    then show ?thesis using d(2) by (simp add: power_add mult_ac)
  qed
  define h where "h = \<lparr> h_lowest = lo, h_highest = hi, h_significant_figures = f, h_unit_magnitude = u,
    h_sub_bucket_count_magnitude = k, h_sub_bucket_half_count_magnitude = k - 1, h_sub_bucket_count = 2 ^ k,
    h_sub_bucket_half_count = 2 ^ (k - 1), h_sub_bucket_mask = push_bit u (2 ^ k - 1), h_bucket_count = 1 + d,
    h_counts = replicate ((1 + d + 1) * 2 ^ (k - 1)) 0, h_total_count = 0, h_overflow_count = 0, h_negative_count = 0,
    h_min = 0, h_max = 0 \<rparr>"
  have "new_histogram lowest highest figures = Some h"
    unfolding new_histogram_def Let_def lo_def [symmetric] f_def [symmetric] hi_def [symmetric] u_def [symmetric] k_def [symmetric] su half(1) h_def
    by (simp only: d(1) option.map len)
  moreover have "geometry h"
    unfolding geometry_def Let_def h_def HdrHistogram.simps half(2) using top hi(3) by (simp add: push_bit_eq_mult)
  moreover have "h_counts h = replicate (length (h_counts h)) 0" "h_total_count h = 0" "h_overflow_count h = 0"
    "h_negative_count h = 0" "h_highest h = hi" "h_significant_figures h = f" "h_lowest h = lo"
    "h_sub_bucket_half_count_magnitude h = k - 1" "h_unit_magnitude h = u"
    by (simp_all only: h_def HdrHistogram.simps length_replicate)
  ultimately show ?thesis
    unfolding assms(3) [symmetric] using hi(2) lo(3) f(2) u fig by (intro exI [of _ h] conjI) (simp_all only:)
qed

section \<open>Samples\<close>

text \<open>What the counters say: the histogram holds exactly these samples.\<close>

definition tracks :: "HdrHistogram \<Rightarrow> int list \<Rightarrow> bool" where
  "tracks h vs \<longleftrightarrow>
     geometry h \<and> (\<forall>v \<in> set vs. 0 \<le> v \<and> v \<le> h_highest h) \<and>
     (\<forall>i < length (h_counts h). h_counts h ! i = int (length (filter (\<lambda>v. counts_index_for h v = int i) vs))) \<and>
     h_total_count h = int (length vs) \<and> (vs \<noteq> [] \<longrightarrow> h_min h = Min (set vs) \<and> h_max h = Max (set vs))"

lemma index_frame [simp]:
  "counts_index_for (h\<lparr> h_counts := c \<rparr>) = counts_index_for h" "counts_index_for (h\<lparr> h_total_count := n \<rparr>) = counts_index_for h"
  "counts_index_for (h\<lparr> h_overflow_count := n \<rparr>) = counts_index_for h" "counts_index_for (h\<lparr> h_negative_count := n \<rparr>) = counts_index_for h"
  "counts_index_for (h\<lparr> h_min := n \<rparr>) = counts_index_for h" "counts_index_for (h\<lparr> h_max := n \<rparr>) = counts_index_for h"
  by (rule ext, simp add: counts_index_for_def bucket_index_def sub_bucket_index_def)+

lemma geometry_frame [simp]:
  "geometry (h\<lparr> h_total_count := n \<rparr>) = geometry h" "geometry (h\<lparr> h_overflow_count := n \<rparr>) = geometry h"
  "geometry (h\<lparr> h_negative_count := n \<rparr>) = geometry h" "geometry (h\<lparr> h_min := n \<rparr>) = geometry h"
  "geometry (h\<lparr> h_max := n \<rparr>) = geometry h" "length c = length (h_counts h) \<Longrightarrow> geometry (h\<lparr> h_counts := c \<rparr>) = geometry h"
  by (simp_all add: geometry_def Let_def)

lemma Min_Max_snoc:
  assumes "vs \<noteq> []"
  shows "Min (set (vs @ replicate (Suc n) v)) = min (Min (set vs)) v" "Max (set (vs @ replicate (Suc n) v)) = max (Max (set vs)) v"
proof -
  have "set (vs @ replicate (Suc n) v) = insert v (set vs)" by (simp only: set_append set_replicate_Suc Un_insert_right Un_empty_right)
  then show "Min (set (vs @ replicate (Suc n) v)) = min (Min (set vs)) v" "Max (set (vs @ replicate (Suc n) v)) = max (Max (set vs)) v"
    using assms by (simp_all add: min.commute max.commute del: set_append replicate_Suc)
qed

text \<open>Recording a value several times; \<^verbatim>\<open>record\<close> is the case of one.\<close>

definition recorded :: "HdrHistogram \<Rightarrow> int \<Rightarrow> int \<Rightarrow> HdrHistogram \<Rightarrow> HdrHistogram" where
  "recorded h0 v n h =
     (let h = h\<lparr> h_total_count := h_total_count h + n \<rparr>;
          h = (if v > h_max h \<or> h_total_count h = n then h\<lparr> h_max := v \<rparr> else h)
      in if v < h_min h \<or> h_total_count h = n then h\<lparr> h_min := v \<rparr> else h)"

lemma record_is_record_n: "record_value h v = record_n h v 1"
  by (simp add: record_value_def record_n_def)

lemma tracks_bump:
  assumes "tracks h vs" "0 \<le> v" "v \<le> h_highest h"
  shows "\<exists>h1. bump h (counts_index_for h v) (int (Suc n)) = Some h1 \<and> tracks (recorded h v (int (Suc n)) h1) (vs @ replicate (Suc n) v) \<and>
     h_highest (recorded h v (int (Suc n)) h1) = h_highest h"
proof -
  have g: "geometry h" using assms(1) by (simp add: tracks_def)
  define i where "i = nat (counts_index_for h v)"
  have i: "counts_index_for h v = int i" "i < length (h_counts h)"
    using index_in_range [OF g assms(2,3)] by (auto simp: i_def)
  define h1 where "h1 = h\<lparr> h_counts := (h_counts h)[i := h_counts h ! i + int (Suc n)] \<rparr>"
  have b: "bump h (counts_index_for h v) (int (Suc n)) = Some h1" using i by (simp add: bump_def h1_def)
  have c: "h_counts h1 ! j = int (length (filter (\<lambda>w. counts_index_for h w = int j) (vs @ replicate (Suc n) v)))"
    if "j < length (h_counts h)" for j
    using assms(1) that i by (auto simp: h1_def tracks_def nth_list_update)
  have rec: "h_counts (recorded h v (int (Suc n)) h1) = h_counts h1" "geometry (recorded h v (int (Suc n)) h1) = geometry h1"
    "counts_index_for (recorded h v (int (Suc n)) h1) = counts_index_for h1" "h_highest (recorded h v (int (Suc n)) h1) = h_highest h1"
    "h_total_count (recorded h v (int (Suc n)) h1) = h_total_count h1 + int (Suc n)"
    by (simp_all add: recorded_def Let_def)
  have mm: "h_min (recorded h v (int (Suc n)) h1) = Min (set (vs @ replicate (Suc n) v)) \<and>
      h_max (recorded h v (int (Suc n)) h1) = Max (set (vs @ replicate (Suc n) v))"
  proof (cases "vs = []")
    case True
    then have "set (vs @ replicate (Suc n) v) = {v}" by (simp only: append_Nil set_replicate_Suc)
    moreover have "h_total_count h1 = 0" using assms(1) True by (simp add: h1_def tracks_def)
    ultimately show ?thesis using True by (simp add: recorded_def Let_def del: replicate_Suc)
  next
    case False
    then have "h_total_count h1 \<noteq> 0" "h_min h1 = Min (set vs)" "h_max h1 = Max (set vs)"
      using assms(1) by (simp_all add: h1_def tracks_def)
    then show ?thesis unfolding Min_Max_snoc [OF False] by (simp add: recorded_def Let_def)
  qed
  have "geometry h1" "counts_index_for h1 = counts_index_for h" "h_highest h1 = h_highest h" "h_total_count h1 = h_total_count h"
    "length (h_counts h1) = length (h_counts h)"
    using g by (simp_all add: h1_def)
  note same = this
  have "\<forall>w \<in> set (vs @ replicate (Suc n) v). 0 \<le> w \<and> w \<le> h_highest h"
    using assms by (auto simp: tracks_def)
  moreover have "h_total_count h = int (length vs)" using assms(1) by (simp add: tracks_def)
  ultimately have total: "tracks (recorded h v (int (Suc n)) h1) (vs @ replicate (Suc n) v)"
    unfolding tracks_def rec same using c mm same by (intro conjI allI impI) (simp_all del: replicate_Suc)
  show ?thesis
    by (intro exI [of _ h1] conjI b total) (simp only: rec same)
qed

text \<open>The samples a call of \<^verbatim>\<open>record_n\<close> adds: clamped to the highest value; negative values are only counted.\<close>

definition accepted :: "int \<Rightarrow> int \<Rightarrow> int \<Rightarrow> int list" where
  "accepted highest v n = (if v < 0 then [] else replicate (nat n) (min v highest))"

lemma tracks_frame:
  "tracks (h\<lparr> h_overflow_count := n \<rparr>) vs = tracks h vs" "tracks (h\<lparr> h_negative_count := n \<rparr>) vs = tracks h vs"
  by (simp_all add: tracks_def)

lemma record_n_tracks:
  assumes "tracks h vs"
  shows "\<exists>h'. record_n h v n = Some h' \<and> tracks h' (vs @ accepted (h_highest h) v n) \<and> h_highest h' = h_highest h"
proof (cases "n \<le> 0 \<or> v < 0")
  case True
  then show ?thesis using assms by (auto simp: record_n_def accepted_def tracks_frame)
next
  case False
  define k where "k = nat n - 1"
  have k: "n = int (Suc k)" "nat n = Suc k" using False by (simp_all add: k_def)
  define h0 where "h0 = (if v > h_highest h then h\<lparr> h_overflow_count := h_overflow_count h + n \<rparr> else h)"
  define w where "w = min v (h_highest h)"
  have t: "tracks h0 vs" "h_highest h0 = h_highest h" using assms by (auto simp: h0_def tracks_frame)
  have "geometry h" using assms by (simp add: tracks_def)
  then have w: "0 \<le> w" "w \<le> h_highest h0" using False by (auto simp: w_def t(2) geometry_def Let_def)
  obtain h1 where h1: "bump h0 (counts_index_for h0 w) (int (Suc k)) = Some h1"
    "tracks (recorded h0 w (int (Suc k)) h1) (vs @ replicate (Suc k) w)" "h_highest (recorded h0 w (int (Suc k)) h1) = h_highest h0"
    using tracks_bump [OF t(1) w, of k] by blast
  have "(if v > h_highest h then (h\<lparr> h_overflow_count := h_overflow_count h + n \<rparr>, h_highest h) else (h, v)) = (h0, w)"
    by (simp add: h0_def w_def min_def)
  then have "record_n h v n = map_option (recorded h0 w n) (bump h0 (counts_index_for h0 w) n)"
    using False by (simp add: record_n_def recorded_def [abs_def])
  moreover have "accepted (h_highest h) v n = replicate (Suc k) w" using False by (simp add: accepted_def w_def k(2))
  ultimately show ?thesis using h1 t(2) k(1) by (intro exI [of _ "recorded h0 w n h1"]) (simp del: replicate_Suc)
qed

lemma reset_tracks: "tracks h vs \<Longrightarrow> tracks (reset_histogram h) []"
  by (simp add: tracks_def reset_histogram_def geometry_def Let_def)

lemma add_tracks:
  assumes "tracks h vs" "tracks g ws" "h_highest g = h_highest h"
    "length (h_counts h) = length (h_counts g)" "h_unit_magnitude h = h_unit_magnitude g" "h_sub_bucket_count h = h_sub_bucket_count g"
  shows "snd (add_histogram h g) \<and> tracks (fst (add_histogram h g)) (vs @ ws)"
proof -
  have gh: "geometry h" "geometry g" using assms by (simp_all add: tracks_def)
  have m: "h_sub_bucket_half_count_magnitude g = h_sub_bucket_half_count_magnitude h"
    using gh assms(6) by (simp add: geometry_def Let_def)
  have idx: "counts_index_for g = counts_index_for h"
    using gh assms(5,6) m
    by (intro ext) (simp add: counts_index_for_def bucket_index_def sub_bucket_index_def geometry_def Let_def)
  define r where "r = fst (add_histogram h g)"
  have r: "h_counts r = map2 (+) (h_counts h) (h_counts g)" "h_total_count r = h_total_count h + h_total_count g"
    "h_highest r = h_highest h" "counts_index_for r = counts_index_for h" "geometry r" "length (h_counts r) = length (h_counts h)"
    using assms(4-6) gh by (simp_all add: r_def add_histogram_def Let_def)
  have c: "\<forall>i < length (h_counts r). h_counts r ! i = int (length (filter (\<lambda>v. counts_index_for r v = int i) (vs @ ws)))"
    using assms(1,2,4) idx r(1,4,6) by (simp add: tracks_def)
  have "h_min r = Min (set (vs @ ws)) \<and> h_max r = Max (set (vs @ ws))" if "vs @ ws \<noteq> []"
    using that assms(1,2,4-6)
    by (cases "vs = []"; cases "ws = []") (auto simp: r_def add_histogram_def Let_def tracks_def Min_Un Max_Un)
  then have "tracks r (vs @ ws)"
    unfolding tracks_def using c r(2,3,5) assms(1-3) by (intro conjI impI) (auto simp: tracks_def)
  then show ?thesis using assms(4-6) by (simp add: r_def [symmetric]) (simp add: add_histogram_def Let_def)
qed

section \<open>Runs\<close>

fun record_all :: "HdrHistogram \<Rightarrow> int list \<Rightarrow> HdrHistogram option" where
  "record_all h [] = Some h"
| "record_all h (v # vs) = (case record_value h v of None \<Rightarrow> None | Some h \<Rightarrow> record_all h vs)"

definition samples :: "int \<Rightarrow> int list \<Rightarrow> int list" where
  "samples highest vs = map (\<lambda>v. min v highest) (filter (\<lambda>v. 0 \<le> v) vs)"

definition blank :: "HdrHistogram \<Rightarrow> HdrHistogram" where
  "blank h = h\<lparr> h_counts := [], h_total_count := 0, h_overflow_count := 0, h_negative_count := 0, h_min := 0, h_max := 0 \<rparr>"

text \<open>All of the state after the values \<^term>\<open>vs\<close> have been recorded in an empty histogram.\<close>

definition holds_run :: "HdrHistogram \<Rightarrow> HdrHistogram \<Rightarrow> int list \<Rightarrow> bool" where
  "holds_run h0 h vs \<longleftrightarrow>
     tracks h (samples (h_highest h0) vs) \<and> blank h = blank h0 \<and> length (h_counts h) = length (h_counts h0) \<and>
     (samples (h_highest h0) vs = [] \<longrightarrow> h_min h = 0 \<and> h_max h = 0) \<and>
     h_overflow_count h = int (length (filter (\<lambda>v. h_highest h0 < v) vs)) \<and>
     h_negative_count h = int (length (filter (\<lambda>v. v < 0) vs))"

lemma blank_fields:
  assumes "blank h = blank g"
  shows "h_highest h = h_highest g" "h_unit_magnitude h = h_unit_magnitude g" "h_sub_bucket_count h = h_sub_bucket_count g"
proof -
  have "h_highest (blank h) = h_highest (blank g)" "h_unit_magnitude (blank h) = h_unit_magnitude (blank g)"
    "h_sub_bucket_count (blank h) = h_sub_bucket_count (blank g)" using assms by simp_all
  then show "h_highest h = h_highest g" "h_unit_magnitude h = h_unit_magnitude g" "h_sub_bucket_count h = h_sub_bucket_count g"
    by (simp_all add: blank_def)
qed

lemma record_frame:
  assumes "record_value h v = Some h'"
  shows "blank h' = blank h" "length (h_counts h') = length (h_counts h)"
    "h_overflow_count h' = h_overflow_count h + (if 0 \<le> v \<and> h_highest h < v then 1 else 0)"
    "h_negative_count h' = h_negative_count h + (if v < 0 then 1 else 0)"
    "v < 0 \<Longrightarrow> h_min h' = h_min h \<and> h_max h' = h_max h"
  using assms by (auto simp: record_value_def bump_def blank_def Let_def split: if_splits)

lemma record_run:
  assumes "holds_run h0 h vs"
  shows "\<exists>h'. record_value h v = Some h' \<and> holds_run h0 h' (vs @ [v])"
proof -
  have hi: "h_highest h = h_highest h0" using assms blank_fields(1) [of h h0] by (simp add: holds_run_def)
  have g: "0 \<le> h_highest h" using assms by (simp add: holds_run_def tracks_def geometry_def Let_def)
  obtain h' where h': "record_value h v = Some h'" "tracks h' (samples (h_highest h0) vs @ accepted (h_highest h) v 1)"
    using record_n_tracks [of h _ v 1] assms unfolding record_is_record_n holds_run_def by blast
  have s: "samples (h_highest h0) (vs @ [v]) = samples (h_highest h0) vs @ accepted (h_highest h) v 1"
    by (simp add: samples_def accepted_def hi)
  note f = record_frame [OF h'(1)]
  have "holds_run h0 h' (vs @ [v])"
    unfolding holds_run_def using assms h'(2) f hi g
    by (auto simp: s holds_run_def) (auto simp: accepted_def split: if_splits)
  then show ?thesis using h'(1) by blast
qed

lemma record_all_run: "holds_run h0 h vs \<Longrightarrow> \<exists>h'. record_all h ws = Some h' \<and> holds_run h0 h' (vs @ ws)"
proof (induction ws arbitrary: h vs)
  case (Cons w ws)
  obtain h1 where "record_value h w = Some h1" "holds_run h0 h1 (vs @ [w])" using record_run [OF Cons.prems] by blast
  then show ?case using Cons.IH [of h1 "vs @ [w]"] by simp
qed simp

lemma run_unique:
  assumes "holds_run h0 h vs" "holds_run h0 g vs"
  shows "h = g"
proof -
  let ?s = "samples (h_highest h0) vs"
  have t: "tracks h ?s" "tracks g ?s" "blank h = blank g" "length (h_counts h) = length (h_counts g)"
    "h_overflow_count h = h_overflow_count g" "h_negative_count h = h_negative_count g"
    "?s = [] \<longrightarrow> h_min h = h_min g \<and> h_max h = h_max g"
    using assms by (simp_all add: holds_run_def)
  have idx: "counts_index_for h = counts_index_for g"
  proof -
    have "counts_index_for (blank h) = counts_index_for (blank g)" using t(3) by simp
    then show ?thesis by (simp add: blank_def)
  qed
  have "h_counts h = h_counts g"
    using t(1,2,4) idx by (intro nth_equalityI) (simp_all add: tracks_def)
  moreover have "h_total_count h = h_total_count g" "h_min h = h_min g" "h_max h = h_max g"
    using t(1,2,7) by (cases "?s = []"; simp add: tracks_def)+
  moreover have "h = (blank h)\<lparr> h_counts := h_counts h, h_total_count := h_total_count h, h_overflow_count := h_overflow_count h,
      h_negative_count := h_negative_count h, h_min := h_min h, h_max := h_max h \<rparr>" for h
    by (simp add: blank_def)
  ultimately show ?thesis using t(3,5,6) by metis
qed

lemma counts_prefix:
  assumes "tracks h vs" "k \<le> length (h_counts h)"
  shows "sum_list (take k (h_counts h)) = int (length (filter (\<lambda>v. counts_index_for h v < int k) vs))"
  using assms(2)
proof (induction k)
  case 0
  have "\<forall>v \<in> set vs. \<not> counts_index_for h v < 0"
    using assms(1) index_in_range [of h] by (auto simp: tracks_def not_less)
  then have "filter (\<lambda>v. counts_index_for h v < 0) vs = []" by (simp add: filter_empty_conv)
  then show ?case by simp
next
  case (Suc k)
  have "length (filter (\<lambda>v. counts_index_for h v < int (Suc k)) vs) =
      length (filter (\<lambda>v. counts_index_for h v < int k) vs) + length (filter (\<lambda>v. counts_index_for h v = int k) vs)"
    by (induction vs) auto
  moreover have "h_counts h ! k = int (length (filter (\<lambda>v. counts_index_for h v = int k) vs))"
    using assms(1) Suc.prems by (simp add: tracks_def)
  ultimately show ?case using Suc by (simp add: take_Suc_conv_app_nth)
qed

lemma tracks_sum:
  assumes "tracks h vs"
  shows "sum_list (h_counts h) = h_total_count h"
proof -
  have "\<forall>v \<in> set vs. counts_index_for h v < int (length (h_counts h))"
    using assms index_in_range [of h] by (auto simp: tracks_def)
  then have "filter (\<lambda>v. counts_index_for h v < int (length (h_counts h))) vs = vs" by (simp add: filter_id_conv)
  then show ?thesis using counts_prefix [OF assms, of "length (h_counts h)"] assms by (simp add: tracks_def)
qed

lemma add_run:
  assumes "holds_run h0 h vs" "holds_run h0 g ws"
  shows "\<exists>k. add_histogram h g = (k, True) \<and> holds_run h0 k (vs @ ws)"
proof -
  have b: "blank h = blank g" using assms by (simp add: holds_run_def)
  have len: "length (h_counts h) = length (h_counts g)" using assms by (simp add: holds_run_def)
  note f = blank_fields [OF b]
  obtain k where k: "add_histogram h g = (k, True)" "tracks k (samples (h_highest h0) vs @ samples (h_highest h0) ws)"
    using add_tracks [of h _ g, OF _ _ f(1) [symmetric] len f(2,3)] assms unfolding holds_run_def
    by (metis (full_types) prod.collapse)
  have "k = fst (add_histogram h g)" using k(1) by simp
  then have frame: "blank k = blank h" "length (h_counts k) = length (h_counts h)"
    "h_overflow_count k = h_overflow_count h + h_overflow_count g" "h_negative_count k = h_negative_count h + h_negative_count g"
    "h_total_count g = 0 \<Longrightarrow> h_min k = h_min h \<and> h_max k = h_max h"
    using len f by (auto simp: add_histogram_def Let_def blank_def)
  have "samples (h_highest h0) (vs @ ws) = samples (h_highest h0) vs @ samples (h_highest h0) ws" by (simp add: samples_def)
  then have "holds_run h0 k (vs @ ws)"
    using assms k(2) frame unfolding holds_run_def by (auto simp: tracks_def)
  then show ?thesis using k(1) by blast
qed

lemma new_run:
  assumes "lowest < 2 ^ 40" "highest < 2 ^ 62"
  shows "\<exists>h. new_histogram lowest highest figures = Some h \<and> holds_run h h [] \<and> geometry h \<and>
     h_highest h = max highest (2 * max 1 lowest) \<and>
     10 ^ h_significant_figures h \<le> (2 :: int) ^ h_sub_bucket_half_count_magnitude h \<and> 2 ^ h_unit_magnitude h \<le> h_lowest h \<and>
     h_significant_figures h = nat (max 1 (min 5 figures)) \<and> h_lowest h = max 1 lowest"
proof -
  obtain h where h: "new_histogram lowest highest figures = Some h" "geometry h" "h_counts h = replicate (length (h_counts h)) 0"
    "h_total_count h = 0" "h_overflow_count h = 0" "h_negative_count h = 0" "h_highest h = max highest (2 * max 1 lowest)"
    "h_significant_figures h = nat (max 1 (min 5 figures))" "10 ^ h_significant_figures h \<le> (2 :: int) ^ h_sub_bucket_half_count_magnitude h"
    "2 ^ h_unit_magnitude h \<le> h_lowest h" "h_lowest h = max 1 lowest"
    using new_histogram_geometry [OF assms refl, of figures] by (elim exE conjE)
  have "h_min h = 0" "h_max h = 0"
    using h(1) by (auto simp: new_histogram_def Let_def)
  moreover have "\<forall>i < length (h_counts h). h_counts h ! i = 0" using h(3) by (metis nth_replicate)
  ultimately have "holds_run h h []" using h(2,4,5,6) by (simp add: holds_run_def tracks_def samples_def)
  then show ?thesis using h by (intro exI [of _ h] conjI)
qed

text \<open>
  C9: recording never leaves the count array and merging is exact. A histogram with a highest value below 2^62
  takes every sequence of values (negative and oversized ones are counted apart, the latter also in the top bucket,
  so none is lost), and folding two per-worker histograms into one gives the histogram of all their
  values: the same counters, totals, minimum and maximum.
\<close>

theorem histogram_merge_exact:
  assumes "lowest < 2 ^ 40" "highest < 2 ^ 62"
  shows "\<exists>h0 h g k. new_histogram lowest highest figures = Some h0 \<and> record_all h0 vs = Some h \<and> record_all h0 ws = Some g \<and>
     record_all h0 (vs @ ws) = Some k \<and> add_histogram h g = (k, True) \<and>
     h_total_count k + h_negative_count k = int (length (vs @ ws)) \<and> sum_list (h_counts k) = h_total_count k"
proof -
  obtain h0 where h0: "new_histogram lowest highest figures = Some h0" "holds_run h0 h0 []" using new_run [OF assms] by blast
  obtain h where h: "record_all h0 vs = Some h" "holds_run h0 h vs" using record_all_run [OF h0(2), of vs] by auto
  obtain g where g: "record_all h0 ws = Some g" "holds_run h0 g ws" using record_all_run [OF h0(2), of ws] by auto
  obtain k where k: "record_all h0 (vs @ ws) = Some k" "holds_run h0 k (vs @ ws)" using record_all_run [OF h0(2), of "vs @ ws"] by auto
  have "add_histogram h g = (k, True)" using add_run [OF h(2) g(2)] run_unique [OF _ k(2)] by blast
  moreover have "h_total_count k + h_negative_count k = int (length (vs @ ws))"
    using k(2) sum_length_filter_compl [of "\<lambda>v. 0 \<le> v" "vs @ ws"]
    by (simp only: holds_run_def tracks_def samples_def length_map not_le of_nat_add [symmetric] of_nat_eq_iff)
  moreover have "sum_list (h_counts k) = h_total_count k" using tracks_sum k(2) unfolding holds_run_def by blast
  ultimately show ?thesis using h0(1) h(1) g(1) k(1) by (intro exI conjI)
qed

theorem histogram_merge_exact_witness:
  "\<exists>h0 h g k. new_histogram 1 100 3 = Some h0 \<and> record_all h0 [5, - 3, 900] = Some h \<and> record_all h0 [42] = Some g \<and>
     record_all h0 ([5, - 3, 900] @ [42]) = Some k \<and> add_histogram h g = (k, True) \<and> h_total_count k + h_negative_count k = 4"
proof -
  have b: "(1 :: int) < 2 ^ 40" "(100 :: int) < 2 ^ 62" by simp_all
  obtain h0 h g k where "new_histogram 1 100 3 = Some h0" "record_all h0 [5, - 3, 900] = Some h" "record_all h0 [42] = Some g"
    "record_all h0 ([5, - 3, 900] @ [42]) = Some k" "add_histogram h g = (k, True)"
    "h_total_count k + h_negative_count k = int (length [5, - 3, 900, 42 :: int])"
    using histogram_merge_exact [OF b, of 3 "[5, - 3, 900]" "[42]"] by auto
  then show ?thesis by (intro exI [of _ h0] exI [of _ h] exI [of _ g] exI [of _ k] conjI) simp_all
qed

end
