(* ===== verification/Http_Front.thy ===== *)
theory Http_Front
  imports Engine Hdr_Histogram "HOL-Library.Multiset"
begin

text \<open>
  The HTTP/1.1 front of the decision path (\<^verbatim>\<open>src/src/http_front.cpp\<close>): the query parser, the JSON
  rendering of a decision, the handling of one readable or writable connection, and the worker's pass
  over its connections with swap-removal. What the kernel returns from \<^verbatim>\<open>poll\<close>, \<^verbatim>\<open>accept\<close>, \<^verbatim>\<open>recv\<close> and
  \<^verbatim>\<open>send\<close> and the clock are arguments.
\<close>

unbundle bit_operations_syntax

section \<open>Query parsing\<close>

definition kRequestBufferBytes :: nat where "kRequestBufferBytes = 4096"
definition kResponseBufferBytes :: nat where "kResponseBufferBytes = 1024"
definition kMaxConnectionsPerWorker :: nat where "kMaxConnectionsPerWorker = 4096"
definition kIdleTimeoutMs :: u64 where "kIdleTimeoutMs = 30000"
definition kEndpoint :: string where "kEndpoint = ''/v1/decide''"

definition parse_u64_sv :: "string \<Rightarrow> u64 option" where
  "parse_u64_sv s =
     (if s = [] \<or> length s > 20 \<or> \<not> list_all is_digit s then None
      else Some (foldl (\<lambda>v c. v * 10 + of_nat (digit_val c)) 0 s))"

text \<open>The pairs \<^verbatim>\<open>for_each_param\<close> visits: the non-empty pieces between ampersands, split at the first equals sign.\<close>

definition query_params :: "string \<Rightarrow> (string \<times> string) list" where
  "query_params query =
     map (\<lambda>pair. case split_at_char (CHR ''='') pair of (k, None) \<Rightarrow> (k, []) | (k, Some v) \<Rightarrow> (k, v))
       (filter (\<lambda>pair. pair \<noteq> []) (split_all (CHR ''&'') query))"

definition uint_below :: "u64 \<Rightarrow> u64 \<Rightarrow> string \<Rightarrow> u64 option" where
  "uint_below lo hi value = (case parse_u64_sv value of Some n \<Rightarrow> if lo \<le> n \<and> n \<le> hi then Some n else None | None \<Rightarrow> None)"

definition dnn_param :: "RuleSet \<Rightarrow> string \<Rightarrow> u8 option" where
  "dnn_param rs value =
     (case index_of value (rs_dnn_names rs) of
        Some i \<Rightarrow> Some (of_nat i)
      | None \<Rightarrow>
          (case parse_u64_sv value of
             Some n \<Rightarrow> if unat n < length (rs_dnn_names rs) then Some (ucast n) else None
           | None \<Rightarrow> None))"

definition rat_param :: "string \<Rightarrow> u8 option" where
  "rat_param value =
     (if value = ''LTE'' \<or> value = ''lte'' \<or> value = ''4G'' then Some 0
      else if value = ''NR'' \<or> value = ''nr'' \<or> value = ''5G'' then Some 1
      else if value = ''WLAN'' \<or> value = ''wlan'' \<or> value = ''wifi'' then Some 2
      else case parse_u64_sv value of Some n \<Rightarrow> if n < 3 then Some (ucast n) else None | None \<Rightarrow> None)"

definition or_flag :: "string \<Rightarrow> u8 \<Rightarrow> PolicyRequest \<Rightarrow> PolicyRequest" where
  "or_flag value flag out =
     (if value \<noteq> ''0'' \<and> value \<noteq> ''false'' then out\<lparr> rq_flags := rq_flags out OR flag \<rparr> else out)"

text \<open>One parameter; \<^const>\<open>None\<close> is \<^verbatim>\<open>bad\<close>.\<close>

definition set_param :: "RuleSet \<Rightarrow> string \<Rightarrow> string \<Rightarrow> PolicyRequest \<Rightarrow> PolicyRequest option" where
  "set_param rs key value out =
     (if key = ''imsi'' then
        (case parse_imsi value of
           Some imsi \<Rightarrow> if imsi = 0 then None else Some (out\<lparr> rq_imsi := imsi \<rparr>)
         | None \<Rightarrow> None)
      else if key = ''imei'' then map_option (\<lambda>n. out\<lparr> rq_imei := n \<rparr>) (parse_imei value)
      else if key = ''plmn'' then map_option (\<lambda>n. out\<lparr> rq_plmn := n \<rparr>) (parse_plmn value)
      else if key = ''dnn'' then map_option (\<lambda>n. out\<lparr> rq_dnn_id := n \<rparr>) (dnn_param rs value)
      else if key = ''rat'' then map_option (\<lambda>n. out\<lparr> rq_rat_type := n \<rparr>) (rat_param value)
      else if key = ''qos_5qi'' then map_option (\<lambda>n. out\<lparr> rq_requested_5qi := ucast n \<rparr>) (uint_below 1 255 value)
      else if key = ''tac'' then map_option (\<lambda>n. out\<lparr> rq_tac := ucast n \<rparr>) (uint_below 0 65535 value)
      else if key = ''minute'' then map_option (\<lambda>n. out\<lparr> rq_local_minute := ucast n \<rparr>) (uint_below 0 1439 value)
      else if key = ''usage'' then
        map_option (\<lambda>n. out\<lparr> rq_bytes_used_period := n, rq_flags := rq_flags out OR kReqFlagUsageValid \<rparr>) (parse_u64_sv value)
      else if key = ''tethering'' then Some (or_flag value kReqFlagTetheringDetected out)
      else if key = ''emergency'' then Some (or_flag value kReqFlagEmergency out)
      else if key = ''seq'' then
        Some (case parse_u64_sv value of Some n \<Rightarrow> out\<lparr> rq_seq := ucast n \<rparr> | None \<Rightarrow> out)
      else None)"

fun set_params :: "RuleSet \<Rightarrow> (string \<times> string) list \<Rightarrow> PolicyRequest \<times> bool \<Rightarrow> string + PolicyRequest \<times> bool" where
  "set_params rs [] st = Inr st"
| "set_params rs ((key, value) # ps) st =
     (case set_param rs key value (fst st) of
        None \<Rightarrow> Inl key
      | Some out \<Rightarrow> set_params rs ps (out, snd st \<or> key = ''imsi''))"

text \<open>The request, or the error text; what is in \<^verbatim>\<open>out\<close> after an error is not read by the caller.\<close>

definition parse_decide_query :: "RuleSet \<Rightarrow> string \<Rightarrow> string + PolicyRequest" where
  "parse_decide_query rs query =
     (case set_params rs (query_params query)
             (zero_request\<lparr> rq_magic_version := kMagicVersion, rq_requested_5qi := 9, rq_local_minute := 720 \<rparr>, False) of
        Inl bad_key \<Rightarrow> Inl (''invalid or unknown parameter '' @ quoted bad_key)
      | Inr (out, have_imsi) \<Rightarrow> if \<not> have_imsi then Inl ''imsi is required'' else Inr out)"

section \<open>JSON\<close>

definition dq :: "string \<Rightarrow> string" where
  "dq s = CHR 0x22 # s @ [CHR 0x22]"

definition json_field :: "string \<Rightarrow> string \<Rightarrow> string" where
  "json_field key v = dq key @ '':'' @ v"

definition decision_json :: "PolicyDecision \<Rightarrow> string" where
  "decision_json d =
     ''{'' @ json_field ''verdict'' (dq (verdict_name (d_verdict d))) @
     '','' @ json_field ''reason'' (dq (reason_name (d_reason d))) @
     '','' @ json_field ''rule_id'' (dec_of_nat (unat (d_rule_id d))) @
     '','' @ json_field ''policy_version'' (dec_of_nat (unat (d_policy_version d))) @
     '','' @ json_field ''qos_5qi'' (dec_of_nat (unat (d_qos_5qi d))) @
     '','' @ json_field ''arp'' (dec_of_nat (unat (d_arp d))) @
     '','' @ json_field ''ambr_ul_kbps'' (dec_of_nat (unat (d_ambr_ul_kbps d))) @
     '','' @ json_field ''ambr_dl_kbps'' (dec_of_nat (unat (d_ambr_dl_kbps d))) @
     '','' @ json_field ''rating_group'' (dec_of_nat (unat (d_rating_group d))) @
     '','' @ json_field ''quota_bytes'' (dec_of_nat (unat (d_quota_bytes d))) @
     '','' @ json_field ''quota_validity_s'' (dec_of_nat (unat (d_quota_validity_s d))) @
     '','' @ json_field ''flags'' (dec_of_nat (unat (d_flags d))) @
     '','' @ json_field ''redirect_id'' (dec_of_nat (unat (d_redirect_id d))) @ ''}'' @ [CHR 0x0A]"

text \<open>The bytes written to a buffer of \<^verbatim>\<open>cap\<close> bytes; none when the text does not fit.\<close>

definition decision_to_json :: "PolicyDecision \<Rightarrow> nat \<Rightarrow> string" where
  "decision_to_json d cap = (if length (decision_json d) \<ge> cap then [] else decision_json d)"

section \<open>Connections\<close>

record Connection =
  cn_fd :: int
  cn_in :: string
  cn_out :: string
  cn_out_sent :: nat
  cn_last_active_ns :: u64
  cn_close_after_write :: bool

record HttpStats =
  hs_connections_accepted :: nat
  hs_requests :: nat
  hs_bad_requests :: nat
  hs_not_found :: nat
  hs_connections_closed :: nat

definition crlf :: string where "crlf = [CHR 0x0D, CHR 0x0A]"

text \<open>\<^verbatim>\<open>string_view::find\<close> of a text: the position of its first occurrence.\<close>

fun find_text :: "string \<Rightarrow> string \<Rightarrow> nat option" where
  "find_text pat [] = (if pat = [] then Some 0 else None)"
| "find_text pat (c # cs) = (if take (length pat) (c # cs) = pat then Some 0 else map_option Suc (find_text pat cs))"

datatype reply = Reply (rep_status: nat) (rep_text: string) (rep_body: string)

text \<open>What \<^verbatim>\<open>%s\<close> prints of a \<^verbatim>\<open>c_str()\<close>: the text up to the first null character.\<close>

definition c_text :: "string \<Rightarrow> string" where
  "c_text s = takeWhile (\<lambda>c. c \<noteq> CHR 0x00) s"

definition error_body :: "string \<Rightarrow> string" where
  "error_body msg = ''{'' @ json_field ''error'' (dq msg) @ ''}'' @ [CHR 0x0A]"

text \<open>A well-formed request line: its method and target.\<close>

definition split_request_line :: "string \<Rightarrow> (string \<times> string) option" where
  "split_request_line line =
     (case split_at_char (CHR '' '') line of
        (_, None) \<Rightarrow> None
      | (meth, Some rest) \<Rightarrow>
          (case split_at_char (CHR '' '') rest of (_, None) \<Rightarrow> None | (target, Some _) \<Rightarrow> Some (meth, target)))"

definition split_target :: "string \<Rightarrow> string \<times> string" where
  "split_target target =
     (case split_at_char (CHR ''?'') target of (path, None) \<Rightarrow> (path, []) | (path, Some query) \<Rightarrow> (path, query))"

text \<open>The decision endpoint; the length of the body counts, also beyond the buffer (as \<^verbatim>\<open>snprintf\<close> reports it).\<close>

definition decide_query :: "RuleSet \<Rightarrow> SubscriberStore \<Rightarrow> u64 \<Rightarrow> string \<Rightarrow> HttpStats \<Rightarrow> (reply \<times> HttpStats) option" where
  "decide_query rs store now query stats =
     (case parse_decide_query rs query of
        Inl e \<Rightarrow> Some (Reply 400 ''Bad Request'' (error_body (c_text e)), stats\<lparr> hs_bad_requests := hs_bad_requests stats + 1 \<rparr>)
      | Inr req \<Rightarrow>
          (case st_find store (rq_imsi req) of
             None \<Rightarrow> None
           | Some rec \<Rightarrow>
               (let req = (if rq_plmn req = 0 then req\<lparr> rq_plmn := (case rec of Some r \<Rightarrow> sr_home_plmn r | None \<Rightarrow> 0) \<rparr> else req)
                in map_option (\<lambda>d. (Reply 200 ''OK'' (decision_to_json d kResponseBufferBytes),
                                    stats\<lparr> hs_requests := hs_requests stats + 1 \<rparr>))
                     (evaluate rs req rec now))))"

definition answer_request ::
    "RuleSet option \<Rightarrow> SubscriberStore \<Rightarrow> u64 \<Rightarrow> string \<Rightarrow> HttpStats \<Rightarrow> (reply \<times> HttpStats) option" where
  "answer_request rs store now request_line stats =
     (case split_request_line request_line of
        None \<Rightarrow> Some (Reply 400 ''Bad Request'' (error_body ''malformed request line''),
                  stats\<lparr> hs_bad_requests := hs_bad_requests stats + 1 \<rparr>)
      | Some (meth, target) \<Rightarrow>
          (let (path, query) = split_target target in
           if path \<noteq> kEndpoint then
             Some (Reply 404 ''Not Found'' (error_body ''no such endpoint''), stats\<lparr> hs_not_found := hs_not_found stats + 1 \<rparr>)
           else if meth \<noteq> ''GET'' then
             Some (Reply 405 ''Method Not Allowed'' (error_body ''use GET''), stats\<lparr> hs_bad_requests := hs_bad_requests stats + 1 \<rparr>)
           else
             (case rs of
                None \<Rightarrow> Some (Reply 503 ''Service Unavailable'' (error_body ''no policy loaded''), stats)
              | Some rs \<Rightarrow> decide_query rs store now query stats)))"

definition response_head :: "reply \<Rightarrow> bool \<Rightarrow> string" where
  "response_head r keep_alive =
     ''HTTP/1.1 '' @ dec_of_nat (rep_status r) @ '' '' @ rep_text r @ crlf @
     ''Content-Type: application/json'' @ crlf @
     ''Content-Length: '' @ dec_of_nat (length (rep_body r)) @ crlf @
     ''Connection: '' @ (if keep_alive then ''keep-alive'' else ''close'') @ crlf @ crlf"

definition response_bytes :: "reply \<Rightarrow> bool \<Rightarrow> string" where
  "response_bytes r keep_alive =
     (let head = response_head r keep_alive
      in if length head + length (rep_body r) < kResponseBufferBytes then head @ rep_body r else [])"

text \<open>
  What the kernel answers to \<^verbatim>\<open>recv\<close> (the bytes waiting in the socket, of which a call takes what fits the
  buffer) and \<^verbatim>\<open>send\<close> (a positive number of bytes taken).
\<close>

datatype recv_result = RecvData string | RecvRetry | RecvEnd
datatype send_result = Sent nat | SendRetry | SendFail

text \<open>Every handler gives the connection back, or \<^const>\<open>None\<close> when it closes it.\<close>

definition flush_sent :: "Connection \<Rightarrow> Connection option" where
  "flush_sent c =
     (if cn_out_sent c \<ge> length (cn_out c)
      then if cn_close_after_write c then None else Some (c\<lparr> cn_out := [], cn_out_sent := 0 \<rparr>)
      else Some c)"

definition send_now :: "send_result \<Rightarrow> Connection \<Rightarrow> Connection option" where
  "send_now res c =
     (if cn_out c = [] then Some c
      else case res of
        Sent n \<Rightarrow> flush_sent (c\<lparr> cn_out_sent := n \<rparr>)
      | SendRetry \<Rightarrow> Some c
      | SendFail \<Rightarrow> None)"

definition idle_check :: "u64 \<Rightarrow> Connection \<Rightarrow> Connection option" where
  "idle_check now_ns c =
     (if now_ns - cn_last_active_ns c > kIdleTimeoutMs * 1000000 then None else Some c)"

definition on_writable :: "bool \<Rightarrow> u64 \<Rightarrow> send_result \<Rightarrow> Connection \<Rightarrow> Connection option" where
  "on_writable ready now_ns res c =
     (if \<not> ready then idle_check now_ns c
      else case res of
        Sent n \<Rightarrow> flush_sent (c\<lparr> cn_out_sent := cn_out_sent c + n, cn_last_active_ns := now_ns \<rparr>)
      | SendRetry \<Rightarrow> Some c
      | SendFail \<Rightarrow> None)"

text \<open>One complete request at the front of the buffer, up to \<^verbatim>\<open>head_end\<close>.\<close>

definition serve_request ::
    "RuleSet option \<Rightarrow> SubscriberStore \<Rightarrow> u64 \<Rightarrow> nat \<Rightarrow> Connection \<Rightarrow> HttpStats \<Rightarrow> (Connection \<times> HttpStats) option" where
  "serve_request rs store now head_end c stats =
     (let head = take head_end (cn_in c);
          request_line = (case find_text crlf head of Some n \<Rightarrow> take n head | None \<Rightarrow> head);
          keep_alive = (find_text ''close'' head = None)
      in map_option (\<lambda>(r, stats).
           (c\<lparr> cn_out := response_bytes r keep_alive, cn_out_sent := 0, cn_close_after_write := \<not> keep_alive,
               cn_in := drop (head_end + 4) (cn_in c) \<rparr>, stats))
         (answer_request rs store now request_line stats))"

definition on_readable ::
    "RuleSet option \<Rightarrow> SubscriberStore \<Rightarrow> u64 \<Rightarrow> u64 \<Rightarrow> recv_result \<Rightarrow> send_result \<Rightarrow> Connection \<Rightarrow> HttpStats \<Rightarrow>
     (Connection option \<times> HttpStats) option" where
  "on_readable rs store now now_ns rres sres c stats =
     (case rres of
        RecvRetry \<Rightarrow> Some (Some c, stats)
      | RecvEnd \<Rightarrow> Some (None, stats)
      | RecvData bytes \<Rightarrow>
          (let got = take (kRequestBufferBytes - length (cn_in c)) bytes;
               c = c\<lparr> cn_in := cn_in c @ got, cn_last_active_ns := now_ns \<rparr> in
           if got = [] then Some (None, stats)
           else case find_text (crlf @ crlf) (cn_in c) of
             None \<Rightarrow>
               if length (cn_in c) \<ge> kRequestBufferBytes
               then Some (None, stats\<lparr> hs_bad_requests := hs_bad_requests stats + 1 \<rparr>)
               else Some (Some c, stats)
           | Some head_end \<Rightarrow>
               map_option (\<lambda>(c, stats). (send_now sres c, stats)) (serve_request rs store now head_end c stats)))"

record poll_event =
  pe_error :: bool
  pe_readable :: bool
  pe_writable :: bool
  pe_recv :: recv_result
  pe_send :: send_result

definition handle_connection ::
    "RuleSet option \<Rightarrow> SubscriberStore \<Rightarrow> u64 \<Rightarrow> u64 \<Rightarrow> poll_event \<Rightarrow> Connection \<Rightarrow> HttpStats \<Rightarrow>
     (Connection option \<times> HttpStats) option" where
  "handle_connection rs store now now_ns ev c stats =
     (if pe_error ev then Some (None, stats)
      else if length (cn_out c) > cn_out_sent c then
        Some (on_writable (pe_writable ev) now_ns (pe_send ev) c, stats)
      else if \<not> pe_readable ev then Some (idle_check now_ns c, stats)
      else on_readable rs store now now_ns (pe_recv ev) (pe_send ev) c stats)"

section \<open>The worker\<close>

text \<open>\<^verbatim>\<open>close_conn\<close>: the last connection takes the place of the closed one.\<close>

definition close_conn :: "nat \<Rightarrow> Connection list \<Rightarrow> Connection list" where
  "close_conn i conns = butlast (conns[i := last conns])"

definition new_connection :: "u64 \<Rightarrow> int \<Rightarrow> Connection" where
  "new_connection now_ns fd =
     \<lparr> cn_fd = fd, cn_in = [], cn_out = [], cn_out_sent = 0, cn_last_active_ns = now_ns, cn_close_after_write = False \<rparr>"

text \<open>Accepting: \<^term>\<open>clients\<close> are the descriptors \<^verbatim>\<open>accept\<close> returns before it fails, each with the clock.\<close>

definition accept_loop :: "(int \<times> u64) list \<Rightarrow> Connection list \<Rightarrow> HttpStats \<Rightarrow> Connection list \<times> HttpStats" where
  "accept_loop clients conns stats =
     (let taken = take (min 64 (kMaxConnectionsPerWorker - length conns)) clients
      in (conns @ map (\<lambda>(fd, accepted_ns). new_connection accepted_ns fd) taken,
          stats\<lparr> hs_connections_accepted := hs_connections_accepted stats + length taken \<rparr>))"

text \<open>The pass over the connections, downwards; \<^term>\<open>pfds\<close> are the polled descriptors without the listener.\<close>

primrec visit ::
    "(poll_event \<Rightarrow> Connection \<Rightarrow> HttpStats \<Rightarrow> (Connection option \<times> HttpStats) option) \<Rightarrow> (int \<times> poll_event) list \<Rightarrow>
     nat \<Rightarrow> Connection list \<Rightarrow> HttpStats \<Rightarrow> (Connection list \<times> HttpStats) option" where
  "visit handle pfds 0 conns stats = Some (conns, stats)"
| "visit handle pfds (Suc i) conns stats =
     (if i \<ge> length pfds \<or> fst (pfds ! i) \<noteq> cn_fd (conns ! i) then visit handle pfds i conns stats
      else case handle (snd (pfds ! i)) (conns ! i) stats of
        None \<Rightarrow> None
      | Some (Some c, stats) \<Rightarrow> visit handle pfds i (conns[i := c]) stats
      | Some (None, stats) \<Rightarrow>
          visit handle pfds i (close_conn i conns) (stats\<lparr> hs_connections_closed := hs_connections_closed stats + 1 \<rparr>))"

text \<open>One round: poll (the events), accept, pass.\<close>

definition worker_round ::
    "RuleSet option \<Rightarrow> SubscriberStore \<Rightarrow> u64 \<Rightarrow> u64 \<Rightarrow> (int \<Rightarrow> poll_event) \<Rightarrow> (int \<times> u64) list \<Rightarrow>
     Connection list \<Rightarrow> HttpStats \<Rightarrow> (Connection list \<times> HttpStats) option" where
  "worker_round rs store now now_ns events clients conns stats =
     (let pfds = map (\<lambda>c. (cn_fd c, events (cn_fd c))) conns;
          (conns, stats) = accept_loop clients conns stats
      in visit (handle_connection rs store now now_ns) pfds (length conns) conns stats)"

definition sum_stats :: "HttpStats list \<Rightarrow> HttpStats" where
  "sum_stats ss =
     \<lparr> hs_connections_accepted = sum_list (map hs_connections_accepted ss), hs_requests = sum_list (map hs_requests ss),
       hs_bad_requests = sum_list (map hs_bad_requests ss), hs_not_found = sum_list (map hs_not_found ss),
       hs_connections_closed = sum_list (map hs_connections_closed ss) \<rparr>"

section \<open>Replies fit\<close>

lemma dec_length: "n < 10 ^ Suc k \<Longrightarrow> length (dec_of_nat n) \<le> Suc k"
proof (induction k arbitrary: n)
  case 0
  then show ?case by (simp add: dec_of_nat.simps)
next
  case (Suc k)
  show ?case
  proof (cases "n < 10")
    case True
    then show ?thesis by (simp add: dec_of_nat.simps)
  next
    case False
    have "n div 10 < 10 ^ Suc k" using Suc.prems by (simp add: less_mult_imp_div_less mult.commute)
    then show ?thesis using Suc.IH [of "n div 10"] False by (subst dec_of_nat.simps) simp
  qed
qed

lemma dec_word_length:
  "length (dec_of_nat (unat (a :: u8))) \<le> 3" "length (dec_of_nat (unat (b :: u32))) \<le> 10" "length (dec_of_nat (unat (c :: u64))) \<le> 20"
  using unat_less_power [of a] unat_less_power [of b] unat_less_power [of c]
    dec_length [of "unat a" 2] dec_length [of "unat b" 9] dec_length [of "unat c" 19] by simp_all

lemma name_lengths: "length (verdict_name v) \<le> 8" "length (reason_name r) \<le> 25"
  by (simp_all add: verdict_name_def reason_name_def)

lemma decision_json_length: "length (decision_json d) \<le> 360"
proof -
  show ?thesis
    using name_lengths(1) [of "d_verdict d"] name_lengths(2) [of "d_reason d"]
      dec_word_length(1) [of "d_qos_5qi d"] dec_word_length(1) [of "d_arp d"] dec_word_length(1) [of "d_flags d"]
      dec_word_length(1) [of "d_redirect_id d"] dec_word_length(2) [of "d_rule_id d"] dec_word_length(2) [of "d_policy_version d"]
      dec_word_length(2) [of "d_ambr_ul_kbps d"] dec_word_length(2) [of "d_ambr_dl_kbps d"] dec_word_length(2) [of "d_rating_group d"]
      dec_word_length(3) [of "d_quota_bytes d"] dec_word_length(2) [of "d_quota_validity_s d"]
    by (simp add: decision_json_def json_field_def dq_def)
qed

text \<open>
  C35: a decision always reaches the client: its JSON text has at most 360 bytes, so it fits the body buffer, and head and
  body together fit the response buffer, for every decision and either connection mode. An error
  about a parameter name of 1024 or more bytes does not fit, and then nothing at all is sent.
\<close>

theorem http_reply_fits:
  "length (decision_json d) \<le> 360 \<and>
   response_bytes (Reply 200 ''OK'' (decision_to_json d kResponseBufferBytes)) keep_alive =
     response_head (Reply 200 ''OK'' (decision_json d)) keep_alive @ decision_json d \<and>
   (1024 \<le> length key \<and> CHR 0x00 \<notin> set key \<longrightarrow>
      response_bytes (Reply 400 ''Bad Request'' (error_body (c_text (''invalid or unknown parameter '' @ quoted key)))) keep_alive = [])"
proof -
  have fits: "decision_to_json d kResponseBufferBytes = decision_json d"
    using decision_json_length [of d] by (simp add: decision_to_json_def kResponseBufferBytes_def)
  have "length (dec_of_nat (length (decision_json d))) \<le> 3"
    using decision_json_length [of d] dec_length [of "length (decision_json d)" 2] by simp
  moreover have "dec_of_nat 200 = ''200''" by code_simp
  ultimately have "length (response_head (Reply 200 ''OK'' (decision_json d)) keep_alive) \<le> 200"
    by (simp add: response_head_def crlf_def)
  then have "length (response_head (Reply 200 ''OK'' (decision_json d)) keep_alive) + length (decision_json d) < kResponseBufferBytes"
    using decision_json_length [of d] by (simp add: kResponseBufferBytes_def)
  then have "response_bytes (Reply 200 ''OK'' (decision_to_json d kResponseBufferBytes)) keep_alive =
      response_head (Reply 200 ''OK'' (decision_json d)) keep_alive @ decision_json d"
    by (simp add: fits response_bytes_def Let_def)
  moreover have "1024 \<le> length (error_body (c_text (''invalid or unknown parameter '' @ quoted key)))"
    if "1024 \<le> length key" "CHR 0x00 \<notin> set key"
  proof -
    have "c_text (''invalid or unknown parameter '' @ quoted key) = ''invalid or unknown parameter '' @ quoted key"
      unfolding c_text_def takeWhile_eq_all_conv using that by (auto simp: quoted_def)
    then show ?thesis using that(1) by (simp add: error_body_def json_field_def dq_def quoted_def)
  qed
  then have "1024 \<le> length key \<and> CHR 0x00 \<notin> set key \<longrightarrow>
      response_bytes (Reply 400 ''Bad Request'' (error_body (c_text (''invalid or unknown parameter '' @ quoted key)))) keep_alive = []"
    unfolding response_bytes_def Let_def reply.sel kResponseBufferBytes_def by auto
  ultimately show ?thesis
    using decision_json_length [of d] by blast
qed

theorem http_reply_fits_witness:
  "length (decision_json zero_decision) \<le> 360 \<and>
   response_bytes (Reply 400 ''Bad Request'' (error_body (c_text (''invalid or unknown parameter '' @ quoted (replicate 1024 CHR ''x''))))) True = []"
  using http_reply_fits [of zero_decision True "replicate 1024 CHR ''x''"] by simp

section \<open>The pass visits every polled connection once\<close>

fun handle_each ::
    "(poll_event \<Rightarrow> Connection \<Rightarrow> HttpStats \<Rightarrow> (Connection option \<times> HttpStats) option) \<Rightarrow> (poll_event \<times> Connection) list \<Rightarrow>
     HttpStats \<Rightarrow> (Connection list \<times> HttpStats) option" where
  "handle_each handle [] stats = Some ([], stats)"
| "handle_each handle ((ev, c) # rest) stats =
     (case handle ev c stats of
        None \<Rightarrow> None
      | Some (None, stats) \<Rightarrow> handle_each handle rest (stats\<lparr> hs_connections_closed := hs_connections_closed stats + 1 \<rparr>)
      | Some (Some c, stats) \<Rightarrow>
          (case handle_each handle rest stats of None \<Rightarrow> None | Some (cs, stats) \<Rightarrow> Some (c # cs, stats)))"

lemma mset_close_conn:
  assumes "i < length conns"
  shows "mset conns = add_mset (conns ! i) (mset (close_conn i conns))" "length (close_conn i conns) = length conns - 1"
    "k < i \<Longrightarrow> close_conn i conns ! k = conns ! k"
proof -
  have ne: "conns \<noteq> []" using assms by auto
  show "length (close_conn i conns) = length conns - 1" by (simp add: close_conn_def)
  show "k < i \<Longrightarrow> close_conn i conns ! k = conns ! k" using assms by (simp add: close_conn_def nth_butlast)
  show "mset conns = add_mset (conns ! i) (mset (close_conn i conns))"
  proof -
    obtain ys y where c: "conns = ys @ [y]" using ne by (metis rev_exhaust)
    show ?thesis
    proof (cases "i < length ys")
      case True
      then have "close_conn i conns = ys[i := y]" by (simp add: close_conn_def c list_update_append)
      then show ?thesis using True by (simp add: c nth_append mset_update)
    next
      case False
      then have "i = length ys" using assms c by simp
      then show ?thesis by (simp add: close_conn_def c)
    qed
  qed
qed

lemma drop_list_update_here: "i < length xs \<Longrightarrow> drop i (xs[i := x]) = x # drop (Suc i) xs"
  by (metis Cons_nth_drop_Suc drop_update_cancel length_list_update lessI nth_list_update_eq)

lemma visit_skip:
  assumes "length pfds \<le> n"
  shows "visit handle pfds n conns stats = visit handle pfds (length pfds) conns stats"
  using assms
proof (induction n)
  case (Suc n)
  then show ?case by (cases "length pfds \<le> n") (auto simp: le_Suc_eq)
qed simp

text \<open>Same outcome, the surviving connections in any order, next to those that were not polled.\<close>

definition same_round ::
    "(Connection list \<times> HttpStats) option \<Rightarrow> (Connection list \<times> HttpStats) option \<Rightarrow> Connection list \<Rightarrow> bool" where
  "same_round r e rest =
     (case (r, e) of
        (None, None) \<Rightarrow> True
      | (Some (conns, s), Some (cs, s')) \<Rightarrow> s = s' \<and> mset conns = mset cs + mset rest
      | _ \<Rightarrow> False)"

lemma same_round_Cons:
  "same_round r e (c # rest) \<Longrightarrow>
     same_round r (case e of None \<Rightarrow> None | Some (cs, s) \<Rightarrow> Some (c # cs, s)) rest"
  by (auto simp: same_round_def split: option.splits)

lemma same_round_mset: "mset rest = mset rest' \<Longrightarrow> same_round r e rest = same_round r e rest'"
  by (auto simp: same_round_def split: option.splits)

lemma visit_each:
  assumes "n \<le> length pfds" "n \<le> length conns" "map fst (take n pfds) = map cn_fd (take n conns)"
  shows "same_round (visit handle pfds n conns stats)
           (handle_each handle (rev (zip (map snd (take n pfds)) (take n conns))) stats) (drop n conns)"
  using assms
proof (induction n arbitrary: conns stats)
  case 0
  then show ?case by (simp add: same_round_def)
next
  case (Suc i)
  have i: "i < length pfds" "i < length conns" using Suc.prems by simp_all
  have tp: "take (Suc i) pfds = take i pfds @ [pfds ! i]" "take (Suc i) conns = take i conns @ [conns ! i]"
    using i by (simp_all add: take_Suc_conv_app_nth)
  have fds: "map fst (take i pfds) = map cn_fd (take i conns)" "fst (pfds ! i) = cn_fd (conns ! i)"
    using Suc.prems(3) by (simp_all add: tp)
  have z: "rev (zip (map snd (take (Suc i) pfds)) (take (Suc i) conns)) =
      (snd (pfds ! i), conns ! i) # rev (zip (map snd (take i pfds)) (take i conns))"
    using i by (simp add: tp)
  show ?case
  proof (cases "handle (snd (pfds ! i)) (conns ! i) stats")
    case None
    then show ?thesis using i fds(2) by (simp add: z same_round_def)
  next
    case (Some r)
    obtain co s where r: "r = (co, s)" by fastforce
    show ?thesis
    proof (cases co)
      case None
      have tk: "take i (close_conn i conns) = take i conns"
        using i mset_close_conn(2,3) [OF i(2)] by (intro nth_equalityI) auto
      have len: "i \<le> length (close_conn i conns)" using mset_close_conn(2) [OF i(2)] i by simp
      have "mset (drop i (close_conn i conns)) = mset (drop (Suc i) conns)"
      proof -
        have "mset (take i conns) + mset (drop i (close_conn i conns)) = mset (close_conn i conns)"
          by (metis append_take_drop_id mset_append tk)
        moreover have "mset (take i conns) + add_mset (conns ! i) (mset (drop (Suc i) conns)) = mset conns"
          using i(2) by (metis Cons_nth_drop_Suc append_take_drop_id mset.simps(2) mset_append)
        ultimately show ?thesis using mset_close_conn(1) [OF i(2)] by (metis add_left_imp_eq add_mset_add_mset_same_iff union_mset_add_mset_right)
      qed
      then show ?thesis
        using Suc.IH [of "close_conn i conns" "s\<lparr> hs_connections_closed := hs_connections_closed s + 1 \<rparr>"] i fds Some r None len tk
          same_round_mset [of "drop i (close_conn i conns)" "drop (Suc i) conns"]
        by (simp add: z)
    next
      case keep: (Some c)
      have "drop i (conns[i := c]) = c # drop (Suc i) conns"
        using i(2) by (simp add: drop_list_update_here)
      moreover have "take i (conns[i := c]) = take i conns" by simp
      ultimately show ?thesis
        using Suc.IH [of "conns[i := c]" s] i fds Some r keep same_round_Cons by (simp add: z)
    qed
  qed
qed

text \<open>
  C11: a worker round handles every connection that was polled exactly once, from the last to the first, each with
  its own events, and does not touch a connection accepted in the same round; closing by moving the last
  connection into the hole neither skips nor repeats one. The surviving connections and the statistics
  are those of handling the polled connections one after the other.
\<close>

theorem worker_round_once:
  "same_round (worker_round rs store now now_ns events clients conns stats)
     (handle_each (handle_connection rs store now now_ns) (map (\<lambda>c. (events (cn_fd c), c)) (rev conns))
        (snd (accept_loop clients conns stats)))
     (drop (length conns) (fst (accept_loop clients conns stats)))"
proof -
  define pfds where "pfds = map (\<lambda>c. (cn_fd c, events (cn_fd c))) conns"
  obtain cs st where a: "accept_loop clients conns stats = (conns @ cs, st)"
    by (auto simp: accept_loop_def Let_def)
  have "zip (map snd pfds) conns = map (\<lambda>c. (events (cn_fd c), c)) conns"
    by (simp add: pfds_def zip_map1 zip_same_conv_map comp_def)
  then show ?thesis
    using visit_skip [of pfds "length (conns @ cs)" "handle_connection rs store now now_ns" "conns @ cs" st]
      visit_each [of "length conns" pfds "conns @ cs" "handle_connection rs store now now_ns" st]
    by (simp add: worker_round_def a pfds_def [symmetric] rev_map [symmetric]) (simp add: pfds_def comp_def)
qed

section \<open>Pipelined requests\<close>

definition quiet :: "poll_event \<Rightarrow> bool" where
  "quiet ev \<longleftrightarrow> \<not> pe_error ev \<and> \<not> pe_readable ev"

text \<open>A sequence of rounds for one connection, until it is closed.\<close>

fun rounds ::
    "RuleSet option \<Rightarrow> SubscriberStore \<Rightarrow> u64 \<Rightarrow> (u64 \<times> poll_event) list \<Rightarrow> Connection option \<Rightarrow> HttpStats \<Rightarrow>
     (Connection option \<times> HttpStats) option" where
  "rounds rs store now [] c stats = Some (c, stats)"
| "rounds rs store now (e # es) None stats = Some (None, stats)"
| "rounds rs store now (e # es) (Some c) stats =
     (case handle_connection rs store now (fst e) (snd e) c stats of
        None \<Rightarrow> None | Some (c', stats') \<Rightarrow> rounds rs store now es c' stats')"

lemma crlf_nonempty: "crlf \<noteq> []"
  by (simp add: crlf_def)

lemma quiet_rounds:
  assumes "\<forall>e \<in> set es. quiet (snd e)" "length (cn_out c) \<le> cn_out_sent c"
  shows "rounds rs store now es (Some c) stats = Some (Some c, stats) \<or> rounds rs store now es (Some c) stats = Some (None, stats)"
  using assms
proof (induction es)
  case (Cons e es)
  have h: "handle_connection rs store now (fst e) (snd e) c stats = Some (idle_check (fst e) c, stats)"
    using Cons.prems by (simp add: handle_connection_def quiet_def)
  show ?case
  proof (cases "idle_check (fst e) c")
    case None
    then show ?thesis using h by (cases es) auto
  next
    case (Some c')
    then have "c' = c" by (simp add: idle_check_def split: if_splits)
    then show ?thesis using h Some Cons by simp
  qed
qed simp

lemma find_text_fits: "find_text p xs = Some n \<Longrightarrow> length p \<le> length xs"
proof (induction xs arbitrary: n)
  case (Cons x xs)
  then show ?case
    by (cases "take (length p) (x # xs) = p") (auto dest: arg_cong [of _ _ length] simp: le_SucI min_def split: if_splits)
qed (simp split: if_splits)

lemma find_text_append: "find_text p xs = Some n \<Longrightarrow> find_text p (xs @ ys) = Some n"
proof (induction xs arbitrary: n)
  case Nil
  then show ?case by (cases ys) (auto split: if_splits)
next
  case (Cons x xs)
  show ?case
  proof (cases "take (length p) (x # xs) = p")
    case True
    then have "length p \<le> length (x # xs)" by (metis length_take min.absorb_iff1 min.commute)
    then have "take (length p) ((x # xs) @ ys) = p" using True by (simp only: take_append) simp
    then show ?thesis using True Cons.prems by simp
  next
    case False
    then obtain k where k: "find_text p xs = Some k" "n = Suc k" using Cons.prems by auto
    have "take (length p) ((x # xs) @ ys) \<noteq> p"
    proof
      assume eq: "take (length p) ((x # xs) @ ys) = p"
      have "length p \<le> length (x # xs)"
        using find_text_fits [OF k(1)] by simp
      then have "take (length p) ((x # xs) @ ys) = take (length p) (x # xs)" by (simp only: take_append) simp
      then show False using eq False by simp
    qed
    then show ?thesis using Cons.IH [OF k(1)] k(2) by simp
  qed
qed

text \<open>
  C36: a pipelined request waits for more input. When one segment brings two complete requests to an idle
  keep-alive connection and the reply to the first is sent in full, the second stays in the buffer,
  complete, and in every later sequence of rounds without new input it is neither answered nor counted:
  the connection is left as it is or closed by the idle timeout.
\<close>

theorem pipelined_request_stalls:
  assumes "find_text (crlf @ crlf) (head @ crlf @ crlf) = Some (length head)" "find_text (crlf @ crlf) second = Some m"
    "length (head @ crlf @ crlf @ second) \<le> kRequestBufferBytes"
    "handle_connection rs store now now_ns
       \<lparr> pe_error = False, pe_readable = True, pe_writable = w, pe_recv = RecvData (head @ crlf @ crlf @ second), pe_send = res \<rparr>
       (new_connection t fd) stats = Some (Some c, stats')"
    "cn_out c = []" "\<forall>e \<in> set es. quiet (snd e)"
  shows "find_text (crlf @ crlf) (cn_in c) = Some m \<and>
     (rounds rs store now es (Some c) stats' = Some (Some c, stats') \<or> rounds rs store now es (Some c) stats' = Some (None, stats'))"
proof -
  let ?buf = "head @ crlf @ crlf @ second"
  have f: "find_text (crlf @ crlf) ?buf = Some (length head)" using find_text_append [OF assms(1), of second] by simp
  have d: "drop (length head + 4) ?buf = second" by (simp add: crlf_def)
  define c0 where "c0 = (new_connection t fd)\<lparr> cn_in := ?buf, cn_last_active_ns := now_ns \<rparr>"
  obtain c1 where c1: "serve_request rs store now (length head) c0 stats = Some (c1, stats')" "send_now res c1 = Some c"
    using assms(3,4) f crlf_nonempty by (auto simp: Let_def handle_connection_def on_readable_def c0_def new_connection_def)
  have "cn_in c1 = second" using c1(1) d by (auto simp: serve_request_def Let_def c0_def)
  moreover have "cn_in c = cn_in c1"
    using c1(2) by (auto simp: send_now_def flush_sent_def split: if_splits send_result.splits)
  ultimately show ?thesis using assms(2,5) quiet_rounds [OF assms(6), of c] by simp
qed

definition sample_line :: string where
  "sample_line = ''GET /x HTTP/1.1''"

definition sample_store :: SubscriberStore where
  "sample_store = \<lparr> st_slots = [], st_mask = 0, st_size = 0, st_max_load_factor = 1 \<rparr>"

definition zero_stats :: HttpStats where
  "zero_stats = \<lparr> hs_connections_accepted = 0, hs_requests = 0, hs_bad_requests = 0, hs_not_found = 0, hs_connections_closed = 0 \<rparr>"

definition quiet_event :: poll_event where
  "quiet_event = \<lparr> pe_error = False, pe_readable = False, pe_writable = True, pe_recv = RecvRetry, pe_send = SendRetry \<rparr>"

definition sample_event :: poll_event where
  "sample_event = \<lparr> pe_error = False, pe_readable = True, pe_writable = True,
     pe_recv = RecvData (sample_line @ crlf @ crlf @ sample_line @ crlf @ crlf), pe_send = Sent 4096 \<rparr>"

definition sample_after :: Connection where
  "sample_after = (new_connection 5 3)\<lparr> cn_in := sample_line @ crlf @ crlf, cn_last_active_ns := 7 \<rparr>"

theorem pipelined_request_stalls_witness:
  "find_text (crlf @ crlf) (cn_in sample_after) = Some 15 \<and>
   (rounds None sample_store 0 [(8, quiet_event), (9, quiet_event)] (Some sample_after) (zero_stats\<lparr> hs_not_found := 1 \<rparr>) =
      Some (Some sample_after, zero_stats\<lparr> hs_not_found := 1 \<rparr>) \<or>
    rounds None sample_store 0 [(8, quiet_event), (9, quiet_event)] (Some sample_after) (zero_stats\<lparr> hs_not_found := 1 \<rparr>) =
      Some (None, zero_stats\<lparr> hs_not_found := 1 \<rparr>))"
proof (rule pipelined_request_stalls [where head = sample_line and second = "sample_line @ crlf @ crlf" and now_ns = 7 and w = True
      and res = "Sent 4096" and t = 5 and fd = 3 and stats = zero_stats])
  show "find_text (crlf @ crlf) (sample_line @ crlf @ crlf) = Some (length sample_line)" by code_simp
  show "find_text (crlf @ crlf) (sample_line @ crlf @ crlf) = Some 15" by code_simp
  show "length (sample_line @ crlf @ crlf @ sample_line @ crlf @ crlf) \<le> kRequestBufferBytes" by code_simp
  have "handle_connection None sample_store 0 7 sample_event (new_connection 5 3) zero_stats =
      Some (Some sample_after, zero_stats\<lparr> hs_not_found := 1 \<rparr>)" by code_simp
  then show "handle_connection None sample_store 0 7
       \<lparr> pe_error = False, pe_readable = True, pe_writable = True,
         pe_recv = RecvData (sample_line @ crlf @ crlf @ sample_line @ crlf @ crlf), pe_send = Sent 4096 \<rparr>
       (new_connection 5 3) zero_stats = Some (Some sample_after, zero_stats\<lparr> hs_not_found := 1 \<rparr>)"
    by (simp only: sample_event_def)
  show "cn_out sample_after = []" by code_simp
qed (simp add: quiet_def quiet_event_def)

end
