(* ===== verification/Rcu.thy ===== *)
theory Rcu
  imports Prelude
begin

text \<open>
  The publication of rule sets (\<^verbatim>\<open>src/include/policy/rcu.hpp\<close>): reader slots, the read-side critical section, and
  the writer's publish, grace period and reclamation. Every atomic access is one step of an interleaving;
  the sequentially consistent fences of \<^verbatim>\<open>read\<close> and \<^verbatim>\<open>synchronize\<close> are what makes the interleavings of these
  accesses the executions to look at. A snapshot is named by a number, its address.
\<close>

section \<open>The domain\<close>

definition kQuiescent :: u64 where "kQuiescent = 0"

record ReaderSlot =
  sl_epoch :: u64
  sl_in_use :: bool

record RcuDomain =
  rd_current :: "nat option"
  rd_global_epoch :: u64
  rd_slots :: "ReaderSlot list"
  rd_retired :: "nat list"

definition new_domain :: "nat \<Rightarrow> RcuDomain" where
  "new_domain max_readers =
     \<lparr> rd_current = None, rd_global_epoch = 1,
       rd_slots = replicate max_readers \<lparr> sl_epoch = kQuiescent, sl_in_use = False \<rparr>, rd_retired = [] \<rparr>"

definition max_readers :: "RcuDomain \<Rightarrow> nat" where
  "max_readers d = length (rd_slots d)"

text \<open>The loop of \<^verbatim>\<open>register_reader\<close>: the first slot that is not in use.\<close>

fun free_slot :: "ReaderSlot list \<Rightarrow> nat option" where
  "free_slot [] = None"
| "free_slot (s # ss) = (if sl_in_use s then map_option Suc (free_slot ss) else Some 0)"

definition register_reader :: "RcuDomain \<Rightarrow> nat option \<times> RcuDomain" where
  "register_reader d =
     (case free_slot (rd_slots d) of
        Some i \<Rightarrow> (Some i, d\<lparr> rd_slots := (rd_slots d)[i := (rd_slots d ! i)\<lparr> sl_in_use := True \<rparr>] \<rparr>)
      | None \<Rightarrow> (None, d))"

definition set_epoch :: "nat \<Rightarrow> u64 \<Rightarrow> RcuDomain \<Rightarrow> RcuDomain" where
  "set_epoch i e d = d\<lparr> rd_slots := (rd_slots d)[i := (rd_slots d ! i)\<lparr> sl_epoch := e \<rparr>] \<rparr>"

definition unregister_reader :: "nat \<Rightarrow> RcuDomain \<Rightarrow> RcuDomain" where
  "unregister_reader i d =
     (if i \<ge> max_readers d then d
      else let d = set_epoch i kQuiescent d
           in d\<lparr> rd_slots := (rd_slots d)[i := (rd_slots d ! i)\<lparr> sl_in_use := False \<rparr>] \<rparr>)"

text \<open>The two accesses of \<^verbatim>\<open>publish\<close>: the exchange, which gives the retired snapshot, and the new epoch.\<close>

definition publish_exchange :: "nat \<Rightarrow> RcuDomain \<Rightarrow> nat option \<times> RcuDomain" where
  "publish_exchange next d = (rd_current d, d\<lparr> rd_current := Some next \<rparr>)"

definition publish_epoch :: "RcuDomain \<Rightarrow> RcuDomain" where
  "publish_epoch d = d\<lparr> rd_global_epoch := rd_global_epoch d + 1 \<rparr>"

definition publish :: "nat \<Rightarrow> RcuDomain \<Rightarrow> nat option \<times> RcuDomain" where
  "publish next d = (let (old, d) = publish_exchange next d in (old, publish_epoch d))"

text \<open>The test \<^verbatim>\<open>synchronize\<close> makes of a slot.\<close>

definition slot_passed :: "u64 \<Rightarrow> ReaderSlot \<Rightarrow> bool" where
  "slot_passed target s = (sl_epoch s = kQuiescent \<or> sl_epoch s \<ge> target)"

definition deferred_retire_count :: "RcuDomain \<Rightarrow> nat" where
  "deferred_retire_count d = length (rd_retired d)"

section \<open>Threads\<close>

text \<open>
  A reader is outside (\<^verbatim>\<open>Out\<close>), has loaded the global epoch, has stored it in its slot, or holds a guard on the
  snapshot it loaded. The writer runs \<^verbatim>\<open>swap_and_reclaim\<close>.
\<close>

datatype reader_pc = Out | Loaded u64 | Stored | Reading "nat option"

datatype writer_pc = WIdle | WSwapped "nat option" | WBumped "nat option" | WScan "nat option" u64 nat

record rcu_state =
  rc_domain :: RcuDomain
  rc_readers :: "reader_pc list"
  rc_writer :: writer_pc
  rc_allocated :: "nat list"
  rc_freed :: "nat list"

text \<open>The control plane publishes a first snapshot before the readers start.\<close>

definition init_state :: "nat \<Rightarrow> nat list \<Rightarrow> nat \<Rightarrow> rcu_state" where
  "init_state slots claims snapshot =
     \<lparr> rc_domain = snd (publish snapshot (new_domain slots)), rc_readers = replicate (length claims) Out, rc_writer = WIdle,
       rc_allocated = [snapshot], rc_freed = [] \<rparr>"

text \<open>The read side: \<^term>\<open>claims ! i\<close> is the slot reader \<^term>\<open>i\<close> uses.\<close>

definition reader_step :: "nat list \<Rightarrow> nat \<Rightarrow> rcu_state \<Rightarrow> rcu_state" where
  "reader_step claims i s =
     (let d = rc_domain s in
      case rc_readers s ! i of
        Out \<Rightarrow> s\<lparr> rc_readers := (rc_readers s)[i := Loaded (rd_global_epoch d)] \<rparr>
      | Loaded e \<Rightarrow> s\<lparr> rc_readers := (rc_readers s)[i := Stored], rc_domain := set_epoch (claims ! i) e d \<rparr>
      | Stored \<Rightarrow> s\<lparr> rc_readers := (rc_readers s)[i := Reading (rd_current d)] \<rparr>
      | Reading p \<Rightarrow> s\<lparr> rc_readers := (rc_readers s)[i := Out], rc_domain := set_epoch (claims ! i) kQuiescent d \<rparr>)"

definition opt_list :: "'a option \<Rightarrow> 'a list" where
  "opt_list x = (case x of None \<Rightarrow> [] | Some a \<Rightarrow> [a])"

text \<open>
  The writer; \<^term>\<open>snapshot\<close> is the address of the rule set it publishes next and \<^term>\<open>late\<close> whether the deadline has passed when a
  slot does not pass.
\<close>

definition writer_step :: "nat \<Rightarrow> bool \<Rightarrow> rcu_state \<Rightarrow> rcu_state option" where
  "writer_step snapshot late s =
     (let d = rc_domain s in
      case rc_writer s of
        WIdle \<Rightarrow>
          (if snapshot \<in> set (rc_allocated s) then None
           else let (old, d) = publish_exchange snapshot d
                in Some (s\<lparr> rc_domain := d, rc_writer := WSwapped old, rc_allocated := snapshot # rc_allocated s \<rparr>))
      | WSwapped old \<Rightarrow> Some (s\<lparr> rc_domain := publish_epoch d, rc_writer := WBumped old \<rparr>)
      | WBumped old \<Rightarrow> Some (s\<lparr> rc_writer := WScan old (rd_global_epoch d) 0 \<rparr>)
      | WScan old target k \<Rightarrow>
          (if k < max_readers d then
             if slot_passed target (rd_slots d ! k) then Some (s\<lparr> rc_writer := WScan old target (Suc k) \<rparr>)
             else if late then Some (s\<lparr> rc_writer := WIdle, rc_domain := d\<lparr> rd_retired := rd_retired d @ opt_list old \<rparr> \<rparr>)
             else Some s
           else Some (s\<lparr> rc_writer := WIdle, rc_freed := rc_freed s @ opt_list old @ rd_retired d,
                         rc_domain := d\<lparr> rd_retired := [] \<rparr> \<rparr>)))"

text \<open>Interleavings of the readers and the writer; the number counts the publications.\<close>

inductive rcu_reach :: "nat \<Rightarrow> nat list \<Rightarrow> nat \<Rightarrow> rcu_state \<Rightarrow> bool" for slots claims where
  start: "rcu_reach slots claims 1 (init_state slots claims snapshot)"
| reader: "rcu_reach slots claims n s \<Longrightarrow> i < length claims \<Longrightarrow> rcu_reach slots claims n (reader_step claims i s)"
| writer: "rcu_reach slots claims n s \<Longrightarrow> writer_step snapshot late s = Some s' \<Longrightarrow>
    rcu_reach slots claims (if \<exists>old. rc_writer s = WSwapped old then Suc n else n) s'"

section \<open>Reclamation is safe\<close>

definition slot_epoch :: "nat list \<Rightarrow> rcu_state \<Rightarrow> nat \<Rightarrow> u64" where
  "slot_epoch claims s i = sl_epoch (rd_slots (rc_domain s) ! (claims ! i))"

definition pending :: "writer_pc \<Rightarrow> nat list" where
  "pending w = (case w of WIdle \<Rightarrow> [] | WSwapped old \<Rightarrow> opt_list old | WBumped old \<Rightarrow> opt_list old | WScan old _ _ \<Rightarrow> opt_list old)"

definition owned :: "rcu_state \<Rightarrow> nat list" where
  "owned s = opt_list (rd_current (rc_domain s)) @ pending (rc_writer s) @ rd_retired (rc_domain s) @ rc_freed s"

text \<open>The epoch a reader announces, or is about to announce, is one the domain has had.\<close>

definition reader_ok :: "nat list \<Rightarrow> nat \<Rightarrow> rcu_state \<Rightarrow> nat \<Rightarrow> bool" where
  "reader_ok claims n s i =
     (case rc_readers s ! i of
        Out \<Rightarrow> slot_epoch claims s i = kQuiescent
      | Loaded e \<Rightarrow> slot_epoch claims s i = kQuiescent \<and> 0 < e \<and> unat e \<le> Suc n
      | Stored \<Rightarrow> 0 < slot_epoch claims s i \<and> unat (slot_epoch claims s i) \<le> Suc n
      | Reading p \<Rightarrow>
          0 < slot_epoch claims s i \<and> unat (slot_epoch claims s i) \<le> Suc n \<and>
          (p = rd_current (rc_domain s) \<or>
           (case rc_writer s of
              WSwapped old \<Rightarrow> p = old \<or> unat (slot_epoch claims s i) \<le> n
            | WScan old target k \<Rightarrow> unat (slot_epoch claims s i) \<le> n \<and> k \<le> claims ! i
            | _ \<Rightarrow> unat (slot_epoch claims s i) \<le> n) \<and>
           (p \<noteq> None \<longrightarrow> the p \<notin> set (rc_freed s))))"

definition rcu_inv :: "nat \<Rightarrow> nat list \<Rightarrow> nat \<Rightarrow> rcu_state \<Rightarrow> bool" where
  "rcu_inv slots claims n s \<longleftrightarrow>
     unat (rd_global_epoch (rc_domain s)) = Suc n \<and> length (rd_slots (rc_domain s)) = slots \<and>
     length (rc_readers s) = length claims \<and>
     (\<forall>j < slots. j \<notin> set claims \<longrightarrow> sl_epoch (rd_slots (rc_domain s) ! j) = kQuiescent) \<and>
     (\<forall>old target k. rc_writer s = WScan old target k \<longrightarrow> target = rd_global_epoch (rc_domain s)) \<and>
     distinct (owned s) \<and> set (owned s) = set (rc_allocated s) \<and>
     (\<forall>i < length claims. reader_ok claims n s i)"

text \<open>
  What the protocol needs of the slots the readers use: no two readers share one.
\<close>

locale exclusive_slots =
  fixes slots :: nat and claims :: "nat list"
  assumes distinct_claims: "distinct claims" and claims_bounded: "c \<in> set claims \<Longrightarrow> c < slots"
begin

lemma slot_epoch_set:
  assumes "length (rd_slots (rc_domain s)) = slots" "i < length claims" "j < length claims"
  shows "sl_epoch (rd_slots (set_epoch (claims ! i) e (rc_domain s)) ! (claims ! j)) = (if j = i then e else slot_epoch claims s j)"
proof -
  have "claims ! i < slots" using assms(2) claims_bounded by simp
  moreover have "claims ! i = claims ! j \<longleftrightarrow> i = j" using assms(2,3) distinct_claims by (simp add: nth_eq_iff_index_eq)
  ultimately show ?thesis using assms(1) by (auto simp: slot_epoch_def set_epoch_def)
qed

lemma reader_step_inv:
  assumes inv: "rcu_inv slots claims n s" and i: "i < length claims"
  shows "rcu_inv slots claims n (reader_step claims i s)"
proof -
  let ?s' = "reader_step claims i s"
  have same: "rc_writer ?s' = rc_writer s" "rc_freed ?s' = rc_freed s" "rc_allocated ?s' = rc_allocated s"
    "rd_current (rc_domain ?s') = rd_current (rc_domain s)" "rd_retired (rc_domain ?s') = rd_retired (rc_domain s)"
    "rd_global_epoch (rc_domain ?s') = rd_global_epoch (rc_domain s)"
    "length (rd_slots (rc_domain ?s')) = length (rd_slots (rc_domain s))" "length (rc_readers ?s') = length (rc_readers s)"
    by (simp_all add: reader_step_def Let_def set_epoch_def split: reader_pc.splits)
  have len: "length (rc_readers s) = length claims" "length (rd_slots (rc_domain s)) = slots"
    and g: "unat (rd_global_epoch (rc_domain s)) = Suc n"
    using inv by (simp_all add: rcu_inv_def)
  have ok: "reader_ok claims n ?s' j" if j: "j < length claims" for j
  proof (cases "j = i")
    case False
    then have "rc_readers ?s' ! j = rc_readers s ! j"
      by (simp add: reader_step_def Let_def split: reader_pc.splits)
    moreover have "slot_epoch claims ?s' j = slot_epoch claims s j"
      using False slot_epoch_set [OF len(2) i j]
      by (cases "rc_readers s ! i") (simp_all add: reader_step_def Let_def slot_epoch_def)
    moreover have "reader_ok claims n s j" using inv j by (simp add: rcu_inv_def)
    ultimately show ?thesis unfolding reader_ok_def same by (simp only:)
  next
    case True
    have old: "reader_ok claims n s i" using inv i by (simp add: rcu_inv_def)
    have pos: "0 < rd_global_epoch (rc_domain s)" using g by (simp add: word_gt_0 unat_eq_0 [symmetric] del: unat_eq_0)
    show ?thesis
      using old slot_epoch_set [OF len(2) i i] g pos i len True
      by (cases "rc_readers s ! i") (simp_all add: reader_step_def Let_def reader_ok_def slot_epoch_def)
  qed
  have "\<forall>j < slots. j \<notin> set claims \<longrightarrow> sl_epoch (rd_slots (rc_domain ?s') ! j) = kQuiescent"
  proof (intro allI impI)
    fix j
    assume j: "j < slots" "j \<notin> set claims"
    then have "rd_slots (rc_domain ?s') ! j = rd_slots (rc_domain s) ! j"
      using nth_mem [OF i] by (cases "claims ! i = j") (auto simp: reader_step_def Let_def set_epoch_def split: reader_pc.splits)
    then show "sl_epoch (rd_slots (rc_domain ?s') ! j) = kQuiescent" using inv j by (simp add: rcu_inv_def)
  qed
  moreover have "owned ?s' = owned s" by (simp add: owned_def same)
  ultimately show ?thesis using inv ok by (simp add: rcu_inv_def same)
qed

end

context exclusive_slots
begin

lemma invD:
  assumes "rcu_inv slots claims n s"
  shows "unat (rd_global_epoch (rc_domain s)) = Suc n" "length (rd_slots (rc_domain s)) = slots"
    "length (rc_readers s) = length claims" "distinct (owned s)" "set (owned s) = set (rc_allocated s)"
    "rc_writer s = WScan old target k \<Longrightarrow> target = rd_global_epoch (rc_domain s)"
    "i < length claims \<Longrightarrow> reader_ok claims n s i"
    "j < slots \<Longrightarrow> j \<notin> set claims \<Longrightarrow> sl_epoch (rd_slots (rc_domain s) ! j) = kQuiescent"
  using assms by (auto simp: rcu_inv_def)

lemma current_not_freed:
  "rcu_inv slots claims n s \<Longrightarrow> rd_current (rc_domain s) = Some p \<Longrightarrow> p \<notin> set (rc_freed s)"
  using invD(4) [of n s] by (auto simp: owned_def opt_list_def)

lemma writer_swap_inv:
  assumes inv: "rcu_inv slots claims n s" and w: "rc_writer s = WIdle" and step: "writer_step snapshot late s = Some s'"
  shows "rcu_inv slots claims n s'"
proof -
  have s': "s' = s\<lparr> rc_domain := (rc_domain s)\<lparr> rd_current := Some snapshot \<rparr>, rc_writer := WSwapped (rd_current (rc_domain s)),
      rc_allocated := snapshot # rc_allocated s \<rparr>" and fresh: "snapshot \<notin> set (rc_allocated s)"
    using step w by (simp_all add: writer_step_def publish_exchange_def Let_def split: if_splits)
  have "reader_ok claims n s' i" if "i < length claims" for i
    using invD(7) [OF inv that] w current_not_freed [OF inv]
    by (cases "rc_readers s ! i") (auto simp: s' reader_ok_def slot_epoch_def)
  moreover have "distinct (owned s')" "set (owned s') = set (rc_allocated s')"
    using invD(4,5) [OF inv] fresh w by (auto simp: s' owned_def pending_def opt_list_def split: option.splits)
  ultimately show ?thesis using invD(1-3,8) [OF inv] by (simp add: rcu_inv_def) (simp add: s')
qed

lemma writer_bump_inv:
  assumes inv: "rcu_inv slots claims n s" and w: "rc_writer s = WSwapped old" and step: "writer_step snapshot late s = Some s'"
    and bound: "n + 2 < 2 ^ 64"
  shows "rcu_inv slots claims (Suc n) s'"
proof -
  have s': "s' = s\<lparr> rc_domain := publish_epoch (rc_domain s), rc_writer := WBumped old \<rparr>"
    using step w by (simp add: writer_step_def Let_def)
  have "unat (rd_global_epoch (rc_domain s) + 1) = Suc (Suc n)"
    using invD(1) [OF inv] bound by (simp add: unat_word_ariths)
  moreover have "reader_ok claims (Suc n) s' i" if "i < length claims" for i
    using invD(7) [OF inv that] w
    by (cases "rc_readers s ! i") (auto simp: s' reader_ok_def slot_epoch_def publish_epoch_def)
  moreover have "owned s' = owned s" using w by (simp add: s' owned_def pending_def publish_epoch_def)
  ultimately show ?thesis using invD(2-5,8) [OF inv] by (simp add: rcu_inv_def) (simp add: s' publish_epoch_def)
qed

lemma writer_target_inv:
  assumes inv: "rcu_inv slots claims n s" and w: "rc_writer s = WBumped old" and step: "writer_step snapshot late s = Some s'"
  shows "rcu_inv slots claims n s'"
proof -
  have s': "s' = s\<lparr> rc_writer := WScan old (rd_global_epoch (rc_domain s)) 0 \<rparr>"
    using step w by (simp add: writer_step_def Let_def)
  have "reader_ok claims n s' i" if "i < length claims" for i
    using invD(7) [OF inv that] w by (cases "rc_readers s ! i") (auto simp: s' reader_ok_def slot_epoch_def)
  moreover have "owned s' = owned s" using w by (simp add: s' owned_def pending_def)
  ultimately show ?thesis using invD(1-5,8) [OF inv] by (simp add: rcu_inv_def) (simp add: s')
qed

text \<open>A reader that holds an old snapshot keeps its slot from passing.\<close>

lemma old_reader_blocks:
  assumes "rcu_inv slots claims n s" "rc_writer s = WScan old target k" "i < length claims" "rc_readers s ! i = Reading p"
    "p \<noteq> rd_current (rc_domain s)"
  shows "\<not> slot_passed target (rd_slots (rc_domain s) ! (claims ! i))" "k \<le> claims ! i"
proof -
  have "reader_ok claims n s i" using assms(1,3) by (rule invD(7))
  then have e: "0 < slot_epoch claims s i" "unat (slot_epoch claims s i) \<le> n" "k \<le> claims ! i"
    using assms(2,4,5) by (auto simp: reader_ok_def)
  have "slot_epoch claims s i < target"
    using e(2) invD(1) [OF assms(1)] invD(6) [OF assms(1,2)] by (simp add: word_less_nat_alt)
  then show "\<not> slot_passed target (rd_slots (rc_domain s) ! (claims ! i))" "k \<le> claims ! i"
    using e by (simp_all add: slot_passed_def slot_epoch_def kQuiescent_def not_le)
qed

lemma writer_scan_inv:
  assumes inv: "rcu_inv slots claims n s" and w: "rc_writer s = WScan old target k" and step: "writer_step snapshot late s = Some s'"
  shows "rcu_inv slots claims n s'"
proof -
  note len = invD(2) [OF inv]
  consider (pass) "k < slots" "slot_passed target (rd_slots (rc_domain s) ! k)" "s' = s\<lparr> rc_writer := WScan old target (Suc k) \<rparr>"
    | (late) "s' = s\<lparr> rc_writer := WIdle, rc_domain := (rc_domain s)\<lparr> rd_retired := rd_retired (rc_domain s) @ opt_list old \<rparr> \<rparr>"
    | (wait) "s' = s"
    | (free) "slots \<le> k" "s' = s\<lparr> rc_writer := WIdle, rc_freed := rc_freed s @ opt_list old @ rd_retired (rc_domain s),
        rc_domain := (rc_domain s)\<lparr> rd_retired := [] \<rparr> \<rparr>"
    using step w len by (auto simp: writer_step_def Let_def max_readers_def split: if_splits)
  then show ?thesis
  proof cases
    case pass
    have "reader_ok claims n s' i" if i: "i < length claims" for i
    proof (cases "\<exists>p. rc_readers s ! i = Reading p \<and> p \<noteq> rd_current (rc_domain s)")
      case True
      then obtain p where p: "rc_readers s ! i = Reading p" "p \<noteq> rd_current (rc_domain s)" by auto
      have "Suc k \<le> claims ! i"
        using old_reader_blocks [OF inv w i p] pass(2) by (cases "k = claims ! i") auto
      then show ?thesis using invD(7) [OF inv i] w p by (simp add: pass(3) reader_ok_def slot_epoch_def)
    next
      case False
      then show ?thesis
        using invD(7) [OF inv i] by (cases "rc_readers s ! i") (auto simp: pass(3) reader_ok_def slot_epoch_def)
    qed
    moreover have "owned s' = owned s" using w by (simp add: pass(3) owned_def pending_def)
    ultimately show ?thesis using invD(1-6,8) [OF inv] w by (simp add: rcu_inv_def) (simp add: pass(3))
  next
    case late
    have "reader_ok claims n s' i" if "i < length claims" for i
      using invD(7) [OF inv that] w by (cases "rc_readers s ! i") (auto simp: late reader_ok_def slot_epoch_def)
    moreover have "distinct (owned s')" "set (owned s') = set (rc_allocated s')"
      using invD(4,5) [OF inv] w by (auto simp: late owned_def pending_def)
    ultimately show ?thesis using invD(1-3,8) [OF inv] by (simp add: rcu_inv_def) (simp add: late)
  next
    case wait
    then show ?thesis using inv by simp
  next
    case free
    have "reader_ok claims n s' i" if i: "i < length claims" for i
    proof -
      have "claims ! i < slots" using i claims_bounded by simp
      then have "p = rd_current (rc_domain s)" if "rc_readers s ! i = Reading p" for p
        using old_reader_blocks(2) [OF inv w i that] free(1) by fastforce
      then show ?thesis
        using invD(7) [OF inv i] by (cases "rc_readers s ! i") (auto simp: free(2) reader_ok_def slot_epoch_def)
    qed
    moreover have "distinct (owned s')" "set (owned s') = set (rc_allocated s')"
      using invD(4,5) [OF inv] w by (auto simp: free(2) owned_def pending_def)
    ultimately show ?thesis using invD(1-3,8) [OF inv] by (simp add: rcu_inv_def) (simp add: free(2))
  qed
qed

end

context exclusive_slots
begin

lemma reach_inv: "rcu_reach slots claims n s \<Longrightarrow> n + 1 < 2 ^ 64 \<Longrightarrow> rcu_inv slots claims n s"
proof (induction rule: rcu_reach.induct)
  case (start snapshot)
  show ?case
    by (auto simp: rcu_inv_def init_state_def publish_def publish_exchange_def publish_epoch_def new_domain_def owned_def
        pending_def opt_list_def reader_ok_def slot_epoch_def claims_bounded)
next
  case (reader n s i)
  then show ?case by (simp add: reader_step_inv)
next
  case (writer n s snapshot late s')
  have inv: "rcu_inv slots claims n s" using writer by (auto split: if_splits)
  show ?case
    using writer_swap_inv [OF inv _ writer(2)] writer_bump_inv [OF inv _ writer(2)] writer_target_inv [OF inv _ writer(2)]
      writer_scan_inv [OF inv _ writer(2)] writer.prems
    by (cases "rc_writer s") auto
qed

lemma no_reader_sees_freed:
  assumes "rcu_reach slots claims n s" "n + 1 < 2 ^ 64" "i < length claims" "rc_readers s ! i = Reading (Some p)"
  shows "p \<notin> set (rc_freed s)"
proof -
  have inv: "rcu_inv slots claims n s" using assms(1,2) by (rule reach_inv)
  show ?thesis using invD(7) [OF inv assms(3)] assms(4) current_not_freed [OF inv] by (auto simp: reader_ok_def)
qed

text \<open>Every snapshot ever published is in exactly one place.\<close>

lemma snapshots_accounted:
  "rcu_reach slots claims n s \<Longrightarrow> n + 1 < 2 ^ 64 \<Longrightarrow> distinct (owned s) \<and> set (owned s) = set (rc_allocated s)"
  using reach_inv invD(4,5) by blast

end

section \<open>Registered readers\<close>

text \<open>The slots that \<^term>\<open>k\<close> threads claim one after the other; a thread that gets none exits.\<close>

primrec claimed_slots :: "nat \<Rightarrow> RcuDomain \<Rightarrow> nat list" where
  "claimed_slots 0 d = []"
| "claimed_slots (Suc k) d = (case register_reader d of (Some i, d) \<Rightarrow> i # claimed_slots k d | (None, d) \<Rightarrow> claimed_slots k d)"

lemma free_slot_first: "free_slot (map (\<lambda>i. \<lparr> sl_epoch = f i, sl_in_use = i < k \<rparr>) [m..<n]) = (if max k m < n then Some (max k m - m) else None)"
proof (induction "n - m" arbitrary: m)
  case (Suc x)
  then have "[m..<n] = m # [Suc m..<n]" by (simp add: upt_conv_Cons)
  then show ?case using Suc by (auto simp: max_def Suc_diff_Suc)
qed auto

lemma claimed_from:
  assumes "rd_slots d = map (\<lambda>i. \<lparr> sl_epoch = kQuiescent, sl_in_use = i < m \<rparr>) [0..<n]" "m \<le> n"
  shows "claimed_slots k d = [m..<min n (m + k)]"
  using assms
proof (induction k arbitrary: d m)
  case (Suc k)
  have f: "free_slot (rd_slots d) = (if m < n then Some m else None)" by (simp add: Suc.prems free_slot_first max_def)
  show ?case
  proof (cases "m < n")
    case True
    define d' where "d' = d\<lparr> rd_slots := (rd_slots d)[m := (rd_slots d ! m)\<lparr> sl_in_use := True \<rparr>] \<rparr>"
    have "rd_slots d' = map (\<lambda>i. \<lparr> sl_epoch = kQuiescent, sl_in_use = i < Suc m \<rparr>) [0..<n]"
      using True by (intro nth_equalityI) (auto simp: d'_def Suc.prems nth_list_update)
    from Suc.IH [OF this] True have "claimed_slots k d' = [Suc m..<min n (Suc m + k)]" by simp
    moreover have "claimed_slots (Suc k) d = m # claimed_slots k d'"
      using f True by (simp add: register_reader_def d'_def)
    ultimately show ?thesis using True by (simp add: upt_conv_Cons)
  next
    case False
    then have "claimed_slots (Suc k) d = claimed_slots k d" using f by (simp add: register_reader_def)
    then show ?thesis using False Suc.IH [OF Suc.prems] by simp
  qed
qed simp

lemma claimed_slots_new: "claimed_slots k (new_domain n) = [0..<min n k]"
  using claimed_from [of "new_domain n" 0 n k] by (simp add: new_domain_def map_replicate_const)

interpretation registered: exclusive_slots n "claimed_slots k (new_domain n)" for n k
  by unfold_locales (simp_all add: claimed_slots_new)

text \<open>
  C3: in every interleaving of the registered readers with a writer that publishes, waits and reclaims
  (time-outs included), no reader holds a guard on a freed snapshot, no snapshot is freed twice, and every snapshot
  published is the current one, the one being retired, parked for a later grace period, or freed.
\<close>

theorem rcu_safe:
  assumes "rcu_reach n (claimed_slots k (new_domain n)) m s" "m + 1 < 2 ^ 64"
  shows "(\<forall>i p. i < min n k \<longrightarrow> rc_readers s ! i = Reading (Some p) \<longrightarrow> p \<notin> set (rc_freed s)) \<and>
    distinct (opt_list (rd_current (rc_domain s)) @ pending (rc_writer s) @ rd_retired (rc_domain s) @ rc_freed s) \<and>
    set (opt_list (rd_current (rc_domain s)) @ pending (rc_writer s) @ rd_retired (rc_domain s) @ rc_freed s) = set (rc_allocated s)"
  using registered.no_reader_sees_freed [OF assms] registered.snapshots_accounted [OF assms]
  by (simp add: claimed_slots_new owned_def)

text \<open>Runs, for examples: the thread that moves, and for the writer its choices.\<close>

datatype move = MoveReader nat | MoveWriter nat bool

fun rcu_run :: "nat list \<Rightarrow> move list \<Rightarrow> rcu_state \<Rightarrow> rcu_state option" where
  "rcu_run claims [] s = Some s"
| "rcu_run claims (MoveReader i # ms) s = (if i < length claims then rcu_run claims ms (reader_step claims i s) else None)"
| "rcu_run claims (MoveWriter p late # ms) s = (case writer_step p late s of None \<Rightarrow> None | Some s \<Rightarrow> rcu_run claims ms s)"

fun publications :: "nat list \<Rightarrow> move list \<Rightarrow> rcu_state \<Rightarrow> nat" where
  "publications claims [] s = 0"
| "publications claims (MoveReader i # ms) s = publications claims ms (reader_step claims i s)"
| "publications claims (MoveWriter p late # ms) s =
     (case writer_step p late s of
        None \<Rightarrow> 0
      | Some s' \<Rightarrow> (case rc_writer s of WSwapped _ \<Rightarrow> 1 | _ \<Rightarrow> 0) + publications claims ms s')"

lemma run_reach:
  "rcu_reach slots claims n s \<Longrightarrow> rcu_run claims ms s = Some s' \<Longrightarrow> rcu_reach slots claims (n + publications claims ms s) s'"
proof (induction claims ms s arbitrary: n rule: rcu_run.induct)
  case (2 claims i ms s)
  then show ?case by (auto split: if_splits intro: rcu_reach.reader)
next
  case (3 claims p late ms s)
  then obtain t where t: "writer_step p late s = Some t" "rcu_run claims ms t = Some s'" by (auto split: option.splits)
  show ?case
  proof (cases "rc_writer s")
    case (WSwapped old)
    then have "rcu_reach slots claims (Suc n) t" using rcu_reach.writer [OF 3(2) t(1)] by simp
    from 3(1) [OF t(1) this t(2)] show ?thesis using t WSwapped by simp
  qed (use 3(1) [OF t(1) _ t(2)] rcu_reach.writer [OF 3(2) t(1)] t in simp_all)
qed simp

text \<open>Two readers; one holds the first snapshot while the writer replaces it and waits.\<close>

definition sample_moves :: "move list" where
  "sample_moves = replicate 3 (MoveReader 0) @ replicate 6 (MoveWriter 8 False)"

theorem rcu_safe_witness:
  "rcu_reach 4 (claimed_slots 2 (new_domain 4)) 2 (the (rcu_run [0, 1] sample_moves (init_state 4 [0, 1] 7))) \<and>
   rc_readers (the (rcu_run [0, 1] sample_moves (init_state 4 [0, 1] 7))) ! 0 = Reading (Some 7) \<and>
   rc_writer (the (rcu_run [0, 1] sample_moves (init_state 4 [0, 1] 7))) = WScan (Some 7) 3 0 \<and>
   7 \<notin> set (rc_freed (the (rcu_run [0, 1] sample_moves (init_state 4 [0, 1] 7))))"
proof -
  let ?s = "the (rcu_run [0, 1] sample_moves (init_state 4 [0, 1] 7))"
  have rcu_run: "rcu_run [0, 1] sample_moves (init_state 4 [0, 1] 7) = Some ?s" by code_simp
  have p: "1 + publications [0, 1] sample_moves (init_state 4 [0, 1] 7) = 2" by code_simp
  have c: "claimed_slots 2 (new_domain 4) = [0, 1]" by code_simp
  have r: "rcu_reach 4 (claimed_slots 2 (new_domain 4)) 2 ?s"
    using run_reach [OF rcu_reach.start rcu_run] unfolding p c .
  have pc: "rc_readers ?s ! 0 = Reading (Some 7)" "rc_writer ?s = WScan (Some 7) 3 0" by code_simp+
  moreover have "7 \<notin> set (rc_freed ?s)"
    using conjunct1 [OF rcu_safe [OF r], rule_format, of 0 7] pc(1) by simp
  ultimately show ?thesis using r by blast
qed

section \<open>Grace periods end\<close>

lemma quiet_scan:
  assumes "rc_writer s = WScan old target j" "\<forall>i < max_readers (rc_domain s). sl_epoch (rd_slots (rc_domain s) ! i) = kQuiescent"
    "j + k = max_readers (rc_domain s)"
  shows "rcu_run claims (replicate (Suc k) (MoveWriter p late)) s =
    Some (s\<lparr> rc_writer := WIdle, rc_freed := rc_freed s @ opt_list old @ rd_retired (rc_domain s),
             rc_domain := (rc_domain s)\<lparr> rd_retired := [] \<rparr> \<rparr>)"
  using assms
proof (induction k arbitrary: s j)
  case 0
  then show ?case by (simp add: writer_step_def Let_def)
next
  case (Suc k)
  have "writer_step p late s = Some (s\<lparr> rc_writer := WScan old target (Suc j) \<rparr>)"
    using Suc.prems by (simp add: writer_step_def Let_def slot_passed_def)
  then show ?case using Suc.IH [of "s\<lparr> rc_writer := WScan old target (Suc j) \<rparr>" "Suc j"] Suc.prems
    by (simp add: replicate_Suc [symmetric] del: replicate_Suc) simp
qed

context exclusive_slots
begin

lemma slots_quiescent:
  assumes inv: "rcu_inv slots claims n s" and out: "\<forall>r \<in> set (rc_readers s). r = Out" and j: "j < max_readers (rc_domain s)"
  shows "sl_epoch (rd_slots (rc_domain s) ! j) = kQuiescent"
proof (cases "j \<in> set claims")
  case True
  then obtain i where i: "i < length claims" "claims ! i = j" by (auto simp: in_set_conv_nth)
  then have "rc_readers s ! i = Out" using out invD(3) [OF inv] by simp
  then show ?thesis using invD(7) [OF inv i(1)] i(2) by (simp add: reader_ok_def slot_epoch_def)
next
  case False
  then show ?thesis using invD(8) [OF inv] j invD(2) [OF inv] by (simp add: max_readers_def)
qed

end

text \<open>
  C15: a grace period ends. When the writer is waiting and the registered readers have left their critical sections,
  at most one step per slot and one more complete the reload: the retired snapshot is freed together with every snapshot
  parked by earlier time-outs, and the domain holds the current snapshot only.
\<close>

theorem rcu_grace_period_ends:
  assumes "rcu_reach n (claimed_slots k (new_domain n)) m s" "m + 1 < 2 ^ 64"
    "rc_writer s = WScan old target j" "j \<le> n" "\<forall>r \<in> set (rc_readers s). r = Out"
  shows "\<exists>s'. rcu_run (claimed_slots k (new_domain n)) (replicate (Suc (n - j)) (MoveWriter p late)) s = Some s' \<and>
    rc_writer s' = WIdle \<and> rc_freed s' = rc_freed s @ opt_list old @ rd_retired (rc_domain s) \<and>
    rd_retired (rc_domain s') = [] \<and> rd_current (rc_domain s') = rd_current (rc_domain s) \<and>
    set (rc_allocated s') = set (opt_list (rd_current (rc_domain s'))) \<union> set (rc_freed s')"
proof -
  have inv: "rcu_inv n (claimed_slots k (new_domain n)) m s" using assms(1,2) by (rule registered.reach_inv)
  then have len: "max_readers (rc_domain s) = n" by (simp add: rcu_inv_def max_readers_def)
  have "set (rc_allocated s) = set (owned s)" using registered.invD(5) [OF inv] by simp
  then have "set (rc_allocated s) =
      set (opt_list (rd_current (rc_domain s))) \<union> (set (rc_freed s) \<union> (set (opt_list old) \<union> set (rd_retired (rc_domain s))))"
    using assms(3) by (auto simp: owned_def pending_def)
  then show ?thesis
    using quiet_scan [OF assms(3), of "n - j" "claimed_slots k (new_domain n)" p late] registered.slots_quiescent [OF inv assms(5)] assms(4) len
    by (simp del: replicate_Suc rcu_run.simps)
qed

definition sample_reload :: "move list" where
  "sample_reload = replicate 3 (MoveWriter 8 False)"

theorem rcu_grace_period_ends_witness:
  "\<exists>s'. rcu_run (claimed_slots 2 (new_domain 4)) (replicate (Suc 4) (MoveWriter 9 False)) (the (rcu_run [0, 1] sample_reload (init_state 4 [0, 1] 7))) = Some s' \<and>
     rc_writer s' = WIdle \<and> rc_freed s' = [7]"
proof -
  let ?s = "the (rcu_run [0, 1] sample_reload (init_state 4 [0, 1] 7))"
  have rcu_run: "rcu_run [0, 1] sample_reload (init_state 4 [0, 1] 7) = Some ?s" by code_simp
  have p: "1 + publications [0, 1] sample_reload (init_state 4 [0, 1] 7) = 2" by code_simp
  have c: "claimed_slots 2 (new_domain 4) = [0, 1]" by code_simp
  have r: "rcu_reach 4 (claimed_slots 2 (new_domain 4)) 2 ?s"
    using run_reach [OF rcu_reach.start rcu_run] unfolding p c .
  have w: "rc_writer ?s = WScan (Some 7) 3 0" by code_simp
  have out: "\<forall>r \<in> set (rc_readers ?s). r = Out" by code_simp
  have f: "rc_freed ?s @ opt_list (Some 7) @ rd_retired (rc_domain ?s) = [7]" by code_simp
  from rcu_grace_period_ends [OF r _ w _ out, of 9 False] show ?thesis unfolding f by auto
qed

section \<open>The slots of the control plane\<close>

text \<open>
  \<^verbatim>\<open>ControlPlane\<close> makes a domain with four slots more than UDP workers and reads through fixed slots counted from the end,
  without registering them; the workers of the HTTP front, as many again, register in the same domain.
\<close>

definition domain_size :: "nat \<Rightarrow> nat" where
  "domain_size worker_threads = worker_threads + 4"

definition control_slot :: "nat \<Rightarrow> nat \<Rightarrow> nat" where
  "control_slot worker_threads k = domain_size worker_threads - k"

text \<open>The readers of a server with the HTTP front: the registered workers, then the control plane reading through slot \<^term>\<open>k\<close> from the end.\<close>

definition server_claims :: "nat \<Rightarrow> nat \<Rightarrow> nat list" where
  "server_claims worker_threads k =
     claimed_slots (2 * worker_threads) (new_domain (domain_size worker_threads)) @ [control_slot worker_threads k]"

definition shared_slot_moves :: "move list" where
  "shared_slot_moves = replicate 3 (MoveReader 3) @ replicate 4 (MoveReader 4) @ replicate 10 (MoveWriter 8 False)"

text \<open>
  C19: with the HTTP front on and at least two workers, a registered HTTP worker gets the slot through which the control
  plane reads, and the protection is lost: there is an interleaving in which that worker holds a guard on a snapshot
  that a reload has freed, because the control plane's guard, taken and released in between, marked the slot quiescent.
\<close>

theorem rcu_shared_slot_unsafe:
  "(\<forall>w. control_slot (w + 2) 3 \<in> set (claimed_slots (2 * (w + 2)) (new_domain (domain_size (w + 2))))) \<and>
   (\<exists>n s p. rcu_reach (domain_size 2) (server_claims 2 3) n s \<and> rc_readers s ! 3 = Reading (Some p) \<and> p \<in> set (rc_freed s))"
proof
  show "\<forall>w. control_slot (w + 2) 3 \<in> set (claimed_slots (2 * (w + 2)) (new_domain (domain_size (w + 2))))"
    by (simp add: claimed_slots_new control_slot_def domain_size_def)
  let ?s = "the (rcu_run (server_claims 2 3) shared_slot_moves (init_state (domain_size 2) (server_claims 2 3) 7))"
  have rcu_run: "rcu_run (server_claims 2 3) shared_slot_moves (init_state (domain_size 2) (server_claims 2 3) 7) = Some ?s" by code_simp
  have "rc_readers ?s ! 3 = Reading (Some 7)" "7 \<in> set (rc_freed ?s)" by code_simp+
  then show "\<exists>n s p. rcu_reach (domain_size 2) (server_claims 2 3) n s \<and> rc_readers s ! 3 = Reading (Some p) \<and> p \<in> set (rc_freed s)"
    using run_reach [OF rcu_reach.start rcu_run] by blast
qed

end
