(* ===== verification/Ingest.thy ===== *)
theory Ingest
  imports Engine Hdr_Histogram
begin

text \<open>
  The datagram path: the per-worker counters and their sum (\<^verbatim>\<open>src/include/policy/metrics.hpp\<close>, \<^verbatim>\<open>src/src/metrics.cpp\<close>),
  batched datagram I/O (\<^verbatim>\<open>src/src/net.cpp\<close>), the worker loop over sockets (\<^verbatim>\<open>src/src/server_udp.cpp\<close>) and the one
  over io_uring completions (\<^verbatim>\<open>src/src/server_iouring.cpp\<close>). What the kernel receives and takes, and the clocks, are arguments.
\<close>

unbundle bit_operations_syntax

section \<open>Metrics\<close>

record WorkerMetrics =
  wm_requests :: u64
  wm_replies_sent :: u64
  wm_short_datagrams :: u64
  wm_bad_magic :: u64
  wm_unknown_subscriber :: u64
  wm_send_failures :: u64
  wm_send_wouldblock :: u64
  wm_send_nobufs :: u64
  wm_send_errors :: u64
  wm_recv_errors :: u64
  wm_batches :: u64
  wm_batch_datagrams :: u64
  wm_full_batches :: u64
  wm_idle_spins :: u64
  wm_blocking_waits :: u64
  wm_verdicts :: "u64 list"
  wm_reasons :: "u64 list"
  wm_service_ns :: HdrHistogram

text \<open>A new block; the histogram is the one the constructor makes.\<close>

definition zero_metrics :: "HdrHistogram \<Rightarrow> WorkerMetrics" where
  "zero_metrics h =
     \<lparr> wm_requests = 0, wm_replies_sent = 0, wm_short_datagrams = 0, wm_bad_magic = 0, wm_unknown_subscriber = 0,
       wm_send_failures = 0, wm_send_wouldblock = 0, wm_send_nobufs = 0, wm_send_errors = 0, wm_recv_errors = 0,
       wm_batches = 0, wm_batch_datagrams = 0, wm_full_batches = 0, wm_idle_spins = 0, wm_blocking_waits = 0,
       wm_verdicts = replicate 3 0, wm_reasons = replicate kReasonCount 0, wm_service_ns = h \<rparr>"

definition new_metrics :: "WorkerMetrics option" where
  "new_metrics = map_option zero_metrics (new_histogram 1 10000000 3)"

definition count_at :: "u64 list \<Rightarrow> nat \<Rightarrow> u64 list" where
  "count_at xs i = xs[i := xs ! i + 1]"

definition note_decision :: "PolicyDecision \<Rightarrow> WorkerMetrics \<Rightarrow> WorkerMetrics" where
  "note_decision d m =
     (let m = (if d_verdict d < 3 then m\<lparr> wm_verdicts := count_at (wm_verdicts m) (unat (d_verdict d)) \<rparr> else m)
      in if unat (d_reason d) < kReasonCount then m\<lparr> wm_reasons := count_at (wm_reasons m) (unat (d_reason d)) \<rparr> else m)"

definition add_metrics :: "WorkerMetrics \<Rightarrow> WorkerMetrics \<Rightarrow> WorkerMetrics" where
  "add_metrics s w =
     \<lparr> wm_requests = wm_requests s + wm_requests w, wm_replies_sent = wm_replies_sent s + wm_replies_sent w,
       wm_short_datagrams = wm_short_datagrams s + wm_short_datagrams w, wm_bad_magic = wm_bad_magic s + wm_bad_magic w,
       wm_unknown_subscriber = wm_unknown_subscriber s + wm_unknown_subscriber w,
       wm_send_failures = wm_send_failures s + wm_send_failures w, wm_send_wouldblock = wm_send_wouldblock s + wm_send_wouldblock w,
       wm_send_nobufs = wm_send_nobufs s + wm_send_nobufs w, wm_send_errors = wm_send_errors s + wm_send_errors w,
       wm_recv_errors = wm_recv_errors s + wm_recv_errors w, wm_batches = wm_batches s + wm_batches w,
       wm_batch_datagrams = wm_batch_datagrams s + wm_batch_datagrams w, wm_full_batches = wm_full_batches s + wm_full_batches w,
       wm_idle_spins = wm_idle_spins s + wm_idle_spins w, wm_blocking_waits = wm_blocking_waits s + wm_blocking_waits w,
       wm_verdicts = map2 (+) (wm_verdicts s) (wm_verdicts w), wm_reasons = map2 (+) (wm_reasons s) (wm_reasons w),
       wm_service_ns = fst (add_histogram (wm_service_ns s) (wm_service_ns w)) \<rparr>"

text \<open>\<^verbatim>\<open>MetricsRegistry::snapshot\<close>: the sum of the blocks, starting from a new one.\<close>

definition snapshot :: "WorkerMetrics list \<Rightarrow> WorkerMetrics option" where
  "snapshot blocks = map_option (\<lambda>s. foldl add_metrics s blocks) new_metrics"

section \<open>Batched datagram I/O\<close>

type_synonym addr = "u32 \<times> u16"
type_synonym datagram = "addr \<times> u8 list"

definition kSlotSize :: nat where "kSlotSize = kWireMsgSize"

text \<open>
  What one call gives: \<^verbatim>\<open>recvmmsg\<close> the datagrams that wait, \<^verbatim>\<open>recvfrom\<close> one of them. A receive slot takes the first
  64 bytes of a datagram, and the length reported is the number of bytes stored.
\<close>

datatype recv_mmsg = Waiting "datagram list" | RecvAgain | RecvFailed

datatype recv_from = OneWaiting datagram | FromAgain | FromFailed

definition into_slot :: "datagram \<Rightarrow> datagram" where
  "into_slot g = (fst g, take kSlotSize (snd g))"

text \<open>The filled slots, or \<^const>\<open>None\<close> for the result -1.\<close>

definition recv_batch_mmsg :: "nat \<Rightarrow> recv_mmsg \<Rightarrow> datagram list option" where
  "recv_batch_mmsg batch r =
     (case r of
        Waiting gs \<Rightarrow> Some (map into_slot (take batch gs))
      | RecvAgain \<Rightarrow> Some []
      | RecvFailed \<Rightarrow> None)"

text \<open>The portable loop; the results are those of its calls in order, with nothing more waiting at their end.\<close>

fun recv_from_loop :: "nat \<Rightarrow> recv_from list \<Rightarrow> datagram list \<Rightarrow> datagram list option" where
  "recv_from_loop 0 rs got = Some got"
| "recv_from_loop (Suc n) [] got = Some got"
| "recv_from_loop (Suc n) (r # rs) got =
     (case r of
        OneWaiting g \<Rightarrow> recv_from_loop n rs (got @ [into_slot g])
      | FromAgain \<Rightarrow> Some got
      | FromFailed \<Rightarrow> if got \<noteq> [] then Some got else None)"

definition recv_batch_portable :: "nat \<Rightarrow> recv_from list \<Rightarrow> datagram list option" where
  "recv_batch_portable batch rs = recv_from_loop batch rs []"

text \<open>What a send call gives: a number of messages taken, an interruption, or an error.\<close>

datatype errno = EAGAIN | ENOBUFS | OtherErrno

datatype send_mmsg = Took nat | SendInterrupted | SendErrno errno

definition transient :: "errno \<Rightarrow> bool" where
  "transient e = (e = EAGAIN \<or> e = ENOBUFS)"

text \<open>
  \<^verbatim>\<open>send_batch\<close>: the result (\<^verbatim>\<open>-1\<close> when nothing was sent and the error is not transient) and \<^verbatim>\<open>out_errno\<close>. The kernel takes
  at most what it is offered; \<^const>\<open>None\<close> when the calls listed do not finish the loop. \<^term>\<open>mmsg\<close> tells the batched from the portable loop, where a call sends one message.
\<close>

fun send_loop :: "bool \<Rightarrow> nat \<Rightarrow> nat \<Rightarrow> send_mmsg list \<Rightarrow> (int \<times> errno option) option" where
  "send_loop mmsg count sent [] = (if sent < count then None else Some (int sent, None))"
| "send_loop mmsg count sent (r # rs) =
     (if sent \<ge> count then Some (int sent, None)
      else case r of
        Took n \<Rightarrow> send_loop mmsg count (sent + (if mmsg then min n (count - sent) else 1)) rs
      | SendInterrupted \<Rightarrow> send_loop mmsg count sent rs
      | SendErrno e \<Rightarrow>
          if transient e then Some (int sent, Some e)
          else Some (if sent > 0 then int sent else - 1, Some e))"

definition send_batch :: "bool \<Rightarrow> nat \<Rightarrow> send_mmsg list \<Rightarrow> (int \<times> errno option) option" where
  "send_batch mmsg count rs = (if count = 0 then Some (0, None) else send_loop mmsg count 0 rs)"

section \<open>One datagram\<close>

text \<open>Decode, lookup, evaluate: the decision and the counters; both backends run this code.\<close>

definition decide_datagram ::
    "bool \<Rightarrow> RuleSet \<Rightarrow> SubscriberStore \<Rightarrow> u64 \<Rightarrow> u8 list \<Rightarrow> WorkerMetrics \<Rightarrow> (PolicyDecision \<times> WorkerMetrics) option" where
  "decide_datagram le rs store now payload m =
     (case decode_request le payload zero_request of
        (False, _) \<Rightarrow>
          (let req = object_request le payload
           in Some (malformed_decision (rq_seq req) (rq_client_ts_ns req) (rs_version rs), m\<lparr> wm_bad_magic := wm_bad_magic m + 1 \<rparr>))
      | (True, req) \<Rightarrow>
          (case st_find store (rq_imsi req) of
             None \<Rightarrow> None
           | Some rec \<Rightarrow>
               (let m = (if rec = None then m\<lparr> wm_unknown_subscriber := wm_unknown_subscriber m + 1 \<rparr> else m)
                in map_option (\<lambda>d. (d, m\<lparr> wm_requests := wm_requests m + 1 \<rparr>)) (evaluate rs req rec now))))"

text \<open>The clock gives the time stamp of the reply and the measured service time.\<close>

definition serve_datagram ::
    "bool \<Rightarrow> RuleSet \<Rightarrow> SubscriberStore \<Rightarrow> u64 \<Rightarrow> u64 \<times> int \<Rightarrow> u8 list \<Rightarrow> WorkerMetrics \<Rightarrow> (u8 list \<times> WorkerMetrics) option" where
  "serve_datagram le rs store now clock payload m =
     (case decide_datagram le rs store now payload m of
        None \<Rightarrow> None
      | Some (dec, m) \<Rightarrow>
          (let dec = dec\<lparr> d_server_ts_ns := fst clock \<rparr>
           in case record_value (wm_service_ns m) (snd clock) of
                None \<Rightarrow> None
              | Some h \<Rightarrow> Some (encode_decision le dec, note_decision dec (m\<lparr> wm_service_ns := h \<rparr>))))"

section \<open>The socket worker\<close>

text \<open>The replies staged for a batch: each with the address its request came from, in order.\<close>

fun process_batch ::
    "bool \<Rightarrow> RuleSet \<Rightarrow> SubscriberStore \<Rightarrow> u64 \<Rightarrow> (u64 \<times> int) list \<Rightarrow> datagram list \<Rightarrow> WorkerMetrics \<Rightarrow>
     (datagram list \<times> WorkerMetrics) option" where
  "process_batch le rs store now clocks [] m = Some ([], m)"
| "process_batch le rs store now clocks (g # gs) m =
     (if length (snd g) \<noteq> kWireMsgSize
      then process_batch le rs store now (tl clocks) gs (m\<lparr> wm_short_datagrams := wm_short_datagrams m + 1 \<rparr>)
      else case serve_datagram le rs store now (hd clocks) (snd g) m of
        None \<Rightarrow> None
      | Some (reply, m) \<Rightarrow>
          map_option (\<lambda>(staged, m). ((fst g, reply) # staged, m)) (process_batch le rs store now (tl clocks) gs m))"

text \<open>The counters after sending: what was not delivered is attributed to the error that stopped it.\<close>

definition count_sent :: "nat \<Rightarrow> int \<Rightarrow> errno option \<Rightarrow> WorkerMetrics \<Rightarrow> WorkerMetrics" where
  "count_sent out sent e m =
     (let delivered = (if sent < 0 then 0 else nat sent);
          m = m\<lparr> wm_replies_sent := wm_replies_sent m + of_nat delivered \<rparr>
      in if delivered < out then
           let dropped = of_nat (out - delivered);
               m = m\<lparr> wm_send_failures := wm_send_failures m + dropped \<rparr>
           in if e = Some ENOBUFS then m\<lparr> wm_send_nobufs := wm_send_nobufs m + dropped \<rparr>
              else if e = Some EAGAIN then m\<lparr> wm_send_wouldblock := wm_send_wouldblock m + dropped \<rparr>
              else m\<lparr> wm_send_errors := wm_send_errors m + dropped \<rparr>
         else m)"

text \<open>
  One turn of the loop: \<^term>\<open>received\<close> is the result of \<^verbatim>\<open>recv_batch\<close>, \<^term>\<open>park\<close> whether the busy-poll budget is spent.
  The result has the replies that were staged, of which the kernel took the first ones.
\<close>

record udp_input =
  ui_received :: "datagram list option"
  ui_park :: bool
  ui_clocks :: "(u64 \<times> int) list"
  ui_sends :: "send_mmsg list"

definition begin_batch :: "nat \<Rightarrow> nat \<Rightarrow> WorkerMetrics \<Rightarrow> WorkerMetrics" where
  "begin_batch batch n m =
     (let m = m\<lparr> wm_batches := wm_batches m + 1, wm_batch_datagrams := wm_batch_datagrams m + of_nat n \<rparr>
      in if n = batch then m\<lparr> wm_full_batches := wm_full_batches m + 1 \<rparr> else m)"

definition udp_turn ::
    "bool \<Rightarrow> bool \<Rightarrow> nat \<Rightarrow> RuleSet option \<Rightarrow> SubscriberStore \<Rightarrow> u64 \<Rightarrow> udp_input \<Rightarrow> WorkerMetrics \<Rightarrow>
     (datagram list \<times> WorkerMetrics) option" where
  "udp_turn le mmsg batch rs store now inp m =
     (case ui_received inp of
        None \<Rightarrow> Some ([], m\<lparr> wm_recv_errors := wm_recv_errors m + 1 \<rparr>)
      | Some [] \<Rightarrow>
          (let m = m\<lparr> wm_idle_spins := wm_idle_spins m + 1 \<rparr>
           in Some ([], if ui_park inp then m\<lparr> wm_blocking_waits := wm_blocking_waits m + 1 \<rparr> else m))
      | Some gs \<Rightarrow>
          (let m = begin_batch batch (length gs) m
           in case rs of
                None \<Rightarrow> Some ([], m)
              | Some rs \<Rightarrow>
                  (case process_batch le rs store now (ui_clocks inp) gs m of
                     None \<Rightarrow> None
                   | Some (staged, m) \<Rightarrow>
                       if staged = [] then Some ([], m)
                       else map_option (\<lambda>(sent, e). (staged, count_sent (length staged) sent e m))
                              (send_batch mmsg (length staged) (ui_sends inp)))))"

section \<open>Accounting\<close>

text \<open>What the counters of a worker promise: every datagram, every reply and every failure is in one class.\<close>

definition served :: "WorkerMetrics \<Rightarrow> u64" where
  "served m = wm_requests m + wm_bad_magic m"

definition sends_counted :: "WorkerMetrics \<Rightarrow> bool" where
  "sends_counted m \<longleftrightarrow> wm_send_failures m = wm_send_wouldblock m + wm_send_nobufs m + wm_send_errors m"

definition timings :: "WorkerMetrics \<Rightarrow> u64" where
  "timings m = of_int (h_total_count (wm_service_ns m) + h_negative_count (wm_service_ns m))"

lemma record_value_counts:
  assumes "record_value h v = Some h'"
  shows "h_total_count h' + h_negative_count h' = h_total_count h + h_negative_count h + 1"
  using assms by (auto simp: record_value_def bump_def Let_def split: if_splits)

lemma decide_datagram_counts:
  assumes "decide_datagram le rs store now payload m = Some (d, m')"
  shows "m' = m\<lparr> wm_bad_magic := wm_bad_magic m + 1 \<rparr> \<or> m' = m\<lparr> wm_requests := wm_requests m + 1 \<rparr> \<or>
    m' = m\<lparr> wm_unknown_subscriber := wm_unknown_subscriber m + 1, wm_requests := wm_requests m + 1 \<rparr>"
  using assms by (auto simp: decide_datagram_def Let_def split: prod.splits bool.splits option.splits if_splits)

text \<open>The counters \<^verbatim>\<open>note\<close> and the decision leave alone.\<close>

definition send_side :: "WorkerMetrics \<Rightarrow> u64 list" where
  "send_side m = [wm_replies_sent m, wm_send_failures m, wm_send_wouldblock m, wm_send_nobufs m, wm_send_errors m]"

definition recv_side :: "WorkerMetrics \<Rightarrow> u64 list" where
  "recv_side m = [wm_short_datagrams m, wm_batch_datagrams m, wm_batches m, wm_full_batches m, wm_recv_errors m]"

lemma note_decision_frame:
  "served (note_decision d m) = served m" "send_side (note_decision d m) = send_side m" "recv_side (note_decision d m) = recv_side m"
  "wm_service_ns (note_decision d m) = wm_service_ns m"
  by (simp_all add: note_decision_def Let_def served_def send_side_def recv_side_def)

lemma serve_datagram_counts:
  assumes "serve_datagram le rs store now clock payload m = Some (reply, m')"
  shows "served m' = served m + 1" "timings m' = timings m + 1" "send_side m' = send_side m" "recv_side m' = recv_side m"
proof -
  obtain d m1 h where d: "decide_datagram le rs store now payload m = Some (d, m1)" "record_value (wm_service_ns m1) (snd clock) = Some h"
    "m' = note_decision (d\<lparr> d_server_ts_ns := fst clock \<rparr>) (m1\<lparr> wm_service_ns := h \<rparr>)"
    using assms by (auto simp: serve_datagram_def Let_def split: option.splits)
  note c = decide_datagram_counts [OF d(1)] and t = record_value_counts [OF d(2)]
  have s: "wm_service_ns m1 = wm_service_ns m" using c by auto
  show "served m' = served m + 1" "send_side m' = send_side m" "recv_side m' = recv_side m"
    using c by (auto simp: d(3) note_decision_frame) (auto simp: served_def send_side_def recv_side_def)
  show "timings m' = timings m + 1"
    using arg_cong [OF t, of "of_int :: int \<Rightarrow> u64"] by (simp only: d(3) timings_def note_decision_frame s of_int_add of_int_1) simp
qed

lemma process_batch_counts:
  assumes "process_batch le rs store now clocks gs m = Some (staged, m')"
  shows "served m' = served m + of_nat (length staged) \<and> timings m' = timings m + of_nat (length staged) \<and> send_side m' = send_side m \<and>
    wm_batch_datagrams m' = wm_batch_datagrams m \<and>
    wm_short_datagrams m' + of_nat (length staged) = wm_short_datagrams m + of_nat (length gs)"
  using assms
proof (induction le rs store now clocks gs m arbitrary: staged rule: process_batch.induct)
  case (2 le rs store now clocks g gs m)
  show ?case
  proof (cases "length (snd g) = kWireMsgSize")
    case False
    then show ?thesis using 2(1) [OF False, of staged] 2(3)
      by (simp add: served_def timings_def send_side_def algebra_simps)
  next
    case True
    then obtain reply m1 st where r: "serve_datagram le rs store now (hd clocks) (snd g) m = Some (reply, m1)"
      "process_batch le rs store now (tl clocks) gs m1 = Some (st, m')" "staged = (fst g, reply) # st"
      using 2(3) by (auto split: option.splits)
    show ?thesis using 2(2) [of "(reply, m1)" reply m1 st] True r serve_datagram_counts [OF r(1)]
      by (simp add: recv_side_def algebra_simps)
  qed
qed simp

lemma send_loop_le:
  "send_loop mmsg count sent rs = Some (n, e) \<Longrightarrow> sent \<le> count \<Longrightarrow> nat n \<le> count"
proof (induction mmsg count sent rs rule: send_loop.induct)
  case (2 mmsg count sent r rs)
  then show ?case by (cases r) (auto split: if_splits)
qed (auto split: if_splits)

lemma send_batch_le: "send_batch mmsg count rs = Some (n, e) \<Longrightarrow> nat n \<le> count"
  using send_loop_le [of mmsg count 0 rs n e] by (auto simp: send_batch_def split: if_splits)

lemma count_sent_counts:
  assumes "nat sent \<le> out"
  shows "wm_replies_sent (count_sent out sent e m) + wm_send_failures (count_sent out sent e m) =
      wm_replies_sent m + wm_send_failures m + of_nat out"
    "sends_counted m \<Longrightarrow> sends_counted (count_sent out sent e m)"
    "served (count_sent out sent e m) = served m" "timings (count_sent out sent e m) = timings m"
    "recv_side (count_sent out sent e m) = recv_side m"
proof -
  define delivered where "delivered = (if sent < 0 then 0 else nat sent)"
  have "delivered \<le> out" using assms by (simp add: delivered_def)
  then have "of_nat delivered + of_nat (out - delivered) = (of_nat out :: u64)" by (simp flip: of_nat_add)
  then show "wm_replies_sent (count_sent out sent e m) + wm_send_failures (count_sent out sent e m) =
      wm_replies_sent m + wm_send_failures m + of_nat out"
    using \<open>delivered \<le> out\<close> by (auto simp: count_sent_def Let_def delivered_def [symmetric] algebra_simps)
qed (auto simp: count_sent_def Let_def sends_counted_def served_def timings_def recv_side_def)

definition balanced :: "WorkerMetrics \<Rightarrow> bool" where
  "balanced m \<longleftrightarrow>
     wm_batch_datagrams m = served m + wm_short_datagrams m \<and> served m = wm_replies_sent m + wm_send_failures m \<and>
     sends_counted m \<and> timings m = served m"

lemma udp_turn_cases:
  assumes "udp_turn le mmsg batch (Some rs) store now inp m = Some (staged, m')"
  obtains (quiet) "m' = m\<lparr> wm_recv_errors := wm_recv_errors m' \<rparr> \<or>
      m' = m\<lparr> wm_idle_spins := wm_idle_spins m', wm_blocking_waits := wm_blocking_waits m' \<rparr>"
    | (batch) gs st m2 where "process_batch le rs store now (ui_clocks inp) gs (begin_batch batch (length gs) m) = Some (st, m2)"
        "st = [] \<and> m' = m2 \<or> (\<exists>sent e. send_batch mmsg (length st) (ui_sends inp) = Some (sent, e) \<and> m' = count_sent (length st) sent e m2)"
proof (cases "ui_received inp")
  case None
  then show ?thesis using assms quiet by (auto simp: udp_turn_def)
next
  case (Some gs)
  show ?thesis
  proof (cases gs)
    case Nil
    then show ?thesis using assms Some quiet by (auto simp: udp_turn_def Let_def)
  next
    case (Cons g gs')
    then show ?thesis using assms Some batch [of gs] by (auto simp: udp_turn_def Let_def split: option.splits if_splits)
  qed
qed

lemma begin_batch_frame:
  "served (begin_batch batch n m) = served m" "timings (begin_batch batch n m) = timings m" "send_side (begin_batch batch n m) = send_side m"
  "wm_short_datagrams (begin_batch batch n m) = wm_short_datagrams m" "wm_service_ns (begin_batch batch n m) = wm_service_ns m"
  "wm_batch_datagrams (begin_batch batch n m) = wm_batch_datagrams m + of_nat n"
  by (simp_all add: begin_batch_def Let_def served_def timings_def send_side_def)

lemma balanced_quiet:
  "balanced (m\<lparr> wm_recv_errors := a \<rparr>) = balanced m" "balanced (m\<lparr> wm_idle_spins := a, wm_blocking_waits := b \<rparr>) = balanced m"
  by (simp_all add: balanced_def served_def sends_counted_def timings_def)

lemma udp_turn_balanced:
  assumes "balanced m" "udp_turn le mmsg batch (Some rs) store now inp m = Some (staged, m')"
  shows "balanced m'"
  using assms(2)
proof (cases rule: udp_turn_cases)
  case quiet
  then show ?thesis using assms(1) balanced_quiet by metis
next
  case (batch gs st m2)
  have "wm_batch_datagrams m2 = served m2 + wm_short_datagrams m2" "timings m2 = served m2" "sends_counted m2"
    "served m2 = wm_replies_sent m2 + wm_send_failures m2 + of_nat (length st)"
    using process_batch_counts [OF batch(1)] assms(1) by (auto simp: begin_batch_frame balanced_def) (auto simp: send_side_def sends_counted_def algebra_simps begin_batch_def Let_def)
  then show ?thesis using batch(2) count_sent_counts [OF send_batch_le] by (auto simp: balanced_def recv_side_def)
qed

text \<open>The histograms of all workers have the layout of a new one.\<close>

definition timed :: "HdrHistogram \<Rightarrow> WorkerMetrics \<Rightarrow> bool" where
  "timed h0 m \<longleftrightarrow> (\<exists>vs. holds_run h0 (wm_service_ns m) vs)"

lemma serve_datagram_timed:
  assumes "serve_datagram le rs store now clock payload m = Some (reply, m')" "timed h0 m"
  shows "timed h0 m'"
proof -
  obtain d m1 h where d: "decide_datagram le rs store now payload m = Some (d, m1)" "record_value (wm_service_ns m1) (snd clock) = Some h"
    "m' = note_decision (d\<lparr> d_server_ts_ns := fst clock \<rparr>) (m1\<lparr> wm_service_ns := h \<rparr>)"
    using assms(1) by (auto simp: serve_datagram_def Let_def split: option.splits)
  have "wm_service_ns m1 = wm_service_ns m" using decide_datagram_counts [OF d(1)] by auto
  then show ?thesis using assms(2) record_run [of h0 "wm_service_ns m" _ "snd clock"] d(2)
    by (auto simp: timed_def d(3) note_decision_frame)
qed

lemma process_batch_timed:
  "process_batch le rs store now clocks gs m = Some (staged, m') \<Longrightarrow> timed h0 m \<Longrightarrow> timed h0 m'"
proof (induction le rs store now clocks gs m arbitrary: staged rule: process_batch.induct)
  case (2 le rs store now clocks g gs m)
  show ?case
  proof (cases "length (snd g) = kWireMsgSize")
    case True
    then obtain reply m1 st where r: "serve_datagram le rs store now (hd clocks) (snd g) m = Some (reply, m1)"
      "process_batch le rs store now (tl clocks) gs m1 = Some (st, m')"
      using 2(3) by (auto split: option.splits)
    show ?thesis using 2(2) [of "(reply, m1)" reply m1 st] True r serve_datagram_timed [OF r(1) 2(4)] by simp
  next
    case False
    then show ?thesis using 2(1,3,4) by (simp add: timed_def)
  qed
qed simp

lemma udp_turn_timed:
  assumes "timed h0 m" "udp_turn le mmsg batch (Some rs) store now inp m = Some (staged, m')"
  shows "timed h0 m'"
  using assms(2)
proof (cases rule: udp_turn_cases)
  case quiet
  then have "wm_service_ns m' = wm_service_ns m"
    by (metis WorkerMetrics.simps(18) WorkerMetrics.surjective WorkerMetrics.update_convs(10,14,15))
  then show ?thesis using assms(1) by (simp add: timed_def)
next
  case (batch gs st m2)
  have "timed h0 m2" using process_batch_timed [OF batch(1)] assms(1) by (simp add: timed_def begin_batch_frame)
  then show ?thesis using batch(2) by (auto simp: timed_def count_sent_def Let_def)
qed

lemma add_metrics_ok:
  assumes "balanced s" "timed h0 s" "balanced w" "timed h0 w"
  shows "balanced (add_metrics s w) \<and> timed h0 (add_metrics s w)"
proof -
  obtain vs ws where v: "holds_run h0 (wm_service_ns s) vs" "holds_run h0 (wm_service_ns w) ws" using assms by (auto simp: timed_def)
  obtain k where k: "add_histogram (wm_service_ns s) (wm_service_ns w) = (k, True)" "holds_run h0 k (vs @ ws)" using add_run [OF v] by blast
  have "h_total_count k = h_total_count (wm_service_ns s) + h_total_count (wm_service_ns w)"
    "h_negative_count k = h_negative_count (wm_service_ns s) + h_negative_count (wm_service_ns w)"
    using k(1) by (auto simp: add_histogram_def Let_def split: if_splits)
  then have "timings (add_metrics s w) = timings s + timings w"
    by (simp add: timings_def add_metrics_def k(1) algebra_simps)
  then show ?thesis using assms k
    by (auto simp: balanced_def served_def sends_counted_def add_metrics_def timed_def algebra_simps)
qed

text \<open>A worker's life: its turns in order, each with the rule set its guard holds and the time of day.\<close>

fun udp_run ::
    "bool \<Rightarrow> bool \<Rightarrow> nat \<Rightarrow> SubscriberStore \<Rightarrow> (RuleSet \<times> u64 \<times> udp_input) list \<Rightarrow> WorkerMetrics \<Rightarrow> WorkerMetrics option" where
  "udp_run le mmsg batch store [] m = Some m"
| "udp_run le mmsg batch store ((rs, now, inp) # turns) m =
     (case udp_turn le mmsg batch (Some rs) store now inp m of
        None \<Rightarrow> None | Some (staged, m) \<Rightarrow> udp_run le mmsg batch store turns m)"

lemma udp_run_ok:
  "udp_run le mmsg batch store turns m = Some m' \<Longrightarrow> balanced m \<Longrightarrow> timed h0 m \<Longrightarrow> balanced m' \<and> timed h0 m'"
proof (induction turns arbitrary: m)
  case (Cons t turns)
  obtain rs now inp where t: "t = (rs, now, inp)" by (cases t)
  obtain st m1 where u: "udp_turn le mmsg batch (Some rs) store now inp m = Some (st, m1)" "udp_run le mmsg batch store turns m1 = Some m'"
    using Cons.prems(1) t by (auto split: option.splits)
  show ?case using Cons.IH [OF u(2) udp_turn_balanced [OF Cons.prems(2) u(1)] udp_turn_timed [OF Cons.prems(3) u(1)]] .
qed simp

lemma new_metrics_ok: "\<exists>h0. new_metrics = Some (zero_metrics h0) \<and> balanced (zero_metrics h0) \<and> timed h0 (zero_metrics h0)"
proof -
  obtain h0 where h0: "new_histogram 1 10000000 3 = Some h0" "holds_run h0 h0 []"
    using new_run [of 1 10000000 3] by auto
  then have "h_total_count h0 = 0" "h_negative_count h0 = 0" by (simp_all add: holds_run_def tracks_def samples_def)
  then show ?thesis using h0
    by (auto simp: new_metrics_def zero_metrics_def balanced_def served_def sends_counted_def timings_def timed_def)
qed

lemma foldl_add_ok:
  "\<forall>m \<in> set ms. balanced m \<and> timed h0 m \<Longrightarrow> balanced s \<Longrightarrow> timed h0 s \<Longrightarrow> balanced (foldl add_metrics s ms)"
  by (induction ms arbitrary: s) (simp_all add: add_metrics_ok)


definition no_store :: SubscriberStore where
  "no_store = \<lparr> st_slots = [], st_mask = 0, st_size = 0, st_max_load_factor = 1 \<rparr>"

definition quiet_turns :: "(RuleSet \<times> u64 \<times> udp_input) list" where
  "quiet_turns =
     [(sample_rs, 0, \<lparr> ui_received = Some [((1, 2), [3]), ((1, 2), [])], ui_park = False, ui_clocks = [], ui_sends = [] \<rparr>),
      (sample_rs, 0, \<lparr> ui_received = None, ui_park = False, ui_clocks = [], ui_sends = [] \<rparr>)]"


section \<open>Replies\<close>

text \<open>What a full-size datagram is answered with.\<close>

definition answers :: "bool \<Rightarrow> RuleSet \<Rightarrow> SubscriberStore \<Rightarrow> u64 \<Rightarrow> datagram \<Rightarrow> datagram \<Rightarrow> bool" where
  "answers le rs store now g r \<longleftrightarrow>
     fst r = fst g \<and>
     (\<exists>d ts. snd r = encode_decision le (d\<lparr> d_server_ts_ns := ts \<rparr>) \<and>
        (case decode_request le (snd g) zero_request of
           (True, req) \<Rightarrow> evaluate rs req (store_map store (rq_imsi req)) now = Some d
         | (False, _) \<Rightarrow> d_verdict d = verdict_u8 kDeny \<and> d_reason d = reason_u8 kMalformedRequest \<and>
             d_seq d = rq_seq (object_request le (snd g)) \<and> d_client_ts_ns d = rq_client_ts_ns (object_request le (snd g))))"

lemma evaluate_total: "rs_ok rs \<Longrightarrow> \<exists>d. evaluate rs req rec now = Some d"
  using build_features_bits [of rs req rec now] by (auto simp: evaluate_def)

lemma serve_datagram_answers:
  assumes "rs_ok rs" "store_inv store" "timed h0 m"
  shows "\<exists>reply m'. serve_datagram le rs store now clock payload m = Some (reply, m') \<and> timed h0 m' \<and>
    answers le rs store now (a, payload) (a, reply)"
proof -
  obtain d m1 where d: "decide_datagram le rs store now payload m = Some (d, m1)"
    "case decode_request le payload zero_request of
       (True, req) \<Rightarrow> evaluate rs req (store_map store (rq_imsi req)) now = Some d
     | (False, _) \<Rightarrow> d_verdict d = verdict_u8 kDeny \<and> d_reason d = reason_u8 kMalformedRequest \<and>
         d_seq d = rq_seq (object_request le payload) \<and> d_client_ts_ns d = rq_client_ts_ns (object_request le payload)"
  proof (cases "decode_request le payload zero_request")
    case (Pair ok req)
    show ?thesis
    proof (cases ok)
      case True
      obtain d where "evaluate rs req (store_map store (rq_imsi req)) now = Some d" using evaluate_total [OF assms(1)] by blast
      then show ?thesis using True Pair that [of d] find_store_map [OF assms(2)] by (simp add: decide_datagram_def Let_def)
    next
      case False
      then show ?thesis using Pair that by (simp add: decide_datagram_def Let_def malformed_decision_def zero_decision_def)
    qed
  qed
  obtain vs where "holds_run h0 (wm_service_ns m1) vs" using decide_datagram_counts [OF d(1)] assms(3) by (auto simp: timed_def)
  then obtain h where "record_value (wm_service_ns m1) (snd clock) = Some h" using record_run by blast
  then have s: "serve_datagram le rs store now clock payload m =
      Some (encode_decision le (d\<lparr> d_server_ts_ns := fst clock \<rparr>),
        note_decision (d\<lparr> d_server_ts_ns := fst clock \<rparr>) (m1\<lparr> wm_service_ns := h \<rparr>))"
    using d(1) by (simp add: serve_datagram_def Let_def)
  have "answers le rs store now (a, payload) (a, encode_decision le (d\<lparr> d_server_ts_ns := fst clock \<rparr>))"
    unfolding answers_def fst_conv snd_conv using d(2) by (intro conjI exI [of _ d] exI [of _ "fst clock"] refl)
  then show ?thesis using s serve_datagram_timed [OF s assms(3)] by blast
qed

lemma process_batch_answers:
  assumes "rs_ok rs" "store_inv store" "timed h0 m"
  shows "\<exists>staged m'. process_batch le rs store now clocks gs m = Some (staged, m') \<and>
    list_all2 (answers le rs store now) (filter (\<lambda>g. length (snd g) = kWireMsgSize) gs) staged"
  using assms(3)
proof (induction gs arbitrary: clocks m)
  case (Cons g gs)
  show ?case
  proof (cases "length (snd g) = kWireMsgSize")
    case True
    obtain reply m1 where r: "serve_datagram le rs store now (hd clocks) (snd g) m = Some (reply, m1)" "timed h0 m1"
      "answers le rs store now (fst g, snd g) (fst g, reply)"
      using serve_datagram_answers [OF assms(1,2) Cons.prems] by blast
    obtain st m2 where "process_batch le rs store now (tl clocks) gs m1 = Some (st, m2)"
      "list_all2 (answers le rs store now) (filter (\<lambda>g. length (snd g) = kWireMsgSize) gs) st"
      using Cons.IH [OF r(2)] by blast
    then show ?thesis using True r by simp
  next
    case False
    then show ?thesis using Cons.IH [of "m\<lparr> wm_short_datagrams := wm_short_datagrams m + 1 \<rparr>" "tl clocks"] Cons.prems by (simp add: timed_def)
  qed
qed simp

text \<open>
  C7: a batch is answered in full: against a well-formed rule set and store, every 64-byte message of a received batch gets exactly one
  64-byte reply, in order of arrival and to the address it came from, which carries the decision of the engine for the
  decoded request and the subscriber in the store, or, for a wrong magic, a denial echoing the sequence number;
  everything else gets none, and processing returns.
\<close>

theorem udp_batch_answered:
  assumes "rs_ok rs" "store_inv store" "new_histogram 1 10000000 3 = Some h0"
  shows "\<exists>staged m. process_batch le rs store now clocks gs (zero_metrics h0) = Some (staged, m) \<and>
    list_all2 (answers le rs store now) (filter (\<lambda>g. length (snd g) = kWireMsgSize) gs) staged \<and>
    wm_requests m + wm_bad_magic m = of_nat (length staged) \<and>
    wm_short_datagrams m + of_nat (length staged) = of_nat (length gs)"
proof -
  have t: "timed h0 (zero_metrics h0)"
    using new_run [of 1 10000000 3] assms(3) by (auto simp: timed_def zero_metrics_def)
  obtain staged m where p: "process_batch le rs store now clocks gs (zero_metrics h0) = Some (staged, m)"
    "list_all2 (answers le rs store now) (filter (\<lambda>g. length (snd g) = kWireMsgSize) gs) staged"
    using process_batch_answers [OF assms(1,2) t] by blast
  then show ?thesis using process_batch_counts [OF p(1)] by (simp add: served_def zero_metrics_def)
qed

theorem udp_batch_answered_witness:
  "\<exists>h0 store staged m. new_histogram 1 10000000 3 = Some h0 \<and> store_inv store \<and>
     process_batch True sample_rs store 0 [(5, 100)] [((1, 2), replicate 64 0), ((3, 4), [])] (zero_metrics h0) = Some (staged, m) \<and>
     map fst staged = [(1, 2)]"
proof -
  obtain h0 where h0: "new_histogram 1 10000000 3 = Some h0" using new_run [of 1 10000000 3] by auto
  obtain store where st: "store_inv store" using default_store_inv by blast
  obtain staged m where p: "process_batch True sample_rs store 0 [(5, 100)] [((1, 2), replicate 64 0), ((3, 4), [])] (zero_metrics h0) = Some (staged, m)"
    "list_all2 (answers True sample_rs store 0) [((1, 2), replicate 64 0)] staged"
    using udp_batch_answered [OF sample_rs_ok st h0, of True 0 "[(5, 100)]" "[((1, 2), replicate 64 0), ((3, 4), [])]"]
    by (auto simp: kWireMsgSize_def)
  then have "map fst staged = [(1, 2)]" by (auto simp: list_all2_Cons1 answers_def)
  then show ?thesis using h0 st p(1) by (intro exI conjI)
qed



end
