(* ===== verification/Uring.thy ===== *)
theory Uring
  imports Ingest "HOL-Library.Multiset"
begin

text \<open>
  The io_uring backend (\<^verbatim>\<open>src/src/server_iouring.cpp\<close>): the pool of send slots with its free list, the receive slots that are re-armed, the
  submission queue, and the handling of the completions reaped in one round. The completions come from the kernel;
  a round gets at most one for each receive that is armed and for each send in flight when it starts.
\<close>

unbundle bit_operations_syntax

section \<open>User data\<close>

definition kOpRecv :: u64 where "kOpRecv = 0"
definition kOpSend :: u64 where "kOpSend = 1"

definition make_user_data :: "u64 \<Rightarrow> u64 \<Rightarrow> u64" where
  "make_user_data op idx = push_bit 32 op OR idx"

definition user_data_op :: "u64 \<Rightarrow> u64" where
  "user_data_op ud = drop_bit 32 ud"

definition user_data_idx :: "u64 \<Rightarrow> u64" where
  "user_data_idx ud = ud AND 0xFFFFFFFF"

section \<open>The ring\<close>

record uring =
  ur_metrics :: WorkerMetrics
  ur_free_send :: "nat list"
  ur_in_flight :: "(nat \<times> datagram) list"
  ur_armed :: "nat list"
  ur_queued :: nat
  ur_processed :: nat

text \<open>\<^verbatim>\<open>io_uring_get_sqe\<close> fails when the submission queue of \<^term>\<open>entries\<close> is full.\<close>

definition arm_recv :: "nat \<Rightarrow> nat \<Rightarrow> uring \<Rightarrow> uring" where
  "arm_recv entries i s =
     (if ur_queued s < entries then s\<lparr> ur_queued := ur_queued s + 1, ur_armed := ur_armed s @ [i] \<rparr> else s)"

definition init_ring :: "nat \<Rightarrow> nat \<Rightarrow> WorkerMetrics \<Rightarrow> uring" where
  "init_ring entries batch m =
     foldl (\<lambda>s i. arm_recv entries i s)
       \<lparr> ur_metrics = m, ur_free_send = rev [0..<2 * batch], ur_in_flight = [], ur_armed = [], ur_queued = 0, ur_processed = 0 \<rparr>
       [0..<batch]"

definition drop_reply :: "uring \<Rightarrow> uring" where
  "drop_reply s =
     (let m = ur_metrics s
      in s\<lparr> ur_metrics := m\<lparr> wm_send_failures := wm_send_failures m + 1, wm_send_wouldblock := wm_send_wouldblock m + 1 \<rparr> \<rparr>)"

definition queue_reply :: "nat \<Rightarrow> datagram \<Rightarrow> uring \<Rightarrow> uring" where
  "queue_reply entries reply s =
     (if ur_free_send s = [] then drop_reply s
      else if ur_queued s < entries then
        s\<lparr> ur_queued := ur_queued s + 1, ur_free_send := butlast (ur_free_send s),
           ur_in_flight := ur_in_flight s @ [(last (ur_free_send s), reply)] \<rparr>
      else drop_reply s)"

datatype completion = SendDone nat "errno option" | RecvFail nat bool | RecvGot nat datagram

definition count_send_done :: "errno option \<Rightarrow> WorkerMetrics \<Rightarrow> WorkerMetrics" where
  "count_send_done e m =
     (case e of
        None \<Rightarrow> m\<lparr> wm_replies_sent := wm_replies_sent m + 1 \<rparr>
      | Some e \<Rightarrow>
          (let m = m\<lparr> wm_send_failures := wm_send_failures m + 1 \<rparr>
           in if e = ENOBUFS then m\<lparr> wm_send_nobufs := wm_send_nobufs m + 1 \<rparr>
              else if e = EAGAIN then m\<lparr> wm_send_wouldblock := wm_send_wouldblock m + 1 \<rparr>
              else m\<lparr> wm_send_errors := wm_send_errors m + 1 \<rparr>))"

definition disarm :: "nat \<Rightarrow> uring \<Rightarrow> uring" where
  "disarm i s = s\<lparr> ur_armed := filter (\<lambda>j. j \<noteq> i) (ur_armed s) \<rparr>"

text \<open>A completion leaves the ring; the flag of a failed receive is whether it is \<^verbatim>\<open>EAGAIN\<close> or \<^verbatim>\<open>EINTR\<close>.\<close>

definition on_completion ::
    "bool \<Rightarrow> nat \<Rightarrow> RuleSet option \<Rightarrow> SubscriberStore \<Rightarrow> u64 \<Rightarrow> u64 \<times> int \<Rightarrow> completion \<Rightarrow> uring \<Rightarrow> uring option" where
  "on_completion le entries rs store now clock c s =
     (let m = ur_metrics s in
      case c of
        SendDone i e \<Rightarrow>
          Some (s\<lparr> ur_metrics := count_send_done e m, ur_free_send := ur_free_send s @ [i],
                   ur_in_flight := filter (\<lambda>f. fst f \<noteq> i) (ur_in_flight s) \<rparr>)
      | RecvFail i retry \<Rightarrow>
          (let s = disarm i s
           in Some (arm_recv entries i (if retry then s else s\<lparr> ur_metrics := m\<lparr> wm_recv_errors := wm_recv_errors m + 1 \<rparr> \<rparr>)))
      | RecvGot i g \<Rightarrow>
          (let s = disarm i s; g = into_slot g in
           if length (snd g) \<noteq> kWireMsgSize then
             Some (arm_recv entries i (s\<lparr> ur_metrics := m\<lparr> wm_short_datagrams := wm_short_datagrams m + 1 \<rparr> \<rparr>))
           else case rs of
             None \<Rightarrow> Some (arm_recv entries i s)
           | Some rs \<Rightarrow>
               map_option (\<lambda>(reply, m).
                   arm_recv entries i
                     ((queue_reply entries (fst g, reply) (s\<lparr> ur_metrics := m \<rparr>))\<lparr> ur_processed := ur_processed s + 1 \<rparr>))
                 (serve_datagram le rs store now clock (snd g) m)))"

fun on_completions ::
    "bool \<Rightarrow> nat \<Rightarrow> RuleSet option \<Rightarrow> SubscriberStore \<Rightarrow> u64 \<Rightarrow> ((u64 \<times> int) \<times> completion) list \<Rightarrow> uring \<Rightarrow> uring option" where
  "on_completions le entries rs store now [] s = Some s"
| "on_completions le entries rs store now ((clock, c) # cs) s =
     (case on_completion le entries rs store now clock c s of
        None \<Rightarrow> None | Some s \<Rightarrow> on_completions le entries rs store now cs s)"

definition end_round :: "nat \<Rightarrow> uring \<Rightarrow> uring" where
  "end_round batch s =
     (let m = ur_metrics s; n = ur_processed s
      in s\<lparr> ur_metrics :=
           (if n > 0 then
              let m = m\<lparr> wm_batches := wm_batches m + 1, wm_batch_datagrams := wm_batch_datagrams m + of_nat n \<rparr>
              in if n \<ge> batch then m\<lparr> wm_full_batches := wm_full_batches m + 1 \<rparr> else m
            else m\<lparr> wm_idle_spins := wm_idle_spins m + 1, wm_blocking_waits := wm_blocking_waits m + 1 \<rparr>) \<rparr>)"

text \<open>One round: submitting empties the queue, then the completions are handled.\<close>

definition uring_round ::
    "bool \<Rightarrow> nat \<Rightarrow> nat \<Rightarrow> RuleSet option \<Rightarrow> SubscriberStore \<Rightarrow> u64 \<Rightarrow> ((u64 \<times> int) \<times> completion) list \<Rightarrow> uring \<Rightarrow> uring option" where
  "uring_round le entries batch rs store now cs s =
     map_option (end_round batch) (on_completions le entries rs store now cs (s\<lparr> ur_queued := 0, ur_processed := 0 \<rparr>))"

section \<open>Slots and submissions\<close>

fun recv_index :: "completion \<Rightarrow> nat list" where
  "recv_index (SendDone i e) = []"
| "recv_index (RecvFail i retry) = [i]"
| "recv_index (RecvGot i g) = [i]"

fun send_index :: "completion \<Rightarrow> nat list" where
  "send_index (SendDone i e) = [i]"
| "send_index (RecvFail i retry) = []"
| "send_index (RecvGot i g) = []"

text \<open>The completions the kernel can deliver: for what is armed and in flight, once each.\<close>

definition deliverable :: "completion list \<Rightarrow> uring \<Rightarrow> bool" where
  "deliverable cs s \<longleftrightarrow>
     distinct (concat (map recv_index cs)) \<and> set (concat (map recv_index cs)) \<subseteq> set (ur_armed s) \<and>
     distinct (concat (map send_index cs)) \<and> set (concat (map send_index cs)) \<subseteq> fst ` set (ur_in_flight s)"

definition ring_ok :: "nat \<Rightarrow> uring \<Rightarrow> bool" where
  "ring_ok batch s \<longleftrightarrow>
     distinct (ur_free_send s @ map fst (ur_in_flight s)) \<and>
     set (ur_free_send s @ map fst (ur_in_flight s)) = {..<2 * batch} \<and>
     distinct (ur_armed s) \<and> set (ur_armed s) = {..<batch} \<and>
     served (ur_metrics s) = wm_replies_sent (ur_metrics s) + wm_send_failures (ur_metrics s) + of_nat (length (ur_in_flight s)) \<and>
     sends_counted (ur_metrics s)"

lemma high_bits_clear:
  assumes "x < 2 ^ 32" "bit (x :: u64) n"
  shows "n < 32"
proof -
  have "unat x < 2 ^ 32" using assms(1) by (simp add: word_less_nat_alt)
  then have "take_bit 32 (unat x) = unat x" by (simp add: take_bit_nat_eq_self)
  moreover have "bit (unat x) n" using assms(2) by (simp add: bit_unsigned_iff)
  ultimately show ?thesis using bit_take_bit_iff [of 32 "unat x" n] by simp
qed

lemma user_data_round_trip:
  assumes "op < 2 ^ 32" "idx < 2 ^ 32"
  shows "user_data_op (make_user_data op idx) = op \<and> user_data_idx (make_user_data op idx) = idx"
proof -
  have m: "0xFFFFFFFF = (mask 32 :: u64)" by (simp add: mask_eq_exp_minus_1)
  note lo = high_bits_clear [OF assms(2)] and hi = high_bits_clear [OF assms(1)]
  show ?thesis
    unfolding user_data_op_def user_data_idx_def make_user_data_def m
    by (auto intro!: bit_word_eqI simp: bit_simps dest: lo hi)
qed

lemma remove_in_flight:
  assumes "distinct (map fst xs)" "i \<in> fst ` set xs"
  shows "length xs = Suc (length (filter (\<lambda>f. fst f \<noteq> i) xs))" "fst ` set (filter (\<lambda>f. fst f \<noteq> i) xs) = fst ` set xs - {i}"
    "distinct (map fst (filter (\<lambda>f. fst f \<noteq> i) xs))"
proof -
  show "length xs = Suc (length (filter (\<lambda>f. fst f \<noteq> i) xs))" using assms
  proof (induction xs)
    case (Cons x xs)
    show ?case
    proof (cases "fst x = i")
      case True
      then have "i \<notin> fst ` set xs" using Cons.prems(1) by simp
      then have "filter (\<lambda>f. fst f \<noteq> i) xs = xs" by (intro filter_True) (metis image_eqI)
      then show ?thesis using True by simp
    next
      case False
      then show ?thesis using Cons by auto
    qed
  qed simp
qed (use assms in \<open>auto simp: distinct_map inj_on_def\<close>)

text \<open>The parts of a state that only the metrics, or only the slots, make.\<close>

lemma disarm_armed:
  "distinct (ur_armed s) \<Longrightarrow> distinct (ur_armed (disarm i s))" "set (ur_armed (disarm i s)) = set (ur_armed s) - {i}"
  by (auto simp: disarm_def)

lemma queue_reply_slots:
  assumes "ur_queued s < entries"
  shows "mset (ur_free_send (queue_reply entries r s) @ map fst (ur_in_flight (queue_reply entries r s))) =
      mset (ur_free_send s @ map fst (ur_in_flight s))"
    "wm_replies_sent (ur_metrics (queue_reply entries r s)) = wm_replies_sent (ur_metrics s)"
    "wm_send_failures (ur_metrics (queue_reply entries r s)) + of_nat (length (ur_in_flight (queue_reply entries r s))) =
      wm_send_failures (ur_metrics s) + of_nat (length (ur_in_flight s)) + 1"
    "sends_counted (ur_metrics s) \<Longrightarrow> sends_counted (ur_metrics (queue_reply entries r s))"
    "served (ur_metrics (queue_reply entries r s)) = served (ur_metrics s)"
    "ur_armed (queue_reply entries r s) = ur_armed s" "ur_queued (queue_reply entries r s) \<le> Suc (ur_queued s)"
    "fst ` set (ur_in_flight s) \<subseteq> fst ` set (ur_in_flight (queue_reply entries r s))"
proof -
  have "mset (butlast xs) + add_mset (last xs) M = mset xs + M" if "xs \<noteq> []" for xs and M :: "nat multiset"
    using append_butlast_last_id [OF that] by (metis add_mset_add_single mset_append mset_single_iff_right union_assoc union_commute)
  then show "mset (ur_free_send (queue_reply entries r s) @ map fst (ur_in_flight (queue_reply entries r s))) =
      mset (ur_free_send s @ map fst (ur_in_flight s))"
    using assms by (simp add: queue_reply_def drop_reply_def Let_def)
qed (use assms in \<open>auto simp: queue_reply_def drop_reply_def Let_def sends_counted_def served_def\<close>)

lemma arm_recv_ok:
  assumes "ur_queued s < entries"
  shows "arm_recv entries i s = s\<lparr> ur_queued := ur_queued s + 1, ur_armed := ur_armed s @ [i] \<rparr>"
  using assms by (simp add: arm_recv_def)

definition room :: "nat \<Rightarrow> completion list \<Rightarrow> uring \<Rightarrow> bool" where
  "room entries cs s \<longleftrightarrow> ur_queued s + 2 * length (concat (map recv_index cs)) \<le> entries"

lemma mset_slots:
  "mset (f' @ xs') = mset (f @ xs) \<Longrightarrow> distinct (f @ xs) \<and> set (f @ xs) = S \<Longrightarrow> distinct (f' @ xs') \<and> set (f' @ xs') = S"
  using mset_eq_imp_distinct_iff mset_eq_setD by metis

lemma send_done_ok:
  assumes ok: "ring_ok batch s" and d: "deliverable (SendDone i e # cs) s" and r: "room entries (SendDone i e # cs) s"
    and s': "on_completion le entries rs store now clock (SendDone i e) s = Some s'"
  shows "ring_ok batch s' \<and> deliverable cs s' \<and> room entries cs s'"
proof -
  let ?f = "filter (\<lambda>f. fst f \<noteq> i) (ur_in_flight s)"
  have e: "s' = s\<lparr> ur_metrics := count_send_done e (ur_metrics s), ur_free_send := ur_free_send s @ [i], ur_in_flight := ?f \<rparr>"
    using s' by (simp add: on_completion_def Let_def)
  have i: "i \<in> fst ` set (ur_in_flight s)" "i \<notin> set (concat (map send_index cs))" using d by (auto simp: deliverable_def)
  have df: "distinct (map fst (ur_in_flight s))" using ok by (simp add: ring_ok_def)
  note rm = remove_in_flight [OF df i(1)]
  have "wm_replies_sent (ur_metrics s') + wm_send_failures (ur_metrics s') = wm_replies_sent (ur_metrics s) + wm_send_failures (ur_metrics s) + 1"
    "served (ur_metrics s') = served (ur_metrics s)" "sends_counted (ur_metrics s) \<Longrightarrow> sends_counted (ur_metrics s')"
    by (simp_all add: e count_send_done_def Let_def served_def sends_counted_def split: option.splits)
  moreover have "distinct (ur_free_send s' @ map fst (ur_in_flight s'))"
    "set (ur_free_send s' @ map fst (ur_in_flight s')) = set (ur_free_send s @ map fst (ur_in_flight s))"
    using ok i(1) rm(2,3) by (auto simp: e ring_ok_def)
  moreover have "of_nat (length (ur_in_flight s)) = of_nat (length (ur_in_flight s')) + (1 :: u64)" using rm(1) by (simp add: e)
  ultimately have "ring_ok batch s'" using ok by (auto simp: ring_ok_def algebra_simps) (simp_all add: e)
  moreover have "deliverable cs s'" using d i(2) rm(2) by (auto simp: deliverable_def e)
  ultimately show ?thesis using r by (simp add: room_def e)
qed

lemma rearmed_ok:
  assumes "distinct (ur_armed t)" "set (ur_armed t) = A - {i}" "i \<in> A" "ur_queued t < entries"
  shows "distinct (ur_armed (arm_recv entries i t))" "set (ur_armed (arm_recv entries i t)) = A"
  using assms by (auto simp: arm_recv_ok)

text \<open>A receive completion: the ring as it is but for the metrics and the queue, then re-armed.\<close>

lemma recv_done_ok:
  assumes ok: "ring_ok batch s" and d: "deliverable (c # cs) s" and r: "room entries (c # cs) s" and c: "recv_index c = [i]" "send_index c = []"
    and t: "mset (ur_free_send t @ map fst (ur_in_flight t)) = mset (ur_free_send s @ map fst (ur_in_flight s))"
      "served (ur_metrics t) = wm_replies_sent (ur_metrics t) + wm_send_failures (ur_metrics t) + of_nat (length (ur_in_flight t))"
      "sends_counted (ur_metrics t)" "ur_armed t = ur_armed (disarm i s)" "ur_queued t \<le> Suc (ur_queued s)"
      "fst ` set (ur_in_flight s) \<subseteq> fst ` set (ur_in_flight t)"
  shows "ring_ok batch (arm_recv entries i t) \<and> deliverable cs (arm_recv entries i t) \<and> room entries cs (arm_recv entries i t)"
proof -
  have q: "ur_queued t < entries" using r t(5) by (simp add: room_def c)
  have i: "i \<in> set (ur_armed s)" using d by (simp add: deliverable_def c)
  have da: "distinct (ur_armed s)" using ok by (simp add: ring_ok_def)
  have a: "distinct (ur_armed (arm_recv entries i t))" "set (ur_armed (arm_recv entries i t)) = set (ur_armed s)"
    using rearmed_ok [OF _ _ i q] disarm_armed(1) [OF da, of i] disarm_armed(2) [of i s] t(4) by simp_all
  have slots: "distinct (ur_free_send t @ map fst (ur_in_flight t)) \<and> set (ur_free_send t @ map fst (ur_in_flight t)) = {..<2 * batch}"
    using ok by (intro mset_slots [OF t(1)]) (simp add: ring_ok_def)
  have "ring_ok batch (arm_recv entries i t)"
    unfolding ring_ok_def a(2) using ok a(1) slots t(2,3) by (simp add: arm_recv_ok [OF q] ring_ok_def)
  moreover have "set (concat (map send_index cs)) \<subseteq> fst ` set (ur_in_flight t)"
  proof (rule order.trans [OF _ t(6)])
    show "set (concat (map send_index cs)) \<subseteq> fst ` set (ur_in_flight s)" using d by (simp add: deliverable_def c)
  qed
  then have "deliverable cs (arm_recv entries i t)"
    using d unfolding deliverable_def a(2) by (simp add: c arm_recv_ok [OF q])
  ultimately show ?thesis using r t(5) q by (simp add: room_def c arm_recv_ok)
qed

lemma recv_quiet_ok:
  assumes ok: "ring_ok batch s" and d: "deliverable (c # cs) s" and r: "room entries (c # cs) s" and c: "recv_index c = [i]" "send_index c = []"
    and m: "served m = served (ur_metrics s)" "send_side m = send_side (ur_metrics s)"
  shows "ring_ok batch (arm_recv entries i ((disarm i s)\<lparr> ur_metrics := m \<rparr>)) \<and>
    deliverable cs (arm_recv entries i ((disarm i s)\<lparr> ur_metrics := m \<rparr>)) \<and> room entries cs (arm_recv entries i ((disarm i s)\<lparr> ur_metrics := m \<rparr>))"
proof (rule recv_done_ok [OF ok d r c])
  have "wm_replies_sent m = wm_replies_sent (ur_metrics s)" "wm_send_failures m = wm_send_failures (ur_metrics s)"
    "sends_counted m = sends_counted (ur_metrics s)"
    using m(2) by (simp_all add: send_side_def sends_counted_def)
  then show "served (ur_metrics ((disarm i s)\<lparr> ur_metrics := m \<rparr>)) = wm_replies_sent (ur_metrics ((disarm i s)\<lparr> ur_metrics := m \<rparr>)) +
      wm_send_failures (ur_metrics ((disarm i s)\<lparr> ur_metrics := m \<rparr>)) + of_nat (length (ur_in_flight ((disarm i s)\<lparr> ur_metrics := m \<rparr>)))"
    "sends_counted (ur_metrics ((disarm i s)\<lparr> ur_metrics := m \<rparr>))"
    using ok m(1) by (simp_all add: ring_ok_def disarm_def)
qed (simp_all add: disarm_def)

lemma recv_served_ok:
  assumes ok: "ring_ok batch s" and d: "deliverable (RecvGot i g # cs) s" and r: "room entries (RecvGot i g # cs) s"
    and serve: "serve_datagram le rs store now clock payload (ur_metrics s) = Some (reply, m)"
    and s': "s' = arm_recv entries i ((queue_reply entries (a, reply) ((disarm i s)\<lparr> ur_metrics := m \<rparr>))\<lparr> ur_processed := n \<rparr>)"
  shows "ring_ok batch s' \<and> deliverable cs s' \<and> room entries cs s'"
proof -
  let ?u = "(disarm i s)\<lparr> ur_metrics := m \<rparr>"
  have q: "ur_queued ?u < entries" using r by (simp add: room_def disarm_def)
  have base: "ur_free_send ?u = ur_free_send s" "ur_in_flight ?u = ur_in_flight s" "ur_metrics ?u = m" "ur_queued ?u = ur_queued s"
    "ur_armed ?u = ur_armed (disarm i s)"
    by (simp_all add: disarm_def)
  note c = serve_datagram_counts [OF serve] and k = queue_reply_slots [OF q, of "(a, reply)", unfolded base]
  have m: "sends_counted m" "wm_replies_sent m = wm_replies_sent (ur_metrics s)" "wm_send_failures m = wm_send_failures (ur_metrics s)"
    "served (ur_metrics s) = wm_replies_sent (ur_metrics s) + wm_send_failures (ur_metrics s) + of_nat (length (ur_in_flight s))"
    using c(3) ok by (auto simp: send_side_def sends_counted_def ring_ok_def)
  show ?thesis unfolding s'
  proof (rule recv_done_ok [OF ok d r])
    show "served (ur_metrics ((queue_reply entries (a, reply) ?u)\<lparr> ur_processed := n \<rparr>)) =
        wm_replies_sent (ur_metrics ((queue_reply entries (a, reply) ?u)\<lparr> ur_processed := n \<rparr>)) +
        wm_send_failures (ur_metrics ((queue_reply entries (a, reply) ?u)\<lparr> ur_processed := n \<rparr>)) +
        of_nat (length (ur_in_flight ((queue_reply entries (a, reply) ?u)\<lparr> ur_processed := n \<rparr>)))"
      using k(2,3,5) m(2,3,4) c(1) by (simp add: algebra_simps)
  qed (use k m(1) in \<open>simp_all\<close>)
qed

lemma on_completion_ok:
  assumes ok: "ring_ok batch s" and d: "deliverable (c # cs) s" and r: "room entries (c # cs) s"
    and s': "on_completion le entries rs store now clock c s = Some s'"
  shows "ring_ok batch s' \<and> deliverable cs s' \<and> room entries cs s'"
proof (cases c)
  case (SendDone i e)
  show ?thesis using send_done_ok [OF ok d [unfolded SendDone] r [unfolded SendDone] s' [unfolded SendDone]] .
next
  case (RecvFail i retry)
  let ?m = "if retry then ur_metrics s else (ur_metrics s)\<lparr> wm_recv_errors := wm_recv_errors (ur_metrics s) + 1 \<rparr>"
  have "s' = arm_recv entries i ((disarm i s)\<lparr> ur_metrics := ?m \<rparr>)"
    using s' unfolding on_completion_def RecvFail Let_def by (cases retry) (simp_all add: disarm_def)
  moreover have "served ?m = served (ur_metrics s)" "send_side ?m = send_side (ur_metrics s)"
    by (simp_all add: served_def send_side_def)
  ultimately show ?thesis using recv_quiet_ok [OF ok d r, of i ?m] RecvFail by (simp only: recv_index.simps send_index.simps)
next
  case (RecvGot i g)
  consider (short) "s' = arm_recv entries i ((disarm i s)\<lparr> ur_metrics := (ur_metrics s)\<lparr> wm_short_datagrams := wm_short_datagrams (ur_metrics s) + 1 \<rparr> \<rparr>)"
    | (none) "s' = arm_recv entries i ((disarm i s)\<lparr> ur_metrics := ur_metrics s \<rparr>)"
    | (served) rs' reply m where "serve_datagram le rs' store now clock (snd (into_slot g)) (ur_metrics s) = Some (reply, m)"
      "s' = arm_recv entries i ((queue_reply entries (fst (into_slot g), reply) ((disarm i s)\<lparr> ur_metrics := m \<rparr>))\<lparr> ur_processed := ur_processed (disarm i s) + 1 \<rparr>)"
  proof -
    note e = s' [unfolded on_completion_def RecvGot Let_def completion.case]
    show ?thesis
    proof (cases "length (snd (into_slot g)) = kWireMsgSize")
      case False
      then show ?thesis using e by (intro that(1)) simp
    next
      case True
      show ?thesis
      proof (cases rs)
        case None
        then show ?thesis using e True by (intro that(2)) (simp add: disarm_def)
      next
        case (Some rs')
        then obtain reply m where "serve_datagram le rs' store now clock (snd (into_slot g)) (ur_metrics s) = Some (reply, m)"
          using e True by (cases "serve_datagram le rs' store now clock (snd (into_slot g)) (ur_metrics s)") auto
        then show ?thesis using e True Some by (intro that(3)) auto
      qed
    qed
  qed
  then show ?thesis
  proof cases
    case short
    show ?thesis unfolding short by (rule recv_quiet_ok [OF ok d r]) (simp_all add: RecvGot served_def send_side_def)
  next
    case none
    show ?thesis unfolding none by (rule recv_quiet_ok [OF ok d r]) (simp_all add: RecvGot)
  next
    case (served rs' reply m)
    show ?thesis using recv_served_ok [OF ok d [unfolded RecvGot] r [unfolded RecvGot] served(1) served(2)] .
  qed
qed

lemma on_completions_ok:
  "on_completions le entries rs store now cs s = Some s' \<Longrightarrow> ring_ok batch s \<Longrightarrow> deliverable (map snd cs) s \<Longrightarrow> room entries (map snd cs) s \<Longrightarrow>
     ring_ok batch s' \<and> ur_queued s' \<le> entries"
proof (induction cs arbitrary: s)
  case Nil
  then show ?case by (simp add: room_def)
next
  case (Cons x cs)
  obtain clock c where x: "x = (clock, c)" by (cases x)
  obtain t where t: "on_completion le entries rs store now clock c s = Some t" "on_completions le entries rs store now cs t = Some s'"
    using Cons.prems(1) x by (auto split: option.splits)
  have "deliverable (c # map snd cs) s" "room entries (c # map snd cs) s" using Cons.prems(3,4) x by simp_all
  from on_completion_ok [OF Cons.prems(2) this t(1)] Cons.IH [OF t(2)] show ?case by blast
qed

lemma deliverable_count:
  assumes "deliverable cs s" "ring_ok batch s"
  shows "length (concat (map recv_index cs)) \<le> batch"
proof -
  let ?r = "concat (map recv_index cs)"
  have d: "distinct ?r" and "set ?r \<subseteq> {..<batch}" using assms unfolding deliverable_def ring_ok_def by blast+
  then have "card (set ?r) \<le> batch" using card_mono [of "{..<batch}" "set ?r"] by simp
  then show ?thesis using distinct_card [OF d] by simp
qed

lemma uring_round_ok:
  assumes "ring_ok batch s" "deliverable (map snd cs) s" "2 * batch \<le> entries" "uring_round le entries batch rs store now cs s = Some s'"
  shows "ring_ok batch s' \<and> ur_queued s' \<le> entries"
proof -
  let ?s = "s\<lparr> ur_queued := 0, ur_processed := 0 \<rparr>"
  obtain t where t: "on_completions le entries rs store now cs ?s = Some t" "s' = end_round batch t"
    using assms(4) unfolding uring_round_def map_option_eq_Some by blast
  have "ring_ok batch ?s" "deliverable (map snd cs) ?s" using assms(1,2) by (simp_all add: ring_ok_def deliverable_def)
  moreover have "room entries (map snd cs) ?s" using deliverable_count [OF assms(2,1)] assms(3) by (simp add: room_def)
  ultimately have "ring_ok batch t \<and> ur_queued t \<le> entries" using on_completions_ok [OF t(1)] by blast
  then show ?thesis by (simp add: t(2) end_round_def Let_def ring_ok_def served_def sends_counted_def)
qed

lemma init_ring_arms:
  "ur_queued s + length is \<le> entries \<Longrightarrow>
     foldl (\<lambda>s i. arm_recv entries i s) s is = s\<lparr> ur_queued := ur_queued s + length is, ur_armed := ur_armed s @ is \<rparr>"
  by (induction "is" arbitrary: s) (simp_all add: arm_recv_ok)

lemma init_ring_ok:
  assumes "batch \<le> entries"
  shows "ring_ok batch (init_ring entries batch (zero_metrics h))"
  using assms by (auto simp: init_ring_def init_ring_arms ring_ok_def zero_metrics_def served_def sends_counted_def)

inductive uring_reach :: "bool \<Rightarrow> nat \<Rightarrow> nat \<Rightarrow> SubscriberStore \<Rightarrow> uring \<Rightarrow> bool" for le entries batch store where
  start: "uring_reach le entries batch store (init_ring entries batch (zero_metrics h))"
| round: "uring_reach le entries batch store s \<Longrightarrow> deliverable (map snd cs) s \<Longrightarrow>
    uring_round le entries batch rs store now cs s = Some s' \<Longrightarrow> uring_reach le entries batch store s'"

lemma uring_reach_ok:
  assumes "uring_reach le entries batch store s" "2 * batch \<le> entries"
  shows "ring_ok batch s \<and> ur_queued s \<le> entries"
  using assms(1)
proof (induction rule: uring_reach.induct)
  case (start h)
  have "ring_ok batch (init_ring entries batch (zero_metrics h))" using init_ring_ok assms(2) by simp
  moreover have "ur_queued (init_ring entries batch (zero_metrics h)) \<le> entries" using assms(2) by (simp add: init_ring_def init_ring_arms)
  ultimately show ?case by simp
next
  case (round s cs rs now s')
  then show ?case using uring_round_ok assms(2) by blast
qed

text \<open>
  C10: the io_uring worker keeps its slots and its counters straight. With a queue of at least two entries per receive slot (the code takes four),
  in every round, whatever completes: the submission queue is never overrun and every receive slot is armed
  again; each send slot is free or carries exactly one reply in flight; and every request or wrong magic is a reply in flight,
  a reply sent, or a failure with its cause.
\<close>

theorem uring_slots_and_accounting:
  assumes "uring_reach le entries batch store s" "2 * batch \<le> entries"
  shows "ur_queued s \<le> entries \<and> set (ur_armed s) = {..<batch} \<and> distinct (ur_armed s) \<and>
    distinct (ur_free_send s @ map fst (ur_in_flight s)) \<and> set (ur_free_send s) \<union> fst ` set (ur_in_flight s) = {..<2 * batch} \<and>
    wm_requests (ur_metrics s) + wm_bad_magic (ur_metrics s) =
      wm_replies_sent (ur_metrics s) + wm_send_failures (ur_metrics s) + of_nat (length (ur_in_flight s)) \<and>
    wm_send_failures (ur_metrics s) = wm_send_wouldblock (ur_metrics s) + wm_send_nobufs (ur_metrics s) + wm_send_errors (ur_metrics s)"
  using uring_reach_ok [OF assms] unfolding ring_ok_def served_def sends_counted_def set_append set_map by (elim conjE) (intro conjI)

text \<open>One round over a ring of two: a datagram that is too short and a failed receive.\<close>

definition sample_completions :: "((u64 \<times> int) \<times> completion) list" where
  "sample_completions = [((0, 0), RecvGot 1 ((1, 2), [3])), ((0, 0), RecvFail 0 False)]"

theorem uring_slots_and_accounting_witness:
  "\<exists>s. uring_reach True 8 2 no_store s \<and> ur_armed s = [1, 0] \<and> wm_short_datagrams (ur_metrics s) = 1 \<and>
     distinct (ur_free_send s @ map fst (ur_in_flight s))"
proof -
  fix h
  let ?s = "init_ring 8 2 (zero_metrics h)"
  have i: "?s = \<lparr> ur_metrics = zero_metrics h, ur_free_send = [3, 2, 1, 0], ur_in_flight = [], ur_armed = [0, 1], ur_queued = 2, ur_processed = 0 \<rparr>"
    by (simp add: init_ring_def arm_recv_def upt_rec)
  obtain t where t: "uring_round True 8 2 None no_store 0 sample_completions ?s = Some t" "ur_armed t = [1, 0]" "wm_short_datagrams (ur_metrics t) = 1"
    unfolding i by (simp add: uring_round_def sample_completions_def on_completion_def Let_def into_slot_def kWireMsgSize_def kSlotSize_def
        disarm_def arm_recv_def end_round_def zero_metrics_def)
  have "deliverable (map snd sample_completions) ?s" unfolding i by (auto simp: deliverable_def sample_completions_def)
  then have r: "uring_reach True 8 2 no_store t" using uring_reach.round [OF uring_reach.start _ t(1)] by blast
  show ?thesis using uring_slots_and_accounting [OF r] r t(2,3) by (intro exI [of _ t]) simp
qed

end
