(* ===== verification/Strtoull.thy ===== *)
theory Strtoull
  imports Yaml_Values
begin

text \<open>
  \<^verbatim>\<open>std::strtoull(s, &end, 10)\<close>: white space, a sign, decimal digits; a negative number wraps around, and a number that
  does not fit gives the largest value. \<^const>\<open>None\<close> when no digit is read, else the value and the text left.
\<close>

definition strtoull10 :: "string \<Rightarrow> (u64 \<times> string) option" where
  "strtoull10 s =
     (let (neg, s) = take_sign (dropWhile c_isspace s); ds = takeWhile is_digit s; n = digits_val ds in
      if ds = [] then None
      else Some (if n \<ge> 2 ^ 64 then - 1 else if neg then - of_nat n else of_nat n, dropWhile is_digit s))"

text \<open>The value alone, 0 when there is none.\<close>

definition strtoull_or_zero :: "string \<Rightarrow> u64" where
  "strtoull_or_zero s = (case strtoull10 (c_str s) of None \<Rightarrow> 0 | Some (v, _) \<Rightarrow> v)"

lemma digits_plain:
  assumes "c \<in> set (dec_of_nat n)"
  shows "\<not> c_isspace c" "c \<noteq> CHR ''-''" "c \<noteq> CHR ''+''" "c \<noteq> CHR 0x00" "c \<noteq> CHR '',''" "c \<noteq> CHR 0x0A" "c \<noteq> CHR 0x0D" "c \<noteq> CHR '' ''" "c \<noteq> CHR ''#''"
  using dec_of_nat_digits [OF assms] by (auto simp: is_digit_def c_isspace_def)

lemma dec_no_space: "dropWhile c_isspace (dec_of_nat n) = dec_of_nat n" "take_sign (dec_of_nat n) = (False, dec_of_nat n)"
proof -
  obtain d ds where d: "dec_of_nat n = d # ds" by (cases "dec_of_nat n") auto
  then have "d \<in> set (dec_of_nat n)" by simp
  then show "dropWhile c_isspace (dec_of_nat n) = dec_of_nat n" "take_sign (dec_of_nat n) = (False, dec_of_nat n)"
    using digits_plain [of d n] by (simp_all add: d take_sign_def)
qed

lemma dec_all_digits: "takeWhile is_digit (dec_of_nat n) = dec_of_nat n" "dropWhile is_digit (dec_of_nat n) = []"
  using dec_of_nat_digits [of _ n] by (auto simp: takeWhile_eq_all_conv dropWhile_eq_Nil_conv)

lemma strtoull_dec: "n < 2 ^ 64 \<Longrightarrow> strtoull10 (dec_of_nat n) = Some (of_nat n, [])"
  by (simp add: strtoull10_def dec_no_space dec_all_digits)

lemma strtoull_minus_dec: "n < 2 ^ 64 \<Longrightarrow> strtoull10 (CHR ''-'' # dec_of_nat n) = Some (- of_nat n, [])"
  by (simp add: strtoull10_def take_sign_def c_isspace_def dec_all_digits)

lemma c_str_dec: "c_str (dec_of_nat n) = dec_of_nat n"
  using digits_plain(4) [of _ n] unfolding c_str_def takeWhile_eq_all_conv by blast

lemma strtoull_or_zero_dec [simp]: "strtoull_or_zero (dec_of_nat (unat (w :: 'a :: len word))) = ucast w" if "LENGTH('a) \<le> 64"
proof -
  have "unat w < 2 ^ LENGTH('a)" by (rule unsigned_less)
  also have "\<dots> \<le> 2 ^ 64" using that by (intro power_increasing) simp_all
  finally show ?thesis by (simp add: strtoull_or_zero_def c_str_dec strtoull_dec)
qed

end
