(* ===== verification/Golden.thy ===== *)
theory Golden
  imports Strtoull Wire
begin

text \<open>
  The golden decision corpus (\<^verbatim>\<open>src/src/golden.cpp\<close>): the rows written by the generator, the reader that replays them, and the
  comparison of a decision with the expected one. The contents of the file are an argument.
\<close>

section \<open>Rows\<close>

definition golden_header :: string where
  "golden_header =
     ''imsi,imei,plmn,tac,rat,dnn,req_5qi,req_flags,local_minute,bytes_used,'' @
     ''verdict,reason,qos_5qi,arp,ambr_ul_kbps,ambr_dl_kbps,rating_group,'' @
     ''quota_bytes,quota_validity_s,rule_id,dec_flags,redirect_id''"

definition kFieldCount :: nat where "kFieldCount = 22"

definition golden_fields :: "PolicyRequest \<Rightarrow> PolicyDecision \<Rightarrow> nat list" where
  "golden_fields r d =
     [unat (rq_imsi r), unat (rq_imei r), unat (rq_plmn r), unat (rq_tac r), unat (rq_rat_type r), unat (rq_dnn_id r),
      unat (rq_requested_5qi r), unat (rq_flags r), unat (rq_local_minute r), unat (rq_bytes_used_period r),
      unat (d_verdict d), unat (d_reason d), unat (d_qos_5qi d), unat (d_arp d), unat (d_ambr_ul_kbps d), unat (d_ambr_dl_kbps d),
      unat (d_rating_group d), unat (d_quota_bytes d), unat (d_quota_validity_s d), unat (d_rule_id d), unat (d_flags d),
      unat (d_redirect_id d)]"

fun commas :: "string list \<Rightarrow> string" where
  "commas [] = []"
| "commas [s] = s"
| "commas (s # t # ss) = s @ CHR '','' # commas (t # ss)"

text \<open>\<^verbatim>\<open>snprintf\<close> into 512 bytes.\<close>

definition golden_row :: "PolicyRequest \<Rightarrow> PolicyDecision \<Rightarrow> string" where
  "golden_row r d = take 511 (commas (map dec_of_nat (golden_fields r d)))"

section \<open>Loading\<close>

record GoldenCase =
  gc_request :: PolicyRequest
  gc_expected :: PolicyDecision
  gc_line :: nat

record GoldenLoadResult =
  gl_cases :: "GoldenCase list"
  gl_error :: string

definition golden_request :: "(nat \<Rightarrow> u64) \<Rightarrow> PolicyRequest" where
  "golden_request f = zero_request\<lparr>
     rq_magic_version := kMagicVersion, rq_imsi := f 0, rq_imei := f 1, rq_plmn := ucast (f 2), rq_tac := ucast (f 3),
     rq_rat_type := ucast (f 4), rq_dnn_id := ucast (f 5), rq_requested_5qi := ucast (f 6), rq_flags := ucast (f 7),
     rq_local_minute := ucast (f 8), rq_bytes_used_period := f 9 \<rparr>"

definition golden_expected :: "(nat \<Rightarrow> u64) \<Rightarrow> PolicyDecision" where
  "golden_expected f = zero_decision\<lparr>
     d_magic_version := kMagicVersion, d_verdict := ucast (f 10), d_reason := ucast (f 11), d_qos_5qi := ucast (f 12),
     d_arp := ucast (f 13), d_ambr_ul_kbps := ucast (f 14), d_ambr_dl_kbps := ucast (f 15), d_rating_group := ucast (f 16),
     d_quota_bytes := f 17, d_quota_validity_s := ucast (f 18), d_rule_id := ucast (f 19), d_flags := ucast (f 20),
     d_redirect_id := ucast (f 21) \<rparr>"

definition golden_case :: "nat \<Rightarrow> string list \<Rightarrow> GoldenCase" where
  "golden_case line_no fs =
     (let f = (\<lambda>i. strtoull_or_zero (fs ! i))
      in \<lparr> gc_request = golden_request f, gc_expected = golden_expected f, gc_line = line_no \<rparr>)"

text \<open>The loop that takes fields up to the last one; text after its comma is left.\<close>

definition golden_split :: "string \<Rightarrow> string list" where
  "golden_split line = take kFieldCount (split_all (CHR '','') line)"

definition strip_line_end :: "string \<Rightarrow> string" where
  "strip_line_end line = rev (dropWhile (\<lambda>c. c = CHR 0x0D \<or> c = CHR '' '') (rev line))"

fun golden_lines :: "string \<Rightarrow> nat \<Rightarrow> bool \<Rightarrow> string list \<Rightarrow> GoldenCase list \<Rightarrow> GoldenLoadResult" where
  "golden_lines path line_no header_checked [] cases =
     \<lparr> gl_cases = cases, gl_error = (if cases = [] then path @ '': no cases'' else []) \<rparr>"
| "golden_lines path line_no header_checked (raw # ls) cases =
     (let line_no = line_no + 1; line = strip_line_end raw in
      if line = [] \<or> hd line = CHR ''#'' then golden_lines path line_no header_checked ls cases
      else if \<not> header_checked then
        (if line \<noteq> golden_header then
           \<lparr> gl_cases = cases,
             gl_error = path @ '':1: header does not match the current golden format.'' @ [CHR 0x0A] @ ''  expected: '' @ golden_header @
               [CHR 0x0A] @ ''  found:    '' @ line @ [CHR 0x0A] @ ''Regenerate with: policy-gen-golden --out '' @ path \<rparr>
         else golden_lines path line_no True ls cases)
      else
        (let fs = golden_split line in
         if length fs \<noteq> kFieldCount then
           \<lparr> gl_cases = cases,
             gl_error = path @ '':'' @ dec_of_nat line_no @ '': expected '' @ dec_of_nat kFieldCount @ '' fields, found '' @ dec_of_nat (length fs) \<rparr>
         else golden_lines path line_no header_checked ls (cases @ [golden_case line_no fs])))"

definition load_golden :: "string \<Rightarrow> string option \<Rightarrow> GoldenLoadResult" where
  "load_golden path file =
     (case file of
        None \<Rightarrow> \<lparr> gl_cases = [], gl_error = ''cannot open golden file: '' @ path \<rparr>
      | Some contents \<Rightarrow> golden_lines path 0 False (getlines contents) [])"

section \<open>Comparison\<close>

definition add_diff :: "string \<Rightarrow> string \<Rightarrow> string" where
  "add_diff os part = os @ (if os = [] then [] else '', '') @ part"

definition cmp_field :: "string \<Rightarrow> nat \<Rightarrow> nat \<Rightarrow> string \<Rightarrow> string" where
  "cmp_field name expected actual os =
     (if expected \<noteq> actual then add_diff os (name @ '': expected '' @ dec_of_nat expected @ '' got '' @ dec_of_nat actual) else os)"

definition diff_decisions :: "PolicyDecision \<Rightarrow> PolicyDecision \<Rightarrow> string" where
  "diff_decisions e a =
     (let os = (if d_verdict e \<noteq> d_verdict a
                then ''verdict: expected '' @ verdict_name (d_verdict e) @ '' got '' @ verdict_name (d_verdict a) else []);
          os = (if d_reason e \<noteq> d_reason a
                then add_diff os (''reason: expected '' @ reason_name (d_reason e) @ '' got '' @ reason_name (d_reason a)) else os);
          os = cmp_field ''rule_id'' (unat (d_rule_id e)) (unat (d_rule_id a)) os;
          os = cmp_field ''qos_5qi'' (unat (d_qos_5qi e)) (unat (d_qos_5qi a)) os;
          os = cmp_field ''arp'' (unat (d_arp e)) (unat (d_arp a)) os;
          os = cmp_field ''ambr_ul_kbps'' (unat (d_ambr_ul_kbps e)) (unat (d_ambr_ul_kbps a)) os;
          os = cmp_field ''ambr_dl_kbps'' (unat (d_ambr_dl_kbps e)) (unat (d_ambr_dl_kbps a)) os;
          os = cmp_field ''rating_group'' (unat (d_rating_group e)) (unat (d_rating_group a)) os;
          os = cmp_field ''quota_bytes'' (unat (d_quota_bytes e)) (unat (d_quota_bytes a)) os;
          os = cmp_field ''quota_validity_s'' (unat (d_quota_validity_s e)) (unat (d_quota_validity_s a)) os;
          os = cmp_field ''flags'' (unat (d_flags e)) (unat (d_flags a)) os
      in cmp_field ''redirect_id'' (unat (d_redirect_id e)) (unat (d_redirect_id a)) os)"

section \<open>Round trip\<close>

lemma split_commas:
  "ss \<noteq> [] \<Longrightarrow> \<forall>s \<in> set ss. CHR '','' \<notin> set s \<Longrightarrow> split_all (CHR '','') (commas ss) = ss"
  by (induction ss rule: commas.induct) (auto simp: split_all_absent split_all_append)

lemma set_commas: "set (commas ss) \<subseteq> insert (CHR '','') (\<Union> (set ` set ss))"
  by (induction ss rule: commas.induct) auto

lemma length_commas: "\<forall>s \<in> set ss. length s \<le> k \<Longrightarrow> length (commas ss) \<le> length ss * (k + 1)"
  by (induction ss rule: commas.induct) auto

definition row_strings :: "PolicyRequest \<Rightarrow> PolicyDecision \<Rightarrow> string list" where
  "row_strings r d = map dec_of_nat (golden_fields r d)"

lemma dec_digits_20: "n < 2 ^ 64 \<Longrightarrow> length (dec_of_nat n) \<le> 20"
proof -
  have "n < 10 ^ Suc k \<Longrightarrow> length (dec_of_nat n) \<le> Suc k" for n k
  proof (induction k arbitrary: n)
    case 0
    then show ?case by (simp add: dec_of_nat.simps)
  next
    case (Suc k)
    then have "n div 10 < 10 ^ Suc k" by (simp add: less_mult_imp_div_less mult.commute)
    then show ?case using Suc.IH [of "n div 10"] by (subst dec_of_nat.simps) simp
  qed
  from this [of n 19] show "n < 2 ^ 64 \<Longrightarrow> length (dec_of_nat n) \<le> 20" by simp
qed

lemma unat_64: "LENGTH('a) \<le> 64 \<Longrightarrow> unat (w :: 'a :: len word) < 18446744073709551616"
  using power_increasing [of "LENGTH('a)" 64 "2 :: nat"] by (intro order.strict_trans2 [OF unat_less_power]) simp

lemma ucast_back: "LENGTH('a) \<le> 64 \<Longrightarrow> ucast (ucast (w :: 'a :: len word) :: u64) = w"
  by (intro bit_word_eqI) (simp add: bit_ucast_iff bit_simps)

lemma golden_row_commas: "golden_row r d = commas (row_strings r d)"
proof -
  have "\<forall>n \<in> set (golden_fields r d). n < 2 ^ 64" by (simp add: golden_fields_def unat_64)
  then have "\<forall>s \<in> set (row_strings r d). length s \<le> 20" unfolding row_strings_def using dec_digits_20 by auto
  then have "length (commas (row_strings r d)) \<le> 22 * 21"
    using length_commas [of "row_strings r d" 20] by (simp add: row_strings_def golden_fields_def)
  then show ?thesis by (simp add: golden_row_def row_strings_def)
qed

lemma row_strings_plain:
  assumes "s \<in> set (row_strings r d)" "c \<in> set s"
  shows "c \<noteq> CHR '',''" "c \<noteq> CHR 0x0A" "c \<noteq> CHR 0x0D" "c \<noteq> CHR '' ''" "c \<noteq> CHR ''#''"
proof -
  obtain n where "c \<in> set (dec_of_nat n)" using assms by (auto simp: row_strings_def)
  from digits_plain [OF this] show "c \<noteq> CHR '',''" "c \<noteq> CHR 0x0A" "c \<noteq> CHR 0x0D" "c \<noteq> CHR '' ''" "c \<noteq> CHR ''#''" by blast+
qed

lemma row_plain:
  assumes "c \<in> set (golden_row r d)"
  shows "c \<noteq> CHR 0x0A \<and> c \<noteq> CHR 0x0D \<and> c \<noteq> CHR '' '' \<and> c \<noteq> CHR ''#''"
proof (cases "c = CHR '',''")
  case False
  then obtain s where "s \<in> set (row_strings r d)" "c \<in> set s"
    using assms set_commas [of "row_strings r d"] unfolding golden_row_commas by blast
  then show ?thesis using row_strings_plain by blast
qed simp

lemma golden_split_row: "golden_split (golden_row r d) = row_strings r d"
proof -
  have "row_strings r d \<noteq> []" "length (row_strings r d) = 22" by (simp_all add: row_strings_def golden_fields_def)
  moreover have "\<forall>s \<in> set (row_strings r d). CHR '','' \<notin> set s" using row_strings_plain(1) by blast
  ultimately show ?thesis by (simp add: golden_split_def golden_row_commas split_commas kFieldCount_def)
qed

lemma strip_plain: "s = [] \<or> last s \<noteq> CHR 0x0D \<and> last s \<noteq> CHR '' '' \<Longrightarrow> strip_line_end s = s"
  by (cases s rule: rev_cases) (simp_all add: strip_line_end_def)

lemma golden_row_line: "golden_row r d \<noteq> []" "hd (golden_row r d) \<noteq> CHR ''#''" "strip_line_end (golden_row r d) = golden_row r d"
proof -
  show ne: "golden_row r d \<noteq> []" using golden_split_row [of r d] by (auto simp: golden_split_def row_strings_def golden_fields_def kFieldCount_def)
  show "hd (golden_row r d) \<noteq> CHR ''#''" using row_plain hd_in_set [OF ne] by blast
  show "strip_line_end (golden_row r d) = golden_row r d" using row_plain last_in_set [OF ne] by (intro strip_plain) blast
qed

text \<open>What a row keeps of a request and a decision.\<close>

definition pinned_request :: "PolicyRequest \<Rightarrow> PolicyRequest" where
  "pinned_request r = r\<lparr> rq_magic_version := kMagicVersion, rq_seq := 0, rq_client_ts_ns := 0, rq_req_ambr_ul_kbps := 0,
     rq_req_ambr_dl_kbps := 0, rq_reserved := 0 \<rparr>"

definition pinned_decision :: "PolicyDecision \<Rightarrow> PolicyDecision" where
  "pinned_decision d = d\<lparr> d_magic_version := kMagicVersion, d_seq := 0, d_client_ts_ns := 0, d_policy_version := 0, d_reserved := 0,
     d_server_ts_ns := 0 \<rparr>"

lemma golden_case_row:
  "golden_case n (row_strings r d) = \<lparr> gc_request = pinned_request r, gc_expected = pinned_decision d, gc_line = n \<rparr>"
  by (cases r; cases d)
    (simp add: golden_case_def Let_def row_strings_def golden_fields_def golden_request_def golden_expected_def pinned_request_def
      pinned_decision_def zero_request_def zero_decision_def ucast_back)

definition numbered :: "nat \<Rightarrow> (PolicyRequest \<times> PolicyDecision) list \<Rightarrow> GoldenCase list" where
  "numbered n cs = map (\<lambda>(k, r, d). \<lparr> gc_request = pinned_request r, gc_expected = pinned_decision d, gc_line = k \<rparr>) (enumerate n cs)"

lemma golden_lines_rows:
  "golden_lines path n True (map (\<lambda>(r, d). golden_row r d) cs) acc =
     \<lparr> gl_cases = acc @ numbered (Suc n) cs, gl_error = (if acc = [] \<and> cs = [] then path @ '': no cases'' else []) \<rparr>"
proof (induction cs arbitrary: n acc)
  case Nil
  then show ?case by (simp add: numbered_def)
next
  case (Cons c cs)
  obtain r d where c: "c = (r, d)" by (cases c)
  have "length (row_strings r d) = kFieldCount" by (simp add: row_strings_def golden_fields_def kFieldCount_def)
  then show ?case using golden_row_line [of r d] Cons
    by (simp add: c Let_def golden_split_row golden_case_row numbered_def)
qed

text \<open>A file with one line per string.\<close>

definition file_of :: "string list \<Rightarrow> string" where
  "file_of ls = concat (map (\<lambda>l. l @ [CHR 0x0A]) ls)"

lemma split_file: "\<forall>l \<in> set ls. CHR 0x0A \<notin> set l \<Longrightarrow> split_all (CHR 0x0A) (file_of ls) = ls @ [[]]"
  by (induction ls) (simp_all add: file_of_def split_all_append)

lemma getlines_file: "\<forall>l \<in> set ls. CHR 0x0A \<notin> set l \<Longrightarrow> getlines (file_of ls) = ls"
  by (simp add: getlines_def split_file)

lemma golden_header_line: "golden_header \<noteq> []" "hd golden_header \<noteq> CHR ''#''" "strip_line_end golden_header = golden_header"
  "CHR 0x0A \<notin> set golden_header"
proof -
  show ne: "golden_header \<noteq> []" "hd golden_header \<noteq> CHR ''#''" "CHR 0x0A \<notin> set golden_header" by (simp_all add: golden_header_def)
  have "last golden_header = CHR ''d''" by (simp add: golden_header_def)
  then show "strip_line_end golden_header = golden_header" by (intro strip_plain) simp
qed

lemma cmp_field_grows: "cmp_field name x y os = [] \<longleftrightarrow> os = [] \<and> x = y" if "name \<noteq> []"
  using that by (simp add: cmp_field_def add_diff_def)

text \<open>
  C38: the corpus reads back what the generator wrote, and the comparison is exact: a file made of the header and one row per pair of a
  request and a decision loads without an error, in order, each case with its line number and every field that a row pins;
  and two decisions compare without a difference iff they agree in the twelve fields a row pins.
\<close>

theorem golden_round_trip:
  assumes "cs \<noteq> []"
  shows "load_golden path (Some (file_of (golden_header # map (\<lambda>(r, d). golden_row r d) cs))) =
      \<lparr> gl_cases = numbered 2 cs, gl_error = [] \<rparr> \<and>
    (diff_decisions e a = [] \<longleftrightarrow>
       d_verdict e = d_verdict a \<and> d_reason e = d_reason a \<and> d_rule_id e = d_rule_id a \<and> d_qos_5qi e = d_qos_5qi a \<and> d_arp e = d_arp a \<and>
       d_ambr_ul_kbps e = d_ambr_ul_kbps a \<and> d_ambr_dl_kbps e = d_ambr_dl_kbps a \<and> d_rating_group e = d_rating_group a \<and>
       d_quota_bytes e = d_quota_bytes a \<and> d_quota_validity_s e = d_quota_validity_s a \<and> d_flags e = d_flags a \<and>
       d_redirect_id e = d_redirect_id a)"
proof
  have "\<forall>l \<in> set (golden_header # map (\<lambda>(r, d). golden_row r d) cs). CHR 0x0A \<notin> set l"
    using golden_header_line(4) row_plain by auto
  then show "load_golden path (Some (file_of (golden_header # map (\<lambda>(r, d). golden_row r d) cs))) =
      \<lparr> gl_cases = numbered 2 cs, gl_error = [] \<rparr>"
    using assms golden_header_line by (simp add: load_golden_def getlines_file golden_lines_rows Let_def numeral_2_eq_2)
next
  show "diff_decisions e a = [] \<longleftrightarrow>
       d_verdict e = d_verdict a \<and> d_reason e = d_reason a \<and> d_rule_id e = d_rule_id a \<and> d_qos_5qi e = d_qos_5qi a \<and> d_arp e = d_arp a \<and>
       d_ambr_ul_kbps e = d_ambr_ul_kbps a \<and> d_ambr_dl_kbps e = d_ambr_dl_kbps a \<and> d_rating_group e = d_rating_group a \<and>
       d_quota_bytes e = d_quota_bytes a \<and> d_quota_validity_s e = d_quota_validity_s a \<and> d_flags e = d_flags a \<and>
       d_redirect_id e = d_redirect_id a"
    by (simp add: diff_decisions_def Let_def cmp_field_grows add_diff_def word_unat_eq_iff)
qed

theorem golden_round_trip_witness:
  "load_golden ''g.csv'' (Some (file_of [golden_header, golden_row zero_request zero_decision])) =
     \<lparr> gl_cases = [\<lparr> gc_request = pinned_request zero_request, gc_expected = pinned_decision zero_decision, gc_line = 2 \<rparr>], gl_error = [] \<rparr>"
  using golden_round_trip [of "[(zero_request, zero_decision)]" "''g.csv''" zero_decision zero_decision] by (simp add: numbered_def)

end
