(* ===== verification/Config.thy ===== *)
theory Config
  imports Strtoull
begin

text \<open>
  The server configuration (\<^verbatim>\<open>src/src/config.cpp\<close>, \<^verbatim>\<open>src/include/policy/config.hpp\<close>): the command line and the validation. What the
  environment provides (hardware threads, which files exist, whether io_uring was compiled in) is an argument.
\<close>

section \<open>Data\<close>

datatype IngestBackend = kUdp | kIoUring

datatype LogLevel = kTrace | kDebug | kInfo | kWarn | kError | kOff

definition parse_ingest_backend :: "string \<Rightarrow> IngestBackend option" where
  "parse_ingest_backend s =
     (if s = ''udp'' \<or> s = ''socket'' then Some kUdp
      else if s = ''io_uring'' \<or> s = ''iouring'' \<or> s = ''uring'' then Some kIoUring else None)"

definition ingest_backend_name :: "IngestBackend \<Rightarrow> string" where
  "ingest_backend_name b = (if b = kIoUring then ''io_uring'' else ''udp'')"

definition parse_log_level :: "string \<Rightarrow> LogLevel option" where
  "parse_log_level s =
     (if s = ''trace'' then Some kTrace else if s = ''debug'' then Some kDebug else if s = ''info'' then Some kInfo
      else if s = ''warn'' \<or> s = ''warning'' then Some kWarn else if s = ''error'' then Some kError
      else if s = ''off'' \<or> s = ''none'' then Some kOff else None)"

record ServerConfig =
  cf_bind_address :: string
  cf_port :: u16
  cf_worker_threads :: u32
  cf_batch_size :: u32
  cf_so_rcvbuf :: u32
  cf_so_sndbuf :: u32
  cf_backend :: IngestBackend
  cf_http_port :: u16
  cf_http_bind_address :: string
  cf_busy_poll_us :: u32
  cf_pin_workers :: bool
  cf_first_core :: u32
  cf_control_plane_core :: "32 word"
  cf_rules_path :: string
  cf_subscribers_path :: string
  cf_expected_subscribers :: u64
  cf_admin_bind_address :: string
  cf_admin_port :: u16
  cf_reload_poll_ms :: u32
  cf_watch_rules_file :: bool
  cf_log_level :: LogLevel
  cf_run_seconds :: u32

definition default_config :: ServerConfig where
  "default_config =
     \<lparr> cf_bind_address = ''0.0.0.0'', cf_port = 9500, cf_worker_threads = 1, cf_batch_size = 32,
       cf_so_rcvbuf = 4194304, cf_so_sndbuf = 4194304, cf_backend = kUdp, cf_http_port = 0, cf_http_bind_address = ''0.0.0.0'',
       cf_busy_poll_us = 50, cf_pin_workers = True, cf_first_core = 0, cf_control_plane_core = - 1,
       cf_rules_path = ''config/rules.yaml'', cf_subscribers_path = ''config/subscribers.csv'', cf_expected_subscribers = 0,
       cf_admin_bind_address = ''127.0.0.1'', cf_admin_port = 9501, cf_reload_poll_ms = 500, cf_watch_rules_file = True,
       cf_log_level = kInfo, cf_run_seconds = 0 \<rparr>"

record ConfigParseResult =
  cp_config :: ServerConfig
  cp_ok :: bool
  cp_help_requested :: bool
  cp_error :: string

section \<open>The command line\<close>

definition parse_u64_arg :: "string \<Rightarrow> u64 option" where
  "parse_u64_arg s = (case strtoull10 s of Some (v, []) \<Rightarrow> Some v | _ \<Rightarrow> None)"

text \<open>What an option does: print and stop, set a switch, take a number (converted by a cast), a text, or a name from a list.\<close>

datatype opt_kind =
  Stop
| Switch "ServerConfig \<Rightarrow> ServerConfig"
| Number "u64 \<Rightarrow> ServerConfig \<Rightarrow> ServerConfig"
| Text "string \<Rightarrow> ServerConfig \<Rightarrow> ServerConfig"
| Named "string \<Rightarrow> ServerConfig \<Rightarrow> ServerConfig option" string string

definition option_kind :: "string \<Rightarrow> opt_kind option" where
  "option_kind a =
     (if a = ''-h'' \<or> a = ''--help'' then Some Stop
      else if a = ''--version'' then Some Stop
      else if a = ''--bind'' then Some (Text (\<lambda>v c. c\<lparr> cf_bind_address := v \<rparr>))
      else if a = ''--port'' then Some (Number (\<lambda>n c. c\<lparr> cf_port := ucast n \<rparr>))
      else if a = ''--workers'' then Some (Number (\<lambda>n c. c\<lparr> cf_worker_threads := ucast n \<rparr>))
      else if a = ''--batch'' then Some (Number (\<lambda>n c. c\<lparr> cf_batch_size := ucast n \<rparr>))
      else if a = ''--backend'' then
        Some (Named (\<lambda>v c. map_option (\<lambda>b. c\<lparr> cf_backend := b \<rparr>) (parse_ingest_backend v)) ''unknown backend '' '' (expected udp or io_uring)'')
      else if a = ''--busy-poll-us'' then Some (Number (\<lambda>n c. c\<lparr> cf_busy_poll_us := ucast n \<rparr>))
      else if a = ''--http-port'' then Some (Number (\<lambda>n c. c\<lparr> cf_http_port := ucast n \<rparr>))
      else if a = ''--http-bind'' then Some (Text (\<lambda>v c. c\<lparr> cf_http_bind_address := v \<rparr>))
      else if a = ''--rcvbuf'' then Some (Number (\<lambda>n c. c\<lparr> cf_so_rcvbuf := ucast n \<rparr>))
      else if a = ''--sndbuf'' then Some (Number (\<lambda>n c. c\<lparr> cf_so_sndbuf := ucast n \<rparr>))
      else if a = ''--pin'' then Some (Switch (\<lambda>c. c\<lparr> cf_pin_workers := True \<rparr>))
      else if a = ''--no-pin'' then Some (Switch (\<lambda>c. c\<lparr> cf_pin_workers := False \<rparr>))
      else if a = ''--first-core'' then Some (Number (\<lambda>n c. c\<lparr> cf_first_core := ucast n \<rparr>))
      else if a = ''--control-core'' then Some (Number (\<lambda>n c. c\<lparr> cf_control_plane_core := ucast n \<rparr>))
      else if a = ''--rules'' then Some (Text (\<lambda>v c. c\<lparr> cf_rules_path := v \<rparr>))
      else if a = ''--subscribers'' then Some (Text (\<lambda>v c. c\<lparr> cf_subscribers_path := v \<rparr>))
      else if a = ''--expect-subscribers'' then Some (Number (\<lambda>n c. c\<lparr> cf_expected_subscribers := n \<rparr>))
      else if a = ''--admin-bind'' then Some (Text (\<lambda>v c. c\<lparr> cf_admin_bind_address := v \<rparr>))
      else if a = ''--admin-port'' then Some (Number (\<lambda>n c. c\<lparr> cf_admin_port := ucast n \<rparr>))
      else if a = ''--no-watch'' then Some (Switch (\<lambda>c. c\<lparr> cf_watch_rules_file := False \<rparr>))
      else if a = ''--reload-poll-ms'' then Some (Number (\<lambda>n c. c\<lparr> cf_reload_poll_ms := ucast n \<rparr>))
      else if a = ''--log-level'' then
        Some (Named (\<lambda>v c. map_option (\<lambda>l. c\<lparr> cf_log_level := l \<rparr>) (parse_log_level v)) ''unknown log level '' [])
      else if a = ''--run-seconds'' then Some (Number (\<lambda>n c. c\<lparr> cf_run_seconds := ucast n \<rparr>))
      else None)"

definition cfg_fail :: "string \<Rightarrow> ConfigParseResult \<Rightarrow> ConfigParseResult" where
  "cfg_fail msg res = res\<lparr> cp_ok := False, cp_error := msg \<rparr>"

definition cfg_set :: "(ServerConfig \<Rightarrow> ServerConfig) \<Rightarrow> ConfigParseResult \<Rightarrow> ConfigParseResult" where
  "cfg_set f res = res\<lparr> cp_config := f (cp_config res) \<rparr>"

text \<open>
  The loop over the arguments after the program name; it stops at an error. A number that is missing or malformed leaves an error
  and stores a zero.
\<close>

fun parse_args :: "string list \<Rightarrow> ConfigParseResult \<Rightarrow> ConfigParseResult" where
  "parse_args [] res = res"
| "parse_args (a # rest) res =
     (case option_kind a of
        None \<Rightarrow> cfg_fail (''unknown option '' @ quoted a @ '' (try --help)'') res
      | Some Stop \<Rightarrow> res\<lparr> cp_help_requested := True \<rparr>
      | Some (Switch f) \<Rightarrow> parse_args rest (cfg_set f res)
      | Some k \<Rightarrow>
          (case rest of
             [] \<Rightarrow> (case k of Number f \<Rightarrow> cfg_set (f 0) | _ \<Rightarrow> id) (cfg_fail (''option '' @ a @ '' requires a value'') res)
           | v # rest' \<Rightarrow>
               (case k of
                  Number f \<Rightarrow>
                    (case parse_u64_arg v of
                       Some n \<Rightarrow> parse_args rest' (cfg_set (f n) res)
                     | None \<Rightarrow> cfg_set (f 0) (cfg_fail (''option '' @ a @ '' expects a number, got '' @ quoted v) res))
                | Text f \<Rightarrow> parse_args rest' (cfg_set (f v) res)
                | Named f before after \<Rightarrow>
                    (case f v (cp_config res) of
                       Some c \<Rightarrow> parse_args rest' (res\<lparr> cp_config := c \<rparr>)
                     | None \<Rightarrow> cfg_fail (before @ quoted v @ after) res)
                | _ \<Rightarrow> res)))"

definition parse_server_args :: "string list \<Rightarrow> ConfigParseResult" where
  "parse_server_args argv =
     parse_args (tl argv) \<lparr> cp_config = default_config, cp_ok = True, cp_help_requested = False, cp_error = [] \<rparr>"

section \<open>Validation\<close>

text \<open>The error, empty when the configuration is usable; the warning about oversubscription is output only.\<close>

definition validate_config :: "u32 \<Rightarrow> (string \<Rightarrow> bool) \<Rightarrow> bool \<Rightarrow> ServerConfig \<Rightarrow> string" where
  "validate_config hardware_concurrency file_exists have_io_uring c =
     (let hw = max 1 hardware_concurrency in
      if cf_port c = 0 then ''--port must be non-zero''
      else if cf_worker_threads c = 0 then ''--workers must be at least 1''
      else if cf_pin_workers c \<and> cf_first_core c + cf_worker_threads c > hw then
        ''worker cores '' @ dec_of_nat (unat (cf_first_core c)) @ ''..'' @ dec_of_nat (unat (cf_first_core c + cf_worker_threads c - 1)) @
        '' exceed the '' @ dec_of_nat (unat hw) @ '' available hardware threads''
      else if cf_batch_size c = 0 \<or> cf_batch_size c > 1024 then ''--batch must be 1..1024''
      else if \<not> file_exists (cf_rules_path c) then ''rules file not found: '' @ cf_rules_path c
      else if cf_subscribers_path c \<noteq> [] \<and> \<not> file_exists (cf_subscribers_path c) then ''subscriber file not found: '' @ cf_subscribers_path c
      else if cf_backend c = kIoUring \<and> \<not> have_io_uring then ''this binary was built without the io_uring backend (needs Linux + liburing)''
      else [])"

section \<open>Round trip\<close>

definition log_level_name :: "LogLevel \<Rightarrow> string" where
  "log_level_name l =
     (case l of kTrace \<Rightarrow> ''trace'' | kDebug \<Rightarrow> ''debug'' | kInfo \<Rightarrow> ''info'' | kWarn \<Rightarrow> ''warn'' | kError \<Rightarrow> ''error'' | kOff \<Rightarrow> ''off'')"

text \<open>A command line for a configuration; the core of the control plane is printed as the signed number it is.\<close>

definition render_args :: "ServerConfig \<Rightarrow> string list" where
  "render_args c =
     [''--bind'', cf_bind_address c, ''--port'', dec_of_nat (unat (cf_port c)), ''--workers'', dec_of_nat (unat (cf_worker_threads c)),
      ''--batch'', dec_of_nat (unat (cf_batch_size c)), ''--backend'', ingest_backend_name (cf_backend c),
      ''--busy-poll-us'', dec_of_nat (unat (cf_busy_poll_us c)), ''--http-port'', dec_of_nat (unat (cf_http_port c)),
      ''--http-bind'', cf_http_bind_address c, ''--rcvbuf'', dec_of_nat (unat (cf_so_rcvbuf c)), ''--sndbuf'', dec_of_nat (unat (cf_so_sndbuf c)),
      (if cf_pin_workers c then ''--pin'' else ''--no-pin''), ''--first-core'', dec_of_nat (unat (cf_first_core c)),
      ''--control-core'', dec_of_int (sint (cf_control_plane_core c)), ''--rules'', cf_rules_path c, ''--subscribers'', cf_subscribers_path c,
      ''--expect-subscribers'', dec_of_nat (unat (cf_expected_subscribers c)), ''--admin-bind'', cf_admin_bind_address c,
      ''--admin-port'', dec_of_nat (unat (cf_admin_port c))] @
     (if cf_watch_rules_file c then [] else [''--no-watch'']) @
     [''--reload-poll-ms'', dec_of_nat (unat (cf_reload_poll_ms c)), ''--log-level'', log_level_name (cf_log_level c),
      ''--run-seconds'', dec_of_nat (unat (cf_run_seconds c))]"

lemma parse_u64_word:
  "LENGTH('a) \<le> 64 \<Longrightarrow> parse_u64_arg (dec_of_nat (unat (w :: 'a :: len word))) = Some (ucast w)"
  using power_increasing [of "LENGTH('a)" 64 "2 :: nat"] order.strict_trans2 [OF unat_less_power [of w], of "2 ^ 64"]
  by (simp add: parse_u64_arg_def strtoull_dec)

lemma ucast_down_up: "LENGTH('a) \<le> 64 \<Longrightarrow> ucast (ucast (w :: 'a :: len word) :: u64) = w"
  by (intro bit_word_eqI) (simp add: bit_ucast_iff bit_simps)

lemma ucast_of_int_u32: "(ucast (of_int k :: u64) :: u32) = of_int k"
  by (intro bit_word_eqI) (simp add: bit_ucast_iff bit_word_of_int_iff)

lemma parse_core: "\<exists>n. parse_u64_arg (dec_of_int (sint (w :: u32))) = Some n \<and> ucast n = w"
proof (cases "sint w < 0")
  case True
  have b: "nat (- sint w) < 2 ^ 64" using sint_greater_eq [of w] by simp
  have "(ucast (- of_nat (nat (- sint w)) :: u64) :: u32) = ucast (of_int (sint w) :: u64)" using True by simp
  also have "\<dots> = of_int (sint w)" by (rule ucast_of_int_u32)
  finally have "(ucast (- of_nat (nat (- sint w)) :: u64) :: u32) = w" by simp
  then show ?thesis using True strtoull_minus_dec [OF b] by (simp add: dec_of_int_def parse_u64_arg_def)
next
  case False
  have b: "nat (sint w) < 2 ^ 64" using sint_less [of w] by simp
  have "(of_nat (nat (sint w)) :: u64) = of_int (sint w)" using False by (simp only: of_nat_nat not_less)
  then have "(ucast (of_nat (nat (sint w)) :: u64) :: u32) = of_int (sint w)" using ucast_of_int_u32 [of "sint w"] by (simp only:)
  then show ?thesis using False strtoull_dec [OF b] by (simp add: dec_of_int_def parse_u64_arg_def)
qed

lemma backend_name_parses: "parse_ingest_backend (ingest_backend_name b) = Some b"
  by (cases b) (simp_all add: parse_ingest_backend_def ingest_backend_name_def)

lemma log_level_parses: "parse_log_level (log_level_name l) = Some l"
  by (cases l) (simp_all add: parse_log_level_def log_level_name_def)

lemma parse_number:
  assumes "option_kind a = Some (Number f)" "parse_u64_arg v = Some n"
  shows "parse_args (a # v # rest) res = parse_args rest (cfg_set (f n) res)"
  using assms by simp

lemma parse_text: "option_kind a = Some (Text f) \<Longrightarrow> parse_args (a # v # rest) res = parse_args rest (cfg_set (f v) res)"
  by simp

lemma parse_switch: "option_kind a = Some (Switch f) \<Longrightarrow> parse_args (a # rest) res = parse_args rest (cfg_set f res)"
  by simp

lemma option_kinds:
  "option_kind ''--bind'' = Some (Text (\<lambda>v c. c\<lparr> cf_bind_address := v \<rparr>))"
  "option_kind ''--port'' = Some (Number (\<lambda>n c. c\<lparr> cf_port := ucast n \<rparr>))"
  "option_kind ''--workers'' = Some (Number (\<lambda>n c. c\<lparr> cf_worker_threads := ucast n \<rparr>))"
  "option_kind ''--batch'' = Some (Number (\<lambda>n c. c\<lparr> cf_batch_size := ucast n \<rparr>))"
  "option_kind ''--backend'' =
     Some (Named (\<lambda>v c. map_option (\<lambda>b. c\<lparr> cf_backend := b \<rparr>) (parse_ingest_backend v)) ''unknown backend '' '' (expected udp or io_uring)'')"
  "option_kind ''--busy-poll-us'' = Some (Number (\<lambda>n c. c\<lparr> cf_busy_poll_us := ucast n \<rparr>))"
  "option_kind ''--http-port'' = Some (Number (\<lambda>n c. c\<lparr> cf_http_port := ucast n \<rparr>))"
  "option_kind ''--http-bind'' = Some (Text (\<lambda>v c. c\<lparr> cf_http_bind_address := v \<rparr>))"
  "option_kind ''--rcvbuf'' = Some (Number (\<lambda>n c. c\<lparr> cf_so_rcvbuf := ucast n \<rparr>))"
  "option_kind ''--sndbuf'' = Some (Number (\<lambda>n c. c\<lparr> cf_so_sndbuf := ucast n \<rparr>))"
  "option_kind ''--pin'' = Some (Switch (\<lambda>c. c\<lparr> cf_pin_workers := True \<rparr>))"
  "option_kind ''--no-pin'' = Some (Switch (\<lambda>c. c\<lparr> cf_pin_workers := False \<rparr>))"
  "option_kind ''--first-core'' = Some (Number (\<lambda>n c. c\<lparr> cf_first_core := ucast n \<rparr>))"
  "option_kind ''--control-core'' = Some (Number (\<lambda>n c. c\<lparr> cf_control_plane_core := ucast n \<rparr>))"
  "option_kind ''--rules'' = Some (Text (\<lambda>v c. c\<lparr> cf_rules_path := v \<rparr>))"
  "option_kind ''--subscribers'' = Some (Text (\<lambda>v c. c\<lparr> cf_subscribers_path := v \<rparr>))"
  "option_kind ''--expect-subscribers'' = Some (Number (\<lambda>n c. c\<lparr> cf_expected_subscribers := n \<rparr>))"
  "option_kind ''--admin-bind'' = Some (Text (\<lambda>v c. c\<lparr> cf_admin_bind_address := v \<rparr>))"
  "option_kind ''--admin-port'' = Some (Number (\<lambda>n c. c\<lparr> cf_admin_port := ucast n \<rparr>))"
  "option_kind ''--no-watch'' = Some (Switch (\<lambda>c. c\<lparr> cf_watch_rules_file := False \<rparr>))"
  "option_kind ''--reload-poll-ms'' = Some (Number (\<lambda>n c. c\<lparr> cf_reload_poll_ms := ucast n \<rparr>))"
  "option_kind ''--log-level'' = Some (Named (\<lambda>v c. map_option (\<lambda>l. c\<lparr> cf_log_level := l \<rparr>) (parse_log_level v)) ''unknown log level '' [])"
  "option_kind ''--run-seconds'' = Some (Number (\<lambda>n c. c\<lparr> cf_run_seconds := ucast n \<rparr>))"
  by (simp_all add: option_kind_def)

lemma parse_named:
  assumes "option_kind a = Some (Named f before after)" "f v (cp_config res) = Some c"
  shows "parse_args (a # v # rest) res = parse_args rest (cfg_set (\<lambda>_. c) res)"
  using assms by (simp add: cfg_set_def)

text \<open>
  C39: the command line and the configuration correspond: every configuration has a command line (its fields as options, numbers in decimal)
  from which the parser recovers exactly that configuration, without an error; and a configuration that passes the
  validation with pinned workers has a port, at least one worker, a batch of 1 to 1024 and, unless the core numbers wrap around, only cores the machine has.
\<close>

theorem config_round_trip:
  "parse_server_args (prog # render_args c) = \<lparr> cp_config = c, cp_ok = True, cp_help_requested = False, cp_error = [] \<rparr> \<and>
   (validate_config hw exists uring c = [] \<longrightarrow>
      cf_port c \<noteq> 0 \<and> cf_worker_threads c \<noteq> 0 \<and> 1 \<le> cf_batch_size c \<and> cf_batch_size c \<le> 1024 \<and> exists (cf_rules_path c) \<and>
      (cf_pin_workers c \<and> unat (cf_first_core c) + unat (cf_worker_threads c) < 2 ^ 32 \<longrightarrow>
         unat (cf_first_core c) + unat (cf_worker_threads c) \<le> unat (max 1 hw)))"
proof
  obtain n where n: "parse_u64_arg (dec_of_int (sint (cf_control_plane_core c))) = Some n" "ucast n = cf_control_plane_core c"
    using parse_core by blast
  note steps = parse_text [OF option_kinds(1)] parse_number [OF option_kinds(2)] parse_number [OF option_kinds(3)] parse_number [OF option_kinds(4)]
    parse_named [OF option_kinds(5)] parse_number [OF option_kinds(6)] parse_number [OF option_kinds(7)] parse_text [OF option_kinds(8)]
    parse_number [OF option_kinds(9)] parse_number [OF option_kinds(10)] parse_switch [OF option_kinds(11)] parse_switch [OF option_kinds(12)]
    parse_number [OF option_kinds(13)] parse_number [OF option_kinds(14)] parse_text [OF option_kinds(15)] parse_text [OF option_kinds(16)]
    parse_number [OF option_kinds(17)] parse_text [OF option_kinds(18)] parse_number [OF option_kinds(19)] parse_switch [OF option_kinds(20)]
    parse_number [OF option_kinds(21)] parse_named [OF option_kinds(22)] parse_number [OF option_kinds(23)]
  show "parse_server_args (prog # render_args c) = \<lparr> cp_config = c, cp_ok = True, cp_help_requested = False, cp_error = [] \<rparr>"
    by (cases "cf_pin_workers c"; cases "cf_watch_rules_file c")
      (simp_all add: parse_server_args_def render_args_def steps n parse_u64_word ucast_down_up backend_name_parses log_level_parses cfg_set_def
        default_config_def del: parse_args.simps(2))
next
  show "validate_config hw exists uring c = [] \<longrightarrow>
      cf_port c \<noteq> 0 \<and> cf_worker_threads c \<noteq> 0 \<and> 1 \<le> cf_batch_size c \<and> cf_batch_size c \<le> 1024 \<and> exists (cf_rules_path c) \<and>
      (cf_pin_workers c \<and> unat (cf_first_core c) + unat (cf_worker_threads c) < 2 ^ 32 \<longrightarrow>
         unat (cf_first_core c) + unat (cf_worker_threads c) \<le> unat (max 1 hw))"
    by (auto simp: validate_config_def Let_def not_less word_le_nat_alt unat_word_ariths word_less_nat_alt Suc_le_eq unat_gt_0 split: if_splits)
qed

theorem config_round_trip_witness:
  "parse_server_args (''policyd'' # render_args default_config) =
     \<lparr> cp_config = default_config, cp_ok = True, cp_help_requested = False, cp_error = [] \<rparr> \<and>
   validate_config 4 (\<lambda>_. True) False default_config = [] \<and> unat (cf_first_core default_config) + unat (cf_worker_threads default_config) \<le> unat (max 1 (4 :: u32))"
proof -
  have v: "validate_config 4 (\<lambda>_. True) False default_config = []" by code_simp
  have u: "cf_pin_workers default_config \<and> unat (cf_first_core default_config) + unat (cf_worker_threads default_config) < 2 ^ 32"
    by (simp add: default_config_def)
  show ?thesis using config_round_trip [of "''policyd''" default_config 4 "\<lambda>_. True" False] v u by blast
qed

end
