(* ===== verification/Spec2Isabelle.thy ===== *)
theory Spec2Isabelle
  imports Wire Engine Subscriber_Csv Yaml_Print Rule_Wf Http_Front Rcu Uring Golden Config
begin

text \<open>
  A verification library for the real-time policy authorization service: a daemon that answers 64-byte UDP requests (may
  this subscriber open this session, with which quality of service and quota?) from a compiled rule set and an in-memory
  subscriber table. The parts of the program, how they interact, and where they are modelled:

  \<^item> The wire format (\<^verbatim>\<open>include/policy/wire.hpp\<close>) in \<^verbatim>\<open>Wire\<close>: the two 64-byte messages as records, their object
    representation on hosts of either byte order, \<^verbatim>\<open>encode\<close> and \<^verbatim>\<open>decode\<close>. The lemmas give the round trips in both
    directions and exactly which datagrams are accepted.
  \<^item> Identities (\<^verbatim>\<open>include/policy/imsi.hpp\<close>) in \<^verbatim>\<open>Imsi\<close>: parsing and printing of IMSI, IMEI and PLMN, the Luhn
    check. Round trips, the error that printing a PLMN makes, and the detection of single-digit errors.
  \<^item> The hash set of blocked devices and roaming partners (\<^verbatim>\<open>include/policy/flat_set.hpp\<close>) in \<^verbatim>\<open>Flat_Set\<close> and the
    subscriber table (\<^verbatim>\<open>subscriber_store.hpp/.cpp\<close>) in \<^verbatim>\<open>Subscriber_Store\<close> and \<^verbatim>\<open>Subscriber_Csv\<close>. Both are open addressing
    with linear probing; what they share is proved once in the locale of \<^verbatim>\<open>Probing\<close> and interpreted on each. The store
    refines a finite map, no probe runs forever, and a pre-sized store never rehashes; its load factor is a double, computed
    by \<^verbatim>\<open>Float64\<close> as a rational rounded to 53 bits, half to even. The roster loader accounts for every row.
  \<^item> The rules language: the YAML subset (\<^verbatim>\<open>yaml.hpp/.cpp\<close>) in \<^verbatim>\<open>Yaml_Parser\<close>, typed scalars in \<^verbatim>\<open>Yaml_Values\<close>, a
    printer for the round trip in \<^verbatim>\<open>Yaml_Print\<close>; the digest that identifies a rules file (\<^verbatim>\<open>sha256.hpp\<close>) in \<^verbatim>\<open>Sha256\<close>, whose
    table of round constants is written in decimal; the compiler (\<^verbatim>\<open>rules.hpp/.cpp\<close>) in \<^verbatim>\<open>Rule_Set\<close> (its output) and \<^verbatim>\<open>Rule_Compiler\<close>
    (every function of it, errors and warnings included). \<^verbatim>\<open>Rule_Conditions\<close> proves that a compiled condition means its source
    clause, \<^verbatim>\<open>Rule_Order\<close> that the shadowing lint is exact, \<^verbatim>\<open>Rule_Wf\<close> that a file is rejected or compiled to a
    well-formed rule set in priority order.
  \<^item> The engine (\<^verbatim>\<open>engine.hpp/.cpp\<close>) in \<^verbatim>\<open>Engine\<close>: the feature word of a request, the scan for the first matching rule
    and the grant it leads to. The lemmas say what each feature bit means, that a well-formed rule set answers every request
    by its first applicable rule, what a denial never grants and what an inherited quota is.
  \<^item> The publication of rule sets to running workers (\<^verbatim>\<open>include/policy/rcu.hpp\<close>) in \<^verbatim>\<open>Rcu\<close>: readers and the reloading writer as an
    interleaving of their atomic accesses, with an inductive reachability relation. No registered reader holds a freed snapshot
    and every grace period ends; the slots the control plane uses without registering break this when the HTTP front runs.
  \<^item> The datagram path in \<^verbatim>\<open>Ingest\<close>: the counters (\<^verbatim>\<open>metrics.hpp/.cpp\<close>), batched socket I/O (\<^verbatim>\<open>net.cpp\<close>) and
    the worker loop (\<^verbatim>\<open>server_udp.cpp\<close>); the io_uring worker (\<^verbatim>\<open>server_iouring.cpp\<close>) in \<^verbatim>\<open>Uring\<close>. Every 64-byte message of a batch
    is answered, in order; the counters balance; send slots and submissions of the ring are never overrun.
  \<^item> The HTTP front (\<^verbatim>\<open>http_front.hpp/.cpp\<close>) in \<^verbatim>\<open>Http_Front\<close>: query parsing, the JSON reply, one connection and the worker's pass
    over its connections.
  \<^item> Latency histograms (\<^verbatim>\<open>hdr_histogram.hpp\<close>) in \<^verbatim>\<open>Hdr_Histogram\<close>: the bucket arithmetic stays inside the array, nothing recorded
    is lost, and merging is exact.

  Conventions. Machine integers are words of their width; histogram values and counters kept as unbounded integers in the
  model are stated so in their theory. A value that the program reads from outside (time, files, kernel results,
  the number of hardware threads) is an argument of the definitions. A C++ reference that is updated is returned. \<^const>\<open>None\<close> of an option marks what the source
  leaves undefined or does not finish: an index outside an array, a loop that does not stop.

  Loops. Probing loops are \<^verbatim>\<open>partial_function\<close>s, proved to return for every table with a free slot. The block and flow parsers of YAML
  recurse on fuel; the parser is run with a fuel computed from the length of the text and proved to return for every text.
  \<^verbatim>\<open>upsert\<close> and \<^verbatim>\<open>grow\<close> are mutually recursive in the source; two levels are proved to be enough. The search for a power of two and
  the bucket loop of the histogram are bounded by the word length. All other recursion is structural.

  Not modelled, because there is nothing in them to state beyond the call itself: socket and ring set-up, threads, CPU pinning, logging,
  clock and cycle-counter reads, the process entry point. The administration server, the control plane's endpoints, the configuration parser,
  the golden corpus and the request generator are not modelled either.
  The tests and the load generator are not part of the service.
\<close>

end
